(* ===== verification/Prelude.thy ===== *)
theory Prelude
  imports
    Main
    "HOL-Library.Word"
    "HOL-Library.Char_ord"
    "HOL-Library.List_Lexorder"
    "HOL-Library.Sublist"
begin

unbundle bit_operations_syntax

text \<open>
  Vocabulary shared by every theory of the development: the integer types of the code as words,
  \<^verbatim>\<open>std::string\<close> as a list of 8-bit characters, thrown exceptions as values of a sum type,
  state machines with an invariant, and the generic facts on words and lists that the component proofs use.
\<close>

section \<open>Collections of facts\<close>

named_theorems bind_simps \<open>inversion of sequenced computations that may throw\<close>
named_theorems wire_simps \<open>what a byte-level reader returns on bytes a writer produced\<close>
named_theorems frame_rules \<open>what an operation on one file leaves unchanged in the others\<close>


section \<open>Machine types\<close>

type_synonym byte = "8 word"
type_synonym u16 = "16 word"
type_synonym u32 = "32 word"
type_synonym u64 = "64 word"

text \<open>
  \<^verbatim>\<open>std::vector<std::uint8_t>\<close> and \<^verbatim>\<open>std::span<const std::uint8_t>\<close> are both lists of bytes; a
  \<^verbatim>\<open>std::size_t\<close> that counts bytes or elements held in memory is a \<open>nat\<close>.
\<close>

type_synonym ByteBuffer = "byte list"

definition byte_of_char :: "char \<Rightarrow> byte" where
  "byte_of_char c = word_of_nat (of_char c)"

definition char_of_byte :: "byte \<Rightarrow> char" where
  "char_of_byte b = char_of (unat b)"

lemma unat_byte_of_char [simp]: "unat (byte_of_char c) = of_char c"
  using nat_of_char_less_256 [of c] by (simp add: byte_of_char_def unat_of_nat)

lemma char_of_byte_inverse [simp]: "byte_of_char (char_of_byte b) = b"
proof -
  have "unat b < 256" using unsigned_less [of b] by simp
  then show ?thesis by (simp add: char_of_byte_def byte_of_char_def)
qed

lemma byte_of_char_inverse [simp]: "char_of_byte (byte_of_char c) = c"
  by (simp add: char_of_byte_def)

abbreviation bytes_of_string :: "string \<Rightarrow> ByteBuffer" where
  "bytes_of_string s \<equiv> map byte_of_char s"

abbreviation string_of_bytes :: "ByteBuffer \<Rightarrow> string" where
  "string_of_bytes bs \<equiv> map char_of_byte bs"

lemma char_byte_comp [simp]:
  "byte_of_char \<circ> char_of_byte = id"
  "char_of_byte \<circ> byte_of_char = id"
  by (simp_all add: fun_eq_iff)

lemma string_of_bytes_of_string: "string_of_bytes (bytes_of_string s) = s"
  by simp

lemma bytes_of_string_of_bytes: "bytes_of_string (string_of_bytes bs) = bs"
  by simp

lemma bytes_of_string_eq_iff [simp]: "bytes_of_string s = bytes_of_string t \<longleftrightarrow> s = t"
  by (metis string_of_bytes_of_string)

lemma of_nat_u32_inverse: "n < 2 ^ 32 \<Longrightarrow> unat (word_of_nat n :: u32) = n"
  by (simp add: unat_of_nat)


text \<open>An increment below the maximum does not wrap.\<close>

lemma unat_increment: "(w :: 'a::len word) \<noteq> - 1 \<Longrightarrow> unat (w + 1) = Suc (unat w)"
  using unatSuc [of w] by (metis add.commute add_eq_0_iff)

lemma increment_neq_0: "(w :: 'a::len word) \<noteq> - 1 \<Longrightarrow> w + 1 \<noteq> 0"
  by (metis add.commute add_eq_0_iff)

lemma increment_less: "(w :: 'a::len word) \<noteq> - 1 \<Longrightarrow> w < w + 1"
  by (simp add: word_less_nat_alt unat_increment)


section \<open>Machines\<close>

text \<open>
  A step relation and a property that every step keeps. A run is a sequence of steps, and what can be
  reached is the closure of the step relation.
\<close>

locale state_machine =
  fixes step :: "'s \<Rightarrow> 's \<Rightarrow> bool" and inv :: "'s \<Rightarrow> bool"
  assumes preserved: "inv s \<Longrightarrow> step s t \<Longrightarrow> inv t"
begin

lemma invariant: "step\<^sup>*\<^sup>* s t \<Longrightarrow> inv s \<Longrightarrow> inv t"
  by (induction rule: rtranclp_induct) (auto intro: preserved)

end

lemmas reach_intros = rtranclp.rtrancl_refl rtranclp.rtrancl_into_rtrancl

lemma reach_grows:
  fixes f :: "'s \<Rightarrow> 'a::preorder"
  assumes "r\<^sup>*\<^sup>* s t" and "\<And>s t. r s t \<Longrightarrow> f s \<le> f t"
  shows "f s \<le> f t"
  using assms(1) by (induction rule: rtranclp_induct) (auto intro: order_trans assms(2))

lemma reach_trans: "r\<^sup>*\<^sup>* t u \<Longrightarrow> r\<^sup>*\<^sup>* s t \<Longrightarrow> r\<^sup>*\<^sup>* s u"
  by (rule rtranclp_trans)


section \<open>Exceptions as values\<close>

datatype errno =
    EINTR
  | EIO
  | EAGAIN
  | ENOENT
  | ENOSPC
  | EPIPE
  | ECONNREFUSED
  | Errno int

datatype exn =
    ProtocolError string
  | RuntimeError string
  | InvalidArgument string
  | OutOfRange string
  | OverflowError string
  | LogicError string
  | SystemError errno string

type_synonym 'a result = "exn + 'a"

text \<open>Sequencing: the first exception ends the computation.\<close>

definition bindR :: "'a result \<Rightarrow> ('a \<Rightarrow> 'b result) \<Rightarrow> 'b result" where
  "bindR m f = (case m of Inl e \<Rightarrow> Inl e | Inr x \<Rightarrow> f x)"

lemma bindR_simps [simp]:
  "bindR (Inl e) f = Inl e"
  "bindR (Inr x) f = f x"
  by (simp_all add: bindR_def)

lemma bindR_eq_Inr_iff [bind_simps]: "bindR m f = Inr y \<longleftrightarrow> (\<exists>x. m = Inr x \<and> f x = Inr y)"
  by (cases m) auto

lemma throw_if_eq_Inr_iff [bind_simps]:
  "(if c then Inl e else r) = Inr y \<longleftrightarrow> \<not> c \<and> r = Inr y"
  by simp

lemma bindR_eq_Inl_iff:
  "bindR m f = Inl e \<longleftrightarrow> m = Inl e \<or> (\<exists>x. m = Inr x \<and> f x = Inl e)"
  by (cases m) auto

lemma bindR_cong [fundef_cong]:
  "m = m' \<Longrightarrow> (\<And>x. m' = Inr x \<Longrightarrow> f x = g x) \<Longrightarrow> bindR m f = bindR m' g"
  by (cases m') auto

lemma not_Inl_iff: "(\<nexists>e. r = Inl e) \<longleftrightarrow> (\<exists>x. r = Inr x)"
  by (cases r) auto


section \<open>Big-endian decomposition of words\<close>

text \<open>
  One step of the readers' loop, \<^verbatim>\<open>value = (value << 8) | input[offset + index]\<close>, and the bytes the
  writers' loop pushes, most significant first.
\<close>

definition be_step :: "'a::len word \<Rightarrow> byte \<Rightarrow> 'a word" where
  "be_step v b = push_bit 8 v OR ucast b"

fun be_bytes :: "nat \<Rightarrow> 'a::len word \<Rightarrow> ByteBuffer" where
  "be_bytes 0 v = []"
| "be_bytes (Suc n) v = ucast (drop_bit (8 * n) v) # be_bytes n v"

lemma length_be_bytes [simp]: "length (be_bytes n v) = n"
  by (induction n) auto

lemma be_bytes_eq_Nil [simp]: "be_bytes n v = [] \<longleftrightarrow> n = 0"
  by (cases n) auto

lemma bit_byte_iff: "bit (b :: byte) n \<longleftrightarrow> n < 8 \<and> bit b n"
  using bit_imp_le_length [of b n] by auto

lemma bit_be_step:
  fixes v :: "'a::len word"
  shows "bit (be_step v b) n \<longleftrightarrow> n < LENGTH('a) \<and> (8 \<le> n \<and> bit v (n - 8) \<or> n < 8 \<and> bit b n)"
  using bit_byte_iff [of b n] by (auto simp: be_step_def bit_simps)

lemma foldl_be_step_be_bytes:
  "foldl be_step acc (be_bytes n v) = push_bit (8 * n) acc OR take_bit (8 * n) v"
proof (induction n arbitrary: acc)
  case 0
  show ?case by simp
next
  case (Suc n)
  have "push_bit (8 * n) (be_step acc (ucast (drop_bit (8 * n) v)))
        OR take_bit (8 * n) v = push_bit (8 * Suc n) acc OR take_bit (8 * Suc n) v"
    by (rule bit_word_eqI) (auto simp: bit_be_step bit_simps diff_diff_add add.commute)
  then show ?case
    by (simp only: be_bytes.simps foldl.simps Suc)
qed

lemma be_bytes_snoc: "be_bytes (Suc n) v = be_bytes n (drop_bit 8 v) @ [ucast v]"
  by (induction n) (auto simp: add.commute)

lemma foldl_be_step_high:
  "8 * length bs \<le> n \<Longrightarrow> \<not> bit (foldl be_step (0 :: 'a::len word) bs) n"
proof (induction bs arbitrary: n rule: rev_induct)
  case Nil
  show ?case by simp
next
  case (snoc b bs)
  then have "\<not> bit (foldl be_step (0 :: 'a word) bs) (n - 8)" by simp
  with snoc.prems show ?case
    by (simp add: bit_be_step)
qed

lemma be_bytes_foldl_be_step:
  assumes "8 * length bs \<le> LENGTH('a::len)"
  shows "be_bytes (length bs) (foldl be_step (0 :: 'a word) bs) = bs"
  using assms
proof (induction bs rule: rev_induct)
  case Nil
  show ?case by simp
next
  case (snoc b bs)
  let ?w = "foldl be_step (0 :: 'a word) bs"
  have below: "8 + n < LENGTH('a)" if "bit ?w n" for n
    using foldl_be_step_high [of bs n] that snoc.prems by force
  have shifted: "drop_bit 8 (be_step ?w b) = ?w"
    by (rule bit_word_eqI) (use below in \<open>auto simp: bit_be_step bit_simps\<close>)
  have lowest: "ucast (be_step ?w b) = b"
    using snoc.prems by (intro bit_word_eqI) (auto simp: bit_be_step bit_simps)
  show ?case
    using snoc by (simp add: be_bytes_snoc shifted lowest del: be_bytes.simps)
qed


section \<open>Lists\<close>

lemma take_drop_prefix: "length xs = i \<Longrightarrow> take n (drop i (xs @ ys)) = take n ys"
  by auto

lemma map_nth_upt:
  "i + n \<le> length xs \<Longrightarrow> map (\<lambda>k. xs ! (i + k)) [0..<n] = take n (drop i xs)"
  by (rule nth_equalityI) auto

lemma foldl_map_fun: "foldl (\<lambda>v k. f v (g k)) a ks = foldl f a (map g ks)"
  by (induction ks arbitrary: a) auto

lemma split_at_drop: "i \<le> length xs \<Longrightarrow> xs = take i xs @ drop i xs"
  by simp

lemma drop_eq_append_drop:
  "drop i xs = ys @ zs \<Longrightarrow> drop (i + length ys) xs = zs"
  by (metis add.commute append_eq_conv_conj drop_drop)

end
