(* ===== verification/Wire.thy ===== *)
theory Wire
  imports Prelude
begin

text \<open>
  The byte-level writers and readers of \<^verbatim>\<open>src/src/Protocol.cpp\<close>: \<^verbatim>\<open>appendUint16/32/64\<close>,
  \<^verbatim>\<open>requireBytes\<close>, \<^verbatim>\<open>readUint8/16/32/64\<close> and \<^verbatim>\<open>readString\<close>. A writer takes the output buffer and
  returns it extended; a reader takes the input span and the offset it holds by reference and
  returns the value with the advanced offset, or the exception. The lemmas say that a reader run
  at the position where a writer wrote returns the value written, and that the bytes a reader
  accepts are the ones the writer would produce for its result.
\<close>

section \<open>Writers\<close>

definition appendUint16 :: "ByteBuffer \<Rightarrow> u16 \<Rightarrow> ByteBuffer" where
  "appendUint16 output v = (output @ [ucast (drop_bit 8 v)]) @ [ucast v]"

definition appendUint32 :: "ByteBuffer \<Rightarrow> u32 \<Rightarrow> ByteBuffer" where
  "appendUint32 output v =
     foldl (\<lambda>out shift. out @ [ucast (drop_bit shift v)]) output [24, 16, 8, 0]"

definition appendUint64 :: "ByteBuffer \<Rightarrow> u64 \<Rightarrow> ByteBuffer" where
  "appendUint64 output v =
     foldl (\<lambda>out shift. out @ [ucast (drop_bit shift v)]) output [56, 48, 40, 32, 24, 16, 8, 0]"

lemma appendUint16_eq: "appendUint16 out v = out @ be_bytes 2 v"
  by (simp add: appendUint16_def numeral_2_eq_2)

lemma appendUint32_eq: "appendUint32 out v = out @ be_bytes 4 v"
  by (simp add: appendUint32_def numeral_eq_Suc)

lemma appendUint64_eq: "appendUint64 out v = out @ be_bytes 8 v"
  by (simp add: appendUint64_def numeral_eq_Suc)

lemmas append_uint_eqs = appendUint16_eq appendUint32_eq appendUint64_eq


section \<open>Readers\<close>

definition requireBytes :: "ByteBuffer \<Rightarrow> nat \<Rightarrow> nat \<Rightarrow> unit result" where
  "requireBytes input offset count =
     (if offset > length input \<or> count > length input - offset
      then Inl (ProtocolError ''unexpected end of protocol data'')
      else Inr ())"

definition readUint8 :: "ByteBuffer \<Rightarrow> nat \<Rightarrow> (byte \<times> nat) result" where
  "readUint8 input offset =
     bindR (requireBytes input offset 1) (\<lambda>_. Inr (input ! offset, offset + 1))"

definition readUint16 :: "ByteBuffer \<Rightarrow> nat \<Rightarrow> (u16 \<times> nat) result" where
  "readUint16 input offset =
     bindR (requireBytes input offset 2) (\<lambda>_.
       let v = push_bit 8 (ucast (input ! offset)) OR ucast (input ! (offset + 1))
       in Inr (v, offset + 2))"

definition readUint32 :: "ByteBuffer \<Rightarrow> nat \<Rightarrow> (u32 \<times> nat) result" where
  "readUint32 input offset =
     bindR (requireBytes input offset 4) (\<lambda>_.
       let v = foldl (\<lambda>v index. push_bit 8 v OR ucast (input ! (offset + index))) 0 [0..<4]
       in Inr (v, offset + 4))"

definition readUint64 :: "ByteBuffer \<Rightarrow> nat \<Rightarrow> (u64 \<times> nat) result" where
  "readUint64 input offset =
     bindR (requireBytes input offset 8) (\<lambda>_.
       let v = foldl (\<lambda>v index. push_bit 8 v OR ucast (input ! (offset + index))) 0 [0..<8]
       in Inr (v, offset + 8))"

definition readString :: "ByteBuffer \<Rightarrow> nat \<Rightarrow> u32 \<Rightarrow> (string \<times> nat) result" where
  "readString input offset len =
     bindR (requireBytes input offset (unat len)) (\<lambda>_.
       Inr (string_of_bytes (take (unat len) (drop offset input)), offset + unat len))"

lemma requireBytes_iff [bind_simps]:
  "requireBytes input offset n = Inr u \<longleftrightarrow> offset + n \<le> length input"
  by (auto simp: requireBytes_def)

text \<open>Each reader, as one function of the bytes it consumes.\<close>

lemma read_loop_eq:
  assumes "offset + n \<le> length input"
  shows "foldl (\<lambda>v index. push_bit 8 v OR ucast (input ! (offset + index))) 0 [0..<n]
         = foldl be_step 0 (take n (drop offset input))"
proof -
  have "foldl (\<lambda>v index. push_bit 8 v OR ucast (input ! (offset + index))) 0 [0..<n]
      = foldl be_step 0 (map (\<lambda>k. input ! (offset + k)) [0..<n])"
    by (simp add: be_step_def foldl_map_fun [symmetric, of be_step])
  then show ?thesis
    using assms by (simp add: map_nth_upt)
qed

lemma readUint8_eq:
  "readUint8 input offset = Inr (v, offset')
   \<longleftrightarrow> offset' = offset + 1 \<and> offset + 1 \<le> length input \<and> [v] = take 1 (drop offset input)"
  by (auto simp: readUint8_def bind_simps take_Suc_conv_app_nth hd_drop_conv_nth take_Suc)

lemma readUint16_eq:
  "readUint16 input offset = Inr (v, offset')
   \<longleftrightarrow> offset' = offset + 2 \<and> offset + 2 \<le> length input
     \<and> v = foldl be_step 0 (take 2 (drop offset input))"
proof -
  have "push_bit 8 (ucast (input ! offset)) OR ucast (input ! (offset + 1))
      = foldl be_step (0 :: u16) (take 2 (drop offset input))" if "offset + 2 \<le> length input"
    using read_loop_eq [OF that, where 'a = 16] by (simp add: numeral_2_eq_2)
  then show ?thesis
    by (auto simp: readUint16_def bind_simps Let_def)
qed

lemma readUint32_eq:
  "readUint32 input offset = Inr (v, offset')
   \<longleftrightarrow> offset' = offset + 4 \<and> offset + 4 \<le> length input
     \<and> v = foldl be_step 0 (take 4 (drop offset input))"
  by (auto simp: readUint32_def bind_simps Let_def read_loop_eq)

lemma readUint64_eq:
  "readUint64 input offset = Inr (v, offset')
   \<longleftrightarrow> offset' = offset + 8 \<and> offset + 8 \<le> length input
     \<and> v = foldl be_step 0 (take 8 (drop offset input))"
  by (auto simp: readUint64_def bind_simps Let_def read_loop_eq)

lemma readString_eq:
  "readString input offset len = Inr (s, offset')
   \<longleftrightarrow> offset' = offset + unat len \<and> offset + unat len \<le> length input
     \<and> s = string_of_bytes (take (unat len) (drop offset input))"
  by (auto simp: readString_def bind_simps)


section \<open>A reader accepts exactly what the writer produces\<close>

text \<open>\<open>bytes_at input offset bs\<close>: the bytes \<open>bs\<close> stand in the input from \<open>offset\<close> on.\<close>

definition bytes_at :: "ByteBuffer \<Rightarrow> nat \<Rightarrow> ByteBuffer \<Rightarrow> bool" where
  "bytes_at input offset bs \<longleftrightarrow>
     offset + length bs \<le> length input \<and> take (length bs) (drop offset input) = bs"

lemma bytes_at_append [wire_simps]:
  "bytes_at input offset (xs @ ys) \<longleftrightarrow>
   bytes_at input offset xs \<and> bytes_at input (offset + length xs) ys"
  by (auto simp: bytes_at_def take_add add.commute)

lemma bytes_at_Cons [wire_simps]:
  "ys \<noteq> [] \<Longrightarrow> bytes_at input offset (x # ys) \<longleftrightarrow>
   bytes_at input offset [x] \<and> bytes_at input (offset + 1) ys"
  using bytes_at_append [of input offset "[x]" ys] by simp

lemma bytes_at_here [simp]: "bytes_at (xs @ ys) 0 xs"
  by (simp add: bytes_at_def)

lemma bytes_at_after: "bytes_at (xs @ ys @ zs) (length xs) ys"
  by (simp add: bytes_at_def)

lemma bytes_at_le: "bytes_at input offset bs \<Longrightarrow> offset + length bs \<le> length input"
  by (simp add: bytes_at_def)

lemma bytes_at_iff_prefix: "offset \<le> length input \<Longrightarrow>
  bytes_at input offset bs \<longleftrightarrow> prefix bs (drop offset input)"
  by (auto simp: bytes_at_def prefix_def dest: arg_cong [where f = length])
    (metis append_take_drop_id)

lemma bytes_at_whole: "length input = offset + length bs \<Longrightarrow>
  bytes_at input offset bs \<longleftrightarrow> drop offset input = bs"
  by (simp add: bytes_at_def)

lemma be_bytes_inverse:
  fixes v :: "'a::len word"
  assumes "8 * n = LENGTH('a)"
  shows "bs = be_bytes n v \<longleftrightarrow> length bs = n \<and> v = foldl be_step 0 bs"
proof
  assume "bs = be_bytes n v"
  then show "length bs = n \<and> v = foldl be_step 0 bs"
    using assms by (simp add: foldl_be_step_be_bytes take_bit_word_eq_self)
next
  assume "length bs = n \<and> v = foldl be_step 0 bs"
  then show "bs = be_bytes n v"
    using assms be_bytes_foldl_be_step [of bs, where 'a = 'a] by simp
qed

lemma readUint8_iff [wire_simps]:
  "readUint8 input offset = Inr (v, offset') \<longleftrightarrow> offset' = offset + 1 \<and> bytes_at input offset [v]"
  by (auto simp: readUint8_eq bytes_at_def)

lemma readUint16_iff [wire_simps]:
  "readUint16 input offset = Inr (v, offset') \<longleftrightarrow>
   offset' = offset + 2 \<and> bytes_at input offset (be_bytes 2 v)"
  by (auto simp: readUint16_eq bytes_at_def be_bytes_inverse [where 'a = 16])

lemma readUint32_iff [wire_simps]:
  "readUint32 input offset = Inr (v, offset') \<longleftrightarrow>
   offset' = offset + 4 \<and> bytes_at input offset (be_bytes 4 v)"
  by (auto simp: readUint32_eq bytes_at_def be_bytes_inverse [where 'a = 32])

lemma readUint64_iff [wire_simps]:
  "readUint64 input offset = Inr (v, offset') \<longleftrightarrow>
   offset' = offset + 8 \<and> bytes_at input offset (be_bytes 8 v)"
  by (auto simp: readUint64_eq bytes_at_def be_bytes_inverse [where 'a = 64])

lemma readString_iff [wire_simps]:
  "readString input offset len = Inr (s, offset') \<longleftrightarrow>
   offset' = offset + length s \<and> length s = unat len \<and> bytes_at input offset (bytes_of_string s)"
  by (auto simp: readString_eq bytes_at_def)

end
