(* ===== verification/Protocol.thy ===== *)
theory Protocol
  imports Wire
begin

text \<open>
  The binary protocol: \<^verbatim>\<open>src/include/Protocol.h\<close>, \<^verbatim>\<open>src/include/LogMessage.h\<close> and the record,
  frame and message functions of \<^verbatim>\<open>src/src/Protocol.cpp\<close>. The main facts are that a serializer
  and its deserializer describe the same relation between values and frames: a frame is accepted
  exactly when it is the frame of the value it decodes to, so decoding inverts encoding, encoding
  inverts decoding, and no frame has two readings.
\<close>

section \<open>Data and limits\<close>

text \<open>
  \<open>msgId\<close> is the field \<^verbatim>\<open>id\<close>; \<open>timestampMs\<close> is the 64-bit pattern of the signed timestamp (the
  code's \<^verbatim>\<open>std::bit_cast\<close> keeps the bits, \<open>sint\<close> reads the value).
\<close>

record LogMessage =
  msgId :: u64
  clientId :: string
  timestampMs :: u64
  source :: string
  content :: string

datatype MessageType = Log | Ack | LogBatch

record FrameHeader =
  version :: byte
  msgType :: MessageType
  payloadLength :: u32

record AckMessage =
  confirmedId :: u64

definition Magic :: u32 where "Magic = 0x4C474231"
definition Version :: byte where "Version = 2"
definition FrameHeaderSize :: nat where "FrameHeaderSize = 12"
definition MaxClientIdLength :: nat where "MaxClientIdLength = 128"
definition MaxSourceLength :: nat where "MaxSourceLength = 4 * 1024"
definition MaxContentLength :: nat where "MaxContentLength = 1024 * 1024"
definition MaxBatchMessageCount :: nat where "MaxBatchMessageCount = 100"
definition MaxFramePayloadLength :: nat where "MaxFramePayloadLength = 16 * 1024 * 1024"
definition LogRecordFixedSize :: nat where "LogRecordFixedSize = 8 + 8 + 4 + 4 + 4"
definition AckPayloadSize :: u32 where "AckPayloadSize = 8"
definition BatchPrefixSize :: nat where "BatchPrefixSize = 4"

lemmas limit_defs =
  FrameHeaderSize_def MaxClientIdLength_def MaxSourceLength_def MaxContentLength_def
  MaxBatchMessageCount_def MaxFramePayloadLength_def LogRecordFixedSize_def BatchPrefixSize_def

fun messageTypeValue :: "MessageType \<Rightarrow> byte" where
  "messageTypeValue Log = 1"
| "messageTypeValue Ack = 2"
| "messageTypeValue LogBatch = 3"


section \<open>Records and headers\<close>

definition appendFrameHeader :: "ByteBuffer \<Rightarrow> MessageType \<Rightarrow> u32 \<Rightarrow> ByteBuffer" where
  "appendFrameHeader output t n =
     appendUint32
       (appendUint16 ((appendUint32 output Magic @ [Version]) @ [messageTypeValue t]) 0) n"

definition parseMessageType :: "byte \<Rightarrow> MessageType result" where
  "parseMessageType raw =
     (if raw = messageTypeValue Log then Inr Log
      else if raw = messageTypeValue Ack then Inr Ack
      else if raw = messageTypeValue LogBatch then Inr LogBatch
      else Inl (ProtocolError ''unknown message type''))"

definition logRecordSize :: "LogMessage \<Rightarrow> nat result" where
  "logRecordSize m =
     (if msgId m = 0 then Inl (ProtocolError ''message id cannot be zero'')
      else if clientId m = [] \<or> length (clientId m) > MaxClientIdLength
      then Inl (ProtocolError ''invalid client id length'')
      else if length (source m) > MaxSourceLength
      then Inl (ProtocolError ''log source is too long'')
      else if length (content m) > MaxContentLength
      then Inl (ProtocolError ''log content is too long'')
      else Inr (LogRecordFixedSize + length (clientId m) + length (source m) + length (content m)))"

definition appendLogRecord :: "ByteBuffer \<Rightarrow> LogMessage \<Rightarrow> ByteBuffer" where
  "appendLogRecord output m =
     (let clientIdLength = word_of_nat (length (clientId m));
          sourceLength = word_of_nat (length (source m));
          contentLength = word_of_nat (length (content m));
          out1 = appendUint64 output (msgId m);
          out2 = appendUint64 out1 (timestampMs m);
          out3 = appendUint32 out2 clientIdLength;
          out4 = appendUint32 out3 sourceLength;
          out5 = appendUint32 out4 contentLength;
          out6 = out5 @ bytes_of_string (clientId m);
          out7 = out6 @ bytes_of_string (source m)
      in out7 @ bytes_of_string (content m))"

definition readLogRecord :: "ByteBuffer \<Rightarrow> nat \<Rightarrow> (LogMessage \<times> nat) result" where
  "readLogRecord input offset =
     bindR (readUint64 input offset) (\<lambda>(i, o1).
     bindR (readUint64 input o1) (\<lambda>(ts, o2).
     bindR (readUint32 input o2) (\<lambda>(clientIdLength, o3).
     bindR (readUint32 input o3) (\<lambda>(sourceLength, o4).
     bindR (readUint32 input o4) (\<lambda>(contentLength, o5).
       if i = 0 then Inl (ProtocolError ''message id cannot be zero'')
       else if clientIdLength = 0 \<or> unat clientIdLength > MaxClientIdLength
       then Inl (ProtocolError ''invalid client id length'')
       else if unat sourceLength > MaxSourceLength
       then Inl (ProtocolError ''log source is too long'')
       else if unat contentLength > MaxContentLength
       then Inl (ProtocolError ''log content is too long'')
       else
         bindR (readString input o5 clientIdLength) (\<lambda>(cid, o6).
         bindR (readString input o6 sourceLength) (\<lambda>(src, o7).
         bindR (readString input o7 contentLength) (\<lambda>(txt, o8).
           Inr (\<lparr>msgId = i, clientId = cid, timestampMs = ts, source = src, content = txt\<rparr>,
                o8)))))))))"

definition requireFrameSize :: "ByteBuffer \<Rightarrow> FrameHeader \<Rightarrow> unit result" where
  "requireFrameSize frame header =
     (let expectedSize = FrameHeaderSize + unat (payloadLength header)
      in if length frame \<noteq> expectedSize
         then Inl (ProtocolError ''frame length does not match header'')
         else Inr ())"

definition parseFrameHeader :: "ByteBuffer \<Rightarrow> FrameHeader result" where
  "parseFrameHeader header =
     bindR (requireBytes header 0 FrameHeaderSize) (\<lambda>_.
     bindR (readUint32 header 0) (\<lambda>(magic, o1).
     bindR (readUint8 header o1) (\<lambda>(ver, o2).
     bindR (readUint8 header o2) (\<lambda>(rawType, o3).
     bindR (readUint16 header o3) (\<lambda>(reserved, o4).
     bindR (readUint32 header o4) (\<lambda>(len, o5).
       if magic \<noteq> Magic then Inl (ProtocolError ''invalid protocol magic'')
       else if ver \<noteq> Version then Inl (ProtocolError ''unsupported protocol version'')
       else if reserved \<noteq> 0 then Inl (ProtocolError ''reserved header bits must be zero'')
       else if unat len > MaxFramePayloadLength then Inl (ProtocolError ''payload is too large'')
       else bindR (parseMessageType rawType) (\<lambda>t.
         Inr \<lparr>version = ver, msgType = t, payloadLength = len\<rparr>)))))))"


section \<open>Messages\<close>

definition serializeLogMessage :: "LogMessage \<Rightarrow> ByteBuffer result" where
  "serializeLogMessage m =
     bindR (logRecordSize m) (\<lambda>payloadSize.
       let len = word_of_nat payloadSize;
           output = appendFrameHeader [] Log len
       in Inr (appendLogRecord output m))"

definition deserializeLogMessage :: "ByteBuffer \<Rightarrow> LogMessage result" where
  "deserializeLogMessage frame =
     bindR (parseFrameHeader frame) (\<lambda>header.
       if msgType header \<noteq> Log then Inl (ProtocolError ''frame is not a log message'')
       else bindR (requireFrameSize frame header) (\<lambda>_.
       bindR (readLogRecord frame FrameHeaderSize) (\<lambda>(m, offset).
         if offset \<noteq> length frame
         then Inl (ProtocolError ''log fields do not fill the payload'')
         else Inr m)))"

text \<open>
  The loop over the batch of \<^verbatim>\<open>serializeLogBatch\<close>: \<open>cid\<close> is the front message's client, and the
  two counters are \<^verbatim>\<open>previousId\<close> and \<^verbatim>\<open>payloadSize\<close>.
\<close>

fun batchPayloadSize :: "string \<Rightarrow> u64 \<Rightarrow> nat \<Rightarrow> LogMessage list \<Rightarrow> nat result" where
  "batchPayloadSize cid previousId payloadSize [] = Inr payloadSize"
| "batchPayloadSize cid previousId payloadSize (m # ms) =
     (if clientId m \<noteq> cid
      then Inl (ProtocolError ''log batch contains multiple client ids'')
      else if msgId m \<le> previousId
      then Inl (ProtocolError ''log batch ids must be strictly increasing'')
      else bindR (logRecordSize m) (\<lambda>recordSize.
        if recordSize > MaxFramePayloadLength - payloadSize
        then Inl (ProtocolError ''log batch payload is too large'')
        else batchPayloadSize cid (msgId m) (payloadSize + recordSize) ms))"

definition serializeLogBatch :: "LogMessage list \<Rightarrow> ByteBuffer result" where
  "serializeLogBatch messages =
     (if messages = [] then Inl (ProtocolError ''log batch cannot be empty'')
      else if length messages > MaxBatchMessageCount
      then Inl (ProtocolError ''too many messages in log batch'')
      else bindR (batchPayloadSize (clientId (hd messages)) 0 BatchPrefixSize messages)
        (\<lambda>payloadSize.
          let len = word_of_nat payloadSize;
              output = appendFrameHeader [] LogBatch len;
              output = appendUint32 output (word_of_nat (length messages))
          in Inr (foldl appendLogRecord output messages)))"

fun readLogRecords :: "nat \<Rightarrow> ByteBuffer \<Rightarrow> nat \<Rightarrow> (LogMessage list \<times> nat) result" where
  "readLogRecords 0 frame offset = Inr ([], offset)"
| "readLogRecords (Suc n) frame offset =
     bindR (readLogRecord frame offset) (\<lambda>(m, o1).
     bindR (readLogRecords n frame o1) (\<lambda>(ms, o2). Inr (m # ms, o2)))"

text \<open>The checking loop from index 1: \<open>cid\<close> is the front's client, \<open>previous\<close> the message before.\<close>

fun checkBatchOrder :: "string \<Rightarrow> LogMessage \<Rightarrow> LogMessage list \<Rightarrow> unit result" where
  "checkBatchOrder cid previous [] = Inr ()"
| "checkBatchOrder cid previous (m # ms) =
     (if clientId m \<noteq> cid
      then Inl (ProtocolError ''log batch contains multiple client ids'')
      else if msgId m \<le> msgId previous
      then Inl (ProtocolError ''log batch ids must be strictly increasing'')
      else checkBatchOrder cid m ms)"

definition deserializeLogBatch :: "ByteBuffer \<Rightarrow> LogMessage list result" where
  "deserializeLogBatch frame =
     bindR (parseFrameHeader frame) (\<lambda>header.
       if msgType header \<noteq> LogBatch then Inl (ProtocolError ''frame is not a log batch'')
       else bindR (requireFrameSize frame header) (\<lambda>_.
       bindR (readUint32 frame FrameHeaderSize) (\<lambda>(messageCount, o1).
       if messageCount = 0 \<or> unat messageCount > MaxBatchMessageCount
       then Inl (ProtocolError ''invalid log batch message count'')
       else bindR (readLogRecords (unat messageCount) frame o1) (\<lambda>(messages, offset).
       bindR (checkBatchOrder (clientId (hd messages)) (hd messages) (tl messages)) (\<lambda>_.
         if offset \<noteq> length frame
         then Inl (ProtocolError ''log batch fields do not fill the payload'')
         else Inr messages)))))"

definition serializeAck :: "u64 \<Rightarrow> ByteBuffer" where
  "serializeAck i = appendUint64 (appendFrameHeader [] Ack AckPayloadSize) i"

definition deserializeAck :: "ByteBuffer \<Rightarrow> AckMessage result" where
  "deserializeAck frame =
     bindR (parseFrameHeader frame) (\<lambda>header.
       if msgType header \<noteq> Ack then Inl (ProtocolError ''frame is not an ack message'')
       else bindR (requireFrameSize frame header) (\<lambda>_.
       if payloadLength header \<noteq> AckPayloadSize
       then Inl (ProtocolError ''invalid ack payload length'')
       else bindR (readUint64 frame FrameHeaderSize) (\<lambda>(i, _). Inr \<lparr>confirmedId = i\<rparr>)))"

end
