(* ===== verification/TextIO.thy ===== *)
theory TextIO
  imports Prelude
begin

text \<open>
  The parts of the C++ library the state files are read and written with: decimal output,
  \<^verbatim>\<open>std::getline\<close>, the extraction operators for strings and 64-bit numbers on an
  \<^verbatim>\<open>istringstream\<close>, and \<^verbatim>\<open>std::stoull\<close>. Whitespace, signs, overflow and the two error bits of
  the stream are kept, because the loaders depend on them.
\<close>

section \<open>Characters and numbers\<close>

definition isSpace :: "char \<Rightarrow> bool" where
  "isSpace c \<longleftrightarrow> of_char c = (32::nat) \<or> (9 \<le> (of_char c :: nat) \<and> of_char c \<le> (13::nat))"

definition isDigit :: "char \<Rightarrow> bool" where
  "isDigit c \<longleftrightarrow> 48 \<le> (of_char c :: nat) \<and> of_char c \<le> (57::nat)"

abbreviation newline :: char where
  "newline \<equiv> CHR 0x0A"

definition digitChar :: "nat \<Rightarrow> char" where
  "digitChar d = char_of (48 + d)"

fun decimal :: "nat \<Rightarrow> string" where
  "decimal n = (if n < 10 then [digitChar n] else decimal (n div 10) @ [digitChar (n mod 10)])"

declare decimal.simps [simp del]

definition digitsValue :: "string \<Rightarrow> nat" where
  "digitsValue cs = foldl (\<lambda>a c. 10 * a + (of_char c - 48)) 0 cs"

lemma isDigit_digitChar [simp]: "d < 10 \<Longrightarrow> isDigit (digitChar d)"
  by (simp add: isDigit_def digitChar_def)

lemma digit_not_space: "isDigit c \<Longrightarrow> \<not> isSpace c"
  by (simp add: isDigit_def isSpace_def)

lemma digit_neq [simp]:
  "isDigit c \<Longrightarrow> c \<noteq> CHR ''-''" "isDigit c \<Longrightarrow> c \<noteq> CHR ''+''" "isDigit c \<Longrightarrow> c \<noteq> newline"
  by (auto simp: isDigit_def)

lemma not_isDigit [simp]: "\<not> isDigit newline" "\<not> isDigit CHR '' ''"
  by (simp_all add: isDigit_def)

lemma isSpace_simps [simp]: "isSpace newline" "isSpace CHR '' ''"
  by (simp_all add: isSpace_def)

lemma digitsValue_snoc: "digitsValue (cs @ [c]) = 10 * digitsValue cs + (of_char c - 48)"
  by (simp add: digitsValue_def)

lemma decimal_nonempty [simp]: "decimal n \<noteq> []"
  by (subst decimal.simps) simp

lemma decimal_digits: "list_all isDigit (decimal n)"
proof (induction n rule: decimal.induct)
  case (1 n)
  then show ?case by (subst decimal.simps) simp
qed

lemma digitsValue_decimal [simp]: "digitsValue (decimal n) = n"
proof (induction n rule: decimal.induct)
  case (1 n)
  show ?case
  proof (cases "n < 10")
    case True
    then show ?thesis
      by (subst decimal.simps) (simp add: digitsValue_def digitChar_def)
  next
    case False
    then show ?thesis
      using 1 by (subst decimal.simps) (simp add: digitsValue_snoc digitChar_def)
  qed
qed

lemma decimal_inj: "decimal m = decimal n \<Longrightarrow> m = n"
  using digitsValue_decimal by metis

lemma decimal_set: "c \<in> set (decimal n) \<Longrightarrow> isDigit c"
  using decimal_digits by (auto simp: list_all_iff)

lemma decimal_hd: "isDigit (hd (decimal n))"
  using decimal_set decimal_nonempty list.set_sel(1) by blast

lemma takeWhile_decimal [simp]:
  "takeWhile isDigit (decimal n) = decimal n" "dropWhile isDigit (decimal n) = []"
  using decimal_digits by (simp_all add: list_all_iff takeWhile_eq_all_conv)

lemma takeWhile_decimal_append:
  "\<not> isDigit c \<Longrightarrow> takeWhile isDigit (decimal n @ c # cs) = decimal n"
  "\<not> isDigit c \<Longrightarrow> dropWhile isDigit (decimal n @ c # cs) = c # cs"
  using decimal_set by (simp_all add: takeWhile_append dropWhile_append)


text \<open>An id that survives being written between other fields: not empty, without whitespace.\<close>

definition plain_id :: "string \<Rightarrow> bool" where
  "plain_id c \<longleftrightarrow> c \<noteq> [] \<and> (\<forall>x \<in> set c. \<not> isSpace x)"

lemma plain_id_line: "plain_id c \<Longrightarrow> c \<noteq> [] \<and> newline \<notin> set c"
  by (auto simp: plain_id_def)


section \<open>Scanning an unsigned number\<close>

text \<open>An optional sign and the digits after it: the sign, the digits, and what follows them.\<close>

definition scanNumber :: "string \<Rightarrow> bool \<times> string \<times> string" where
  "scanNumber cs =
     (let neg = (cs \<noteq> [] \<and> hd cs = CHR ''-'');
          body = (if cs \<noteq> [] \<and> (hd cs = CHR ''-'' \<or> hd cs = CHR ''+'') then tl cs else cs)
      in (neg, takeWhile isDigit body, dropWhile isDigit body))"

text \<open>A minus sign negates in the unsigned type, as \<^verbatim>\<open>strtoull\<close> and \<^verbatim>\<open>num_get\<close> do.\<close>

definition signedValue :: "bool \<Rightarrow> nat \<Rightarrow> u64" where
  "signedValue neg n = (if neg then - of_nat n else of_nat n)"

text \<open>\<^verbatim>\<open>std::stoull(text, &parsed)\<close>: the value and \<^verbatim>\<open>parsed\<close>.\<close>

definition stoull :: "string \<Rightarrow> (u64 \<times> nat) result" where
  "stoull text =
     (let cs = dropWhile isSpace text
      in case scanNumber cs of (neg, ds, rs) \<Rightarrow>
        if ds = [] then Inl (InvalidArgument ''stoull'')
        else if digitsValue ds \<ge> 2 ^ 64 then Inl (OutOfRange ''stoull'')
        else Inr (signedValue neg (digitsValue ds), length text - length rs))"

lemma dropWhile_space_decimal [simp]: "dropWhile isSpace (decimal n @ cs) = decimal n @ cs"
  using digit_not_space [OF decimal_hd [of n]] by (cases "decimal n") simp_all

lemma scanNumber_decimal [simp]: "scanNumber (decimal n) = (False, decimal n, [])"
  using decimal_hd [of n] by (auto simp: scanNumber_def Let_def)

lemma scanNumber_decimal_append [simp]:
  "\<not> isDigit c \<Longrightarrow> scanNumber (decimal n @ c # cs) = (False, decimal n, c # cs)"
  using decimal_hd [of n]
  by (auto simp: scanNumber_def Let_def takeWhile_decimal_append)

lemma stoull_decimal: "n < 2 ^ 64 \<Longrightarrow> stoull (decimal n) = Inr (of_nat n, length (decimal n))"
  using dropWhile_space_decimal [of n "[]"] by (simp add: stoull_def signedValue_def)


section \<open>Input streams\<close>

record istream =
  rest :: string
  eofbit :: bool
  failbit :: bool

definition istringstream :: "string \<Rightarrow> istream" where
  "istringstream text = \<lparr>rest = text, eofbit = False, failbit = False\<rparr>"

definition good :: "istream \<Rightarrow> bool" where
  "good s \<longleftrightarrow> \<not> eofbit s \<and> \<not> failbit s"

text \<open>\<^verbatim>\<open>std::getline(s, str)\<close>; the second component is the new value of \<open>str\<close>.\<close>

definition getline :: "istream \<Rightarrow> string \<Rightarrow> istream \<times> string" where
  "getline s old =
     (if \<not> good s then (s\<lparr>failbit := True\<rparr>, old)
      else let line = takeWhile (\<lambda>c. c \<noteq> newline) (rest s);
               after = dropWhile (\<lambda>c. c \<noteq> newline) (rest s)
           in if after = []
              then (s\<lparr>rest := [], eofbit := True, failbit := (line = [])\<rparr>, line)
              else (s\<lparr>rest := tl after\<rparr>, line))"

text \<open>The sentry of the formatted extractions: skip whitespace, fail at the end of the input.\<close>

definition sentry :: "istream \<Rightarrow> istream" where
  "sentry s =
     (if \<not> good s then s\<lparr>failbit := True\<rparr>
      else let after = dropWhile isSpace (rest s)
           in if after = [] then s\<lparr>rest := [], eofbit := True, failbit := True\<rparr>
              else s\<lparr>rest := after\<rparr>)"

definition extractString :: "istream \<Rightarrow> string \<Rightarrow> istream \<times> string" where
  "extractString s old =
     (let s1 = sentry s
      in if failbit s1 then (s1, old)
         else let word = takeWhile (\<lambda>c. \<not> isSpace c) (rest s1);
                  after = dropWhile (\<lambda>c. \<not> isSpace c) (rest s1)
              in (s1\<lparr>rest := after, eofbit := (after = [])\<rparr>, word))"

text \<open>An overflowing number stores the largest value and fails, a missing one stores zero and fails.\<close>

definition extractUint64 :: "istream \<Rightarrow> u64 \<Rightarrow> istream \<times> u64" where
  "extractUint64 s old =
     (let s1 = sentry s
      in if failbit s1 then (s1, old)
         else case scanNumber (rest s1) of (neg, ds, after) \<Rightarrow>
           let s2 = s1\<lparr>rest := after, eofbit := (after = [])\<rparr>
           in if ds = [] then (s2\<lparr>failbit := True\<rparr>, 0)
              else if digitsValue ds \<ge> 2 ^ 64 then (s2\<lparr>failbit := True\<rparr>, - 1)
              else (s2, signedValue neg (digitsValue ds)))"

lemma getline_line:
  assumes "newline \<notin> set line"
  shows "getline \<lparr>rest = line @ newline # cs, eofbit = False, failbit = False\<rparr> old
    = (\<lparr>rest = cs, eofbit = False, failbit = False\<rparr>, line)"
proof -
  have "takeWhile (\<lambda>c. c \<noteq> newline) (line @ newline # cs) = line"
    "dropWhile (\<lambda>c. c \<noteq> newline) (line @ newline # cs) = newline # cs"
    using assms by (auto simp: takeWhile_append dropWhile_append)
  then show ?thesis by (simp add: getline_def good_def Let_def)
qed

lemma extractString_word:
  assumes "word \<noteq> []" and "\<forall>c \<in> set word. \<not> isSpace c" and "isSpace c"
  shows "extractString \<lparr>rest = word @ c # cs, eofbit = False, failbit = False\<rparr> old
    = (\<lparr>rest = c # cs, eofbit = False, failbit = False\<rparr>, word)"
proof -
  have "dropWhile isSpace (word @ c # cs) = word @ c # cs"
    using assms(1,2) by (cases word) auto
  moreover have "takeWhile (\<lambda>c. \<not> isSpace c) (word @ c # cs) = word"
    "dropWhile (\<lambda>c. \<not> isSpace c) (word @ c # cs) = c # cs"
    using assms(2,3) by (auto simp: takeWhile_append dropWhile_append)
  ultimately show ?thesis
    using assms(1) by (simp add: extractString_def sentry_def good_def Let_def)
qed

lemma extractUint64_decimal:
  assumes "n < 2 ^ 64" and "isSpace c" and "isSpace d"
  shows "extractUint64 \<lparr>rest = d # decimal n @ c # cs, eofbit = False, failbit = False\<rparr> old
    = (\<lparr>rest = c # cs, eofbit = False, failbit = False\<rparr>, of_nat n)"
proof -
  have "\<not> isDigit c" using assms(2) digit_not_space by blast
  then show ?thesis
    using assms by (simp add: extractUint64_def sentry_def good_def Let_def signedValue_def)
qed

lemma extractString_skip:
  assumes "isSpace c"
  shows "extractString \<lparr>rest = c # cs, eofbit = False, failbit = False\<rparr> old
    = extractString \<lparr>rest = cs, eofbit = False, failbit = False\<rparr> old"
  using assms by (simp add: extractString_def sentry_def good_def Let_def)

lemma extractString_end [simp]:
  "extractString \<lparr>rest = [], eofbit = False, failbit = False\<rparr> old
    = (\<lparr>rest = [], eofbit = True, failbit = True\<rparr>, old)"
  by (simp add: extractString_def sentry_def good_def Let_def)

lemma extractUint64_failed [simp]:
  "failbit s \<Longrightarrow> extractUint64 s old = (s\<lparr>failbit := True\<rparr>, old)"
  by (simp add: extractUint64_def sentry_def good_def)

end
