(* ===== verification/World.thy ===== *)
theory World
  imports Prelude
begin

text \<open>
  The environment the persistence code runs in: the files of one directory, what a power loss may
  leave of them, and the outcomes of the system calls. The code's calls to \<^verbatim>\<open>open\<close>, \<^verbatim>\<open>write\<close>,
  \<^verbatim>\<open>fsync\<close>, \<^verbatim>\<open>close\<close>, \<^verbatim>\<open>rename\<close> and \<^verbatim>\<open>remove\<close> are POSIX; only their documented effects are written
  here, and everything POSIX leaves open (whether a call succeeds, how many bytes a \<^verbatim>\<open>write\<close> takes)
  is read from the schedule \<open>sched\<close>, one entry per call. The process dies where the schedule ends,
  so a statement over all schedules covers every failure and every crash point.
\<close>

section \<open>Worlds\<close>

type_synonym path = string
type_synonym inode = nat

datatype sysres = Ok nat | Err errno

text \<open>
  \<open>curDir\<close> and \<open>fileData\<close> are what running processes see. \<open>dirHist\<close> lists the directory states a
  power loss may leave, oldest first: one per change since the directory was last synced, the
  current one included. \<open>fileSynced\<close> is the part of each file that has reached the disk.
\<close>

record world =
  curDir :: "path \<rightharpoonup> inode"
  dirHist :: "(path \<rightharpoonup> inode) list"
  fileData :: "inode \<Rightarrow> ByteBuffer"
  fileSynced :: "inode \<Rightarrow> ByteBuffer"
  nextInode :: inode
  sched :: "sysres list"

datatype 'a outcome = Done 'a | Throw exn | Crash

type_synonym 'a io = "world \<Rightarrow> 'a outcome \<times> world"

definition doneW :: "'a \<Rightarrow> 'a io" where
  "doneW x w = (Done x, w)"

definition throwW :: "exn \<Rightarrow> 'a io" where
  "throwW e w = (Throw e, w)"

definition bindW :: "'a io \<Rightarrow> ('a \<Rightarrow> 'b io) \<Rightarrow> 'b io" where
  "bindW m f w = (case m w of (Done x, w') \<Rightarrow> f x w' | (Throw e, w') \<Rightarrow> (Throw e, w')
                  | (Crash, w') \<Rightarrow> (Crash, w'))"

definition liftR :: "'a result \<Rightarrow> 'a io" where
  "liftR r = (case r of Inl e \<Rightarrow> throwW e | Inr x \<Rightarrow> doneW x)"

lemma bindW_simps [simp]:
  "bindW (doneW x) f w = f x w" "bindW (throwW e) f w = (Throw e, w)"
  by (simp_all add: bindW_def doneW_def throwW_def)

lemma liftR_simps [simp]: "liftR (Inl e) = throwW e" "liftR (Inr x) = doneW x"
  by (simp_all add: liftR_def)

text \<open>A method of an object: its state is returned also when the method throws.\<close>

type_synonym ('s, 'a) meth = "'s \<Rightarrow> world \<Rightarrow> 'a outcome \<times> 's \<times> world"

text \<open>\<^verbatim>\<open>try { m } catch (...) { h }\<close>; a crash is not an exception.\<close>

definition catchW :: "'a io \<Rightarrow> (exn \<Rightarrow> 'a io) \<Rightarrow> 'a io" where
  "catchW m h w = (case m w of (Throw e, w') \<Rightarrow> h e w' | r \<Rightarrow> r)"

definition syscall :: "(nat \<Rightarrow> 'a io) \<Rightarrow> (errno \<Rightarrow> 'a io) \<Rightarrow> 'a io" where
  "syscall good bad w =
     (case sched w of [] \<Rightarrow> (Crash, w)
      | Ok n # rs \<Rightarrow> good n (w\<lparr>sched := rs\<rparr>)
      | Err e # rs \<Rightarrow> bad e (w\<lparr>sched := rs\<rparr>))"


section \<open>Effects of the file system calls\<close>

definition setDir :: "(path \<rightharpoonup> inode) \<Rightarrow> world \<Rightarrow> world" where
  "setDir d w = w\<lparr>curDir := d, dirHist := dirHist w @ [d]\<rparr>"

text \<open>\<^verbatim>\<open>O_CREAT\<close>, with \<^verbatim>\<open>O_TRUNC\<close> when \<open>trunc\<close>; the file is then written at its end.\<close>

definition createOpen :: "bool \<Rightarrow> path \<Rightarrow> world \<Rightarrow> inode \<times> world" where
  "createOpen trunc p w =
     (case curDir w p of
        Some i \<Rightarrow> (i, if trunc then w\<lparr>fileData := (fileData w)(i := [])\<rparr> else w)
      | None \<Rightarrow>
          (let i = nextInode w
           in (i, setDir ((curDir w)(p \<mapsto> i))
                    (w\<lparr>fileData := (fileData w)(i := []), fileSynced := (fileSynced w)(i := []),
                       nextInode := Suc i\<rparr>))))"

definition appendData :: "inode \<Rightarrow> ByteBuffer \<Rightarrow> world \<Rightarrow> world" where
  "appendData i bs w = w\<lparr>fileData := (fileData w)(i := fileData w i @ bs)\<rparr>"

datatype descriptor = FileFd inode | DirectoryFd

fun fsyncEffect :: "descriptor \<Rightarrow> world \<Rightarrow> world" where
  "fsyncEffect (FileFd i) w = w\<lparr>fileSynced := (fileSynced w)(i := fileData w i)\<rparr>"
| "fsyncEffect DirectoryFd w = w\<lparr>dirHist := [curDir w]\<rparr>"

definition renameEffect :: "path \<Rightarrow> path \<Rightarrow> world \<Rightarrow> world" where
  "renameEffect a b w =
     (case curDir w a of None \<Rightarrow> w
      | Some i \<Rightarrow> setDir ((curDir w)(b \<mapsto> i, a := None)) w)"

definition removeEffect :: "path \<Rightarrow> world \<Rightarrow> world" where
  "removeEffect p w = (if curDir w p = None then w else setDir ((curDir w)(p := None)) w)"


section \<open>What is on the disk\<close>

text \<open>The file under a path, and what \<^verbatim>\<open>storage::readFile\<close> returns for it.\<close>

definition fileAt :: "world \<Rightarrow> path \<Rightarrow> ByteBuffer option" where
  "fileAt w p = map_option (fileData w) (curDir w p)"

definition contents :: "world \<Rightarrow> path \<Rightarrow> ByteBuffer" where
  "contents w p = (case fileAt w p of None \<Rightarrow> [] | Some bs \<Rightarrow> bs)"

text \<open>
  After a power loss a file whose data only grew since it was synced holds the synced part and
  some prefix of the growth; a file that was truncated and rewritten may hold anything. The
  directory is one of the states in \<open>dirHist\<close>.
\<close>

definition survives :: "ByteBuffer \<Rightarrow> ByteBuffer \<Rightarrow> ByteBuffer \<Rightarrow> bool" where
  "survives synced now x \<longleftrightarrow> (prefix synced now \<longrightarrow> prefix synced x \<and> prefix x now)"

definition power_loss :: "world \<Rightarrow> world \<Rightarrow> bool" where
  "power_loss w w' \<longleftrightarrow>
     (\<exists>d \<in> set (dirHist w). curDir w' = d \<and> dirHist w' = [d])
     \<and> (\<forall>i. survives (fileSynced w i) (fileData w i) (fileData w' i))
     \<and> fileSynced w' = fileData w' \<and> nextInode w' = nextInode w"

definition surviving :: "world \<Rightarrow> path \<Rightarrow> ByteBuffer option set" where
  "surviving w p = {fileAt w' p | w'. power_loss w w'}"

lemma survives_synced [simp]: "survives x x y \<longleftrightarrow> y = x"
  by (auto simp: survives_def)

lemma survives_self [simp]: "survives synced now now"
  by (simp add: survives_def)

definition leaves :: "world \<Rightarrow> inode option \<Rightarrow> ByteBuffer option \<Rightarrow> bool" where
  "leaves w n x \<longleftrightarrow>
     (case n of None \<Rightarrow> x = None
      | Some i \<Rightarrow> \<exists>y. x = Some y \<and> survives (fileSynced w i) (fileData w i) y)"

lemma leaves_simps [simp]:
  "leaves w None x \<longleftrightarrow> x = None"
  "leaves w (Some i) x \<longleftrightarrow> (\<exists>y. x = Some y \<and> survives (fileSynced w i) (fileData w i) y)"
  by (simp_all add: leaves_def)

lemma leaves_cong:
  "(\<And>i. n = Some i \<Longrightarrow> fileData w i = fileData w' i \<and> fileSynced w i = fileSynced w' i) \<Longrightarrow>
   leaves w n x \<longleftrightarrow> leaves w' n x"
  by (cases n) auto

lemma surviving_iff: "x \<in> surviving w p \<longleftrightarrow> (\<exists>d \<in> set (dirHist w). leaves w (d p) x)"
proof
  assume "x \<in> surviving w p"
  then obtain w' where "power_loss w w'" and x: "x = fileAt w' p"
    by (auto simp: surviving_def)
  then have "curDir w' \<in> set (dirHist w)"
    and "\<And>i. survives (fileSynced w i) (fileData w i) (fileData w' i)"
    by (auto simp: power_loss_def)
  with x show "\<exists>d \<in> set (dirHist w). leaves w (d p) x"
    by (intro bexI [where x = "curDir w'"]) (auto simp: leaves_def fileAt_def split: option.split)
next
  assume "\<exists>d \<in> set (dirHist w). leaves w (d p) x"
  then obtain d where d: "d \<in> set (dirHist w)" and x: "leaves w (d p) x" ..
  define fs where "fs = (\<lambda>i. if d p = Some i then the x else fileData w i)"
  let ?w = "w\<lparr>curDir := d, dirHist := [d], fileData := fs, fileSynced := fs\<rparr>"
  have "power_loss w ?w"
    using d x by (auto simp: power_loss_def fs_def)
  moreover have "fileAt ?w p = x"
    using x by (cases "d p") (auto simp: fileAt_def fs_def)
  ultimately show "x \<in> surviving w p"
    unfolding surviving_def by blast
qed


section \<open>Well-formed worlds and untouched files\<close>

definition wf_world :: "world \<Rightarrow> bool" where
  "wf_world w \<longleftrightarrow> dirHist w \<noteq> [] \<and> last (dirHist w) = curDir w
     \<and> (\<forall>d \<in> set (dirHist w). \<forall>p i. d p = Some i \<longrightarrow> i < nextInode w)"

text \<open>
  \<open>untouched P w0 w\<close>: for every path outside \<open>P\<close>, the world \<open>w\<close> shows the same file as \<open>w0\<close> and a
  power loss leaves nothing of it that \<open>w0\<close> did not already allow.
\<close>

definition untouched :: "path set \<Rightarrow> world \<Rightarrow> world \<Rightarrow> bool" where
  "untouched P w0 w \<longleftrightarrow>
     (\<forall>q. q \<notin> P \<longrightarrow> curDir w q = curDir w0 q)
     \<and> (\<forall>d \<in> set (dirHist w). \<exists>d0 \<in> set (dirHist w0). \<forall>q. q \<notin> P \<longrightarrow> d q = d0 q)
     \<and> (\<forall>d \<in> set (dirHist w). \<forall>q j. q \<notin> P \<longrightarrow> d q = Some j \<longrightarrow>
          fileData w j = fileData w0 j \<and> fileSynced w j = fileSynced w0 j)"

lemma curDir_in_dirHist: "wf_world w \<Longrightarrow> curDir w \<in> set (dirHist w)"
  unfolding wf_world_def by (metis last_in_set)

lemma untouched_refl [simp]: "untouched P w w"
  by (auto simp: untouched_def)

lemma untouched_sched [simp]:
  "untouched P w0 (w\<lparr>sched := rs\<rparr>) \<longleftrightarrow> untouched P w0 w"
  "untouched P (w0\<lparr>sched := rs\<rparr>) w \<longleftrightarrow> untouched P w0 w"
  by (simp_all add: untouched_def)

lemma untouched_mono: "untouched P w0 w \<Longrightarrow> P \<subseteq> Q \<Longrightarrow> untouched Q w0 w"
  unfolding untouched_def by blast

lemma untouched_trans:
  assumes "untouched P w0 w1" and "untouched P w1 w2"
  shows "untouched P w0 w2"
  unfolding untouched_def
proof (intro conjI allI impI ballI)
  fix q assume "q \<notin> P"
  with assms show "curDir w2 q = curDir w0 q" by (simp add: untouched_def)
next
  fix d assume "d \<in> set (dirHist w2)"
  with assms(2) obtain d1 where "d1 \<in> set (dirHist w1)" "\<forall>q. q \<notin> P \<longrightarrow> d q = d1 q"
    by (auto simp: untouched_def)
  moreover with assms(1) obtain d0 where "d0 \<in> set (dirHist w0)" "\<forall>q. q \<notin> P \<longrightarrow> d1 q = d0 q"
    by (auto simp: untouched_def)
  ultimately show "\<exists>d0 \<in> set (dirHist w0). \<forall>q. q \<notin> P \<longrightarrow> d q = d0 q" by auto
next
  fix d q j assume d: "d \<in> set (dirHist w2)" and q: "q \<notin> P" and j: "d q = Some j"
  with assms(2) obtain d1 where "d1 \<in> set (dirHist w1)" "d1 q = Some j"
    by (fastforce simp: untouched_def)
  with assms d q j show "fileData w2 j = fileData w0 j" "fileSynced w2 j = fileSynced w0 j"
    by (simp_all add: untouched_def)
qed

lemma untouched_fileAt:
  "untouched P w0 w \<Longrightarrow> wf_world w \<Longrightarrow> q \<notin> P \<Longrightarrow> fileAt w q = fileAt w0 q"
  using curDir_in_dirHist [of w] unfolding fileAt_def untouched_def
  by (cases "curDir w0 q") fastforce+

lemma contents_cong: "fileAt w q = fileAt w' q \<Longrightarrow> contents w q = contents w' q"
  by (simp add: contents_def)

lemma untouched_surviving:
  assumes "untouched P w0 w" and "q \<notin> P"
  shows "surviving w q \<subseteq> surviving w0 q"
proof
  fix x assume "x \<in> surviving w q"
  then obtain d where d: "d \<in> set (dirHist w)" and x: "leaves w (d q) x"
    by (auto simp: surviving_iff)
  obtain d0 where d0: "d0 \<in> set (dirHist w0)" "d0 q = d q"
    using assms d by (fastforce simp: untouched_def)
  have "leaves w0 (d q) x \<longleftrightarrow> leaves w (d q) x"
    by (rule leaves_cong) (use assms d in \<open>auto simp: untouched_def\<close>)
  with x d0 show "x \<in> surviving w0 q"
    unfolding surviving_iff by (intro bexI [of _ d0]) simp_all
qed


section \<open>Reasoning about runs\<close>

text \<open>\<open>runs m Q w\<close>: whatever \<open>m\<close> does from \<open>w\<close> satisfies \<open>Q\<close>, also where it throws or crashes.\<close>

definition runs :: "'a io \<Rightarrow> ('a outcome \<Rightarrow> world \<Rightarrow> bool) \<Rightarrow> world \<Rightarrow> bool" where
  "runs m Q w \<longleftrightarrow> (case m w of (r, w') \<Rightarrow> Q r w')"

lemma runsD: "runs m Q w \<Longrightarrow> m w = (r, w') \<Longrightarrow> Q r w'"
  by (simp add: runs_def)

lemma runsI: "(\<And>r w'. m w = (r, w') \<Longrightarrow> Q r w') \<Longrightarrow> runs m Q w"
  by (simp add: runs_def split: prod.splits)

lemma runs_mono: "runs m P w \<Longrightarrow> (\<And>r w'. P r w' \<Longrightarrow> Q r w') \<Longrightarrow> runs m Q w"
  by (auto simp: runs_def split: prod.splits)

lemma runs_done [simp]: "runs (doneW x) Q w \<longleftrightarrow> Q (Done x) w"
  by (simp add: runs_def doneW_def)

lemma runs_throw [simp]: "runs (throwW e) Q w \<longleftrightarrow> Q (Throw e) w"
  by (simp add: runs_def throwW_def)

lemma runs_bind:
  "runs (bindW m f) Q w \<longleftrightarrow>
   runs m (\<lambda>r w'. case r of Done x \<Rightarrow> runs (f x) Q w' | Throw e \<Rightarrow> Q (Throw e) w'
                     | Crash \<Rightarrow> Q Crash w') w"
  by (auto simp: runs_def bindW_def split: prod.splits outcome.splits)

lemma runs_catch:
  "runs (catchW m h) Q w \<longleftrightarrow>
   runs m (\<lambda>r w'. case r of Throw e \<Rightarrow> runs (h e) Q w' | _ \<Rightarrow> Q r w') w"
  by (auto simp: runs_def catchW_def split: prod.splits outcome.splits)

lemma runs_syscall:
  "runs (syscall good bad) Q w \<longleftrightarrow>
   (case sched w of [] \<Rightarrow> Q Crash w
    | Ok n # rs \<Rightarrow> runs (good n) Q (w\<lparr>sched := rs\<rparr>)
    | Err e # rs \<Rightarrow> runs (bad e) Q (w\<lparr>sched := rs\<rparr>))"
  by (auto simp: runs_def syscall_def split: list.splits sysres.splits)

text \<open>A postcondition that does not look at the schedule is proved for every outcome of the call.\<close>

lemma runs_syscallI:
  assumes "Q Crash w" and "\<And>n rs. runs (good n) Q (w\<lparr>sched := rs\<rparr>)"
    and "\<And>e rs. runs (bad e) Q (w\<lparr>sched := rs\<rparr>)"
  shows "runs (syscall good bad) Q w"
  using assms by (auto simp: runs_syscall split: list.splits sysres.splits)

end
