(* ===== verification/Persistence.thy ===== *)
theory Persistence
  imports World
begin

text \<open>
  \<^verbatim>\<open>src/src/Persistence.cpp\<close>: durable append and atomic replacement of a file. The theorems say
  what a reader, and a process restarted after a power loss, can find in the file, for every
  outcome of every system call and for a crash between any two of them.
\<close>

section \<open>The code\<close>

definition ensureParentDirectory :: "path \<Rightarrow> unit io" where
  "ensureParentDirectory p =
     (if CHR ''/'' \<in> set p
      then syscall (\<lambda>_. doneW ()) (\<lambda>e. throwW (SystemError e ''cannot create directories''))
      else doneW ())"

text \<open>\<^verbatim>\<open>open\<close> with \<^verbatim>\<open>O_WRONLY | O_CREAT\<close>, and \<^verbatim>\<open>O_TRUNC\<close> or \<^verbatim>\<open>O_APPEND\<close>; the caller's error text.\<close>

definition openForWriting :: "bool \<Rightarrow> path \<Rightarrow> string \<Rightarrow> inode io" where
  "openForWriting trunc p msg =
     syscall (\<lambda>_ w. (case createOpen trunc p w of (i, w') \<Rightarrow> (Done i, w')))
       (\<lambda>e. throwW (SystemError e msg))"

text \<open>
  The loop of \<^verbatim>\<open>writeAll\<close>, one schedule entry per \<^verbatim>\<open>write\<close>: a positive result advances
  \<^verbatim>\<open>writtenBytes\<close> (a \<^verbatim>\<open>write\<close> takes at most what it was given), \<^verbatim>\<open>EINTR\<close> retries, a result of zero
  is \<^verbatim>\<open>EIO\<close>, any other error is thrown.
\<close>

fun writeLoop :: "sysres list \<Rightarrow> inode \<Rightarrow> ByteBuffer \<Rightarrow> nat \<Rightarrow> unit io" where
  "writeLoop [] fd bs written w =
     (if written < length bs then (Crash, w\<lparr>sched := []\<rparr>) else (Done (), w\<lparr>sched := []\<rparr>))"
| "writeLoop (r # rs) fd bs written w =
     (if written < length bs then
        (case r of
           Ok n \<Rightarrow>
             (if n > 0
              then let k = min n (length bs - written)
                   in writeLoop rs fd bs (written + k)
                        (appendData fd (take k (drop written bs)) w)
              else (Throw (SystemError EIO ''cannot write persistent file''), w\<lparr>sched := rs\<rparr>))
         | Err e \<Rightarrow>
             (if e = EINTR then writeLoop rs fd bs written w
              else (Throw (SystemError e ''cannot write persistent file''), w\<lparr>sched := rs\<rparr>)))
      else (Done (), w\<lparr>sched := r # rs\<rparr>))"

definition writeAll :: "inode \<Rightarrow> ByteBuffer \<Rightarrow> unit io" where
  "writeAll fd bs w = writeLoop (sched w) fd bs 0 w"

definition syncAndClose :: "descriptor \<Rightarrow> unit io" where
  "syncAndClose fd =
     syscall
       (\<lambda>_ w. syscall (\<lambda>_. doneW ())
                (\<lambda>e. throwW (SystemError e ''cannot close persistent file'')) (fsyncEffect fd w))
       (\<lambda>e. throwW (SystemError e ''cannot sync persistent file''))"

definition syncParentDirectory :: "path \<Rightarrow> unit io" where
  "syncParentDirectory p =
     syscall (\<lambda>_. syncAndClose DirectoryFd)
       (\<lambda>e. throwW (SystemError e ''cannot open parent directory''))"

text \<open>\<^verbatim>\<open>std::filesystem::remove\<close> with an ignored error code, and \<^verbatim>\<open>std::filesystem::rename\<close>.\<close>

definition removeIgnoringErrors :: "path \<Rightarrow> unit io" where
  "removeIgnoringErrors p = syscall (\<lambda>_ w. doneW () (removeEffect p w)) (\<lambda>_. doneW ())"

definition renameFile :: "path \<Rightarrow> path \<Rightarrow> unit io" where
  "renameFile a b =
     syscall (\<lambda>_ w. doneW () (renameEffect a b w)) (\<lambda>e. throwW (SystemError e ''cannot rename''))"

definition readFile :: "path \<Rightarrow> ByteBuffer io" where
  "readFile p w =
     (if curDir w p = None then (Done [], w)
      else syscall
        (\<lambda>_. syscall
          (\<lambda>_ w. (let bs = contents w p in
             if bs = [] then (Done bs, w)
             else syscall (\<lambda>_. doneW bs)
                    (\<lambda>_. throwW (RuntimeError (''cannot read persistent file: '' @ p))) w))
          (\<lambda>_. throwW (RuntimeError (''cannot determine file size: '' @ p))))
        (\<lambda>_. throwW (RuntimeError (''cannot open persistent file: '' @ p))) w)"

definition appendDurably :: "path \<Rightarrow> ByteBuffer \<Rightarrow> unit io" where
  "appendDurably p bs =
     bindW (ensureParentDirectory p) (\<lambda>_.
     bindW (openForWriting False p ''cannot open append file'') (\<lambda>fd.
     bindW (catchW (writeAll fd bs) throwW) (\<lambda>_.
     bindW (syncAndClose (FileFd fd)) (\<lambda>_.
       syncParentDirectory p))))"

definition temporaryOf :: "path \<Rightarrow> path" where
  "temporaryOf p = p @ ''.tmp''"

text \<open>The \<^verbatim>\<open>catch (...)\<close> blocks of \<open>writeAtomically\<close>.\<close>

definition discardTemporary :: "path \<Rightarrow> exn \<Rightarrow> unit io" where
  "discardTemporary p e = bindW (removeIgnoringErrors (temporaryOf p)) (\<lambda>_. throwW e)"

definition writeAtomically :: "path \<Rightarrow> ByteBuffer \<Rightarrow> unit io" where
  "writeAtomically p bs =
     bindW (ensureParentDirectory p) (\<lambda>_.
     (let temporary = temporaryOf p in
     bindW (openForWriting True temporary ''cannot open temporary file'') (\<lambda>fd.
     bindW (catchW (writeAll fd bs)
              (discardTemporary p)) (\<lambda>_.
       catchW
         (bindW (syncAndClose (FileFd fd)) (\<lambda>_.
          bindW (renameFile temporary p) (\<lambda>_.
            syncParentDirectory p)))
         (discardTemporary p)))))"


section \<open>The write loop\<close>

lemma appendData_appendData [simp]:
  "appendData i ys (appendData i xs w) = appendData i (xs @ ys) w"
  by (simp add: appendData_def)

lemma appendData_Nil [simp]: "appendData i [] w = w"
  by (simp add: appendData_def)

lemma appendData_sched: "appendData i xs (w\<lparr>sched := rs\<rparr>) = (appendData i xs w)\<lparr>sched := rs\<rparr>"
  by (simp add: appendData_def)

lemma appendData_sel [simp]:
  "curDir (appendData i bs w) = curDir w" "dirHist (appendData i bs w) = dirHist w"
  "fileSynced (appendData i bs w) = fileSynced w"
  "fileData (appendData i bs w) = (fileData w)(i := fileData w i @ bs)"
  by (simp_all add: appendData_def)

lemma writeLoop_result:
  assumes "writeLoop rs fd bs n w = (r, w')" and "n \<le> length bs"
  shows "\<exists>k rs'. n + k \<le> length bs \<and> w' = (appendData fd (take k (drop n bs)) w)\<lparr>sched := rs'\<rparr>
           \<and> (r = Done () \<longrightarrow> n + k = length bs)"
  using assms
proof (induction rs arbitrary: n w)
  case Nil
  then show ?case
    by (intro exI [of _ 0]) (auto split: if_splits)
next
  case (Cons x rs)
  show ?case
  proof (cases "n < length bs")
    case False
    with Cons.prems show ?thesis by (intro exI [of _ 0]) auto
  next
    case less: True
    show ?thesis
    proof (cases x)
      case (Err e)
      show ?thesis
      proof (cases "e = EINTR")
        case True
        with Err Cons less show ?thesis by simp
      next
        case False
        with Err less Cons.prems show ?thesis
          by (intro exI [of _ 0] exI [of _ rs]) auto
      qed
    next
      case (Ok m)
      show ?thesis
      proof (cases "m > 0")
        case False
        with Ok less Cons.prems show ?thesis by (intro exI [of _ 0]) auto
      next
        case True
        define k where "k = min m (length bs - n)"
        have "writeLoop rs fd bs (n + k) (appendData fd (take k (drop n bs)) w) = (r, w')"
          using Cons.prems Ok True less by (simp add: k_def Let_def)
        moreover have "n + k \<le> length bs" using less by (simp add: k_def)
        ultimately obtain j rs' where j: "n + k + j \<le> length bs"
          "w' = (appendData fd (take j (drop (n + k) bs)) (appendData fd (take k (drop n bs)) w))\<lparr>sched := rs'\<rparr>"
          "r = Done () \<longrightarrow> n + k + j = length bs"
          using Cons.IH by blast
        have "take (k + j) (drop n bs) = take k (drop n bs) @ take j (drop (n + k) bs)"
          using take_add [of k j "drop n bs"] by (simp add: add.commute [of n k])
        with j show ?thesis
          by (intro exI [of _ "k + j"] exI [of _ rs']) (simp add: add.assoc)
      qed
    qed
  qed
qed

lemma runs_writeAll:
  assumes "\<And>r k rs'. k \<le> length bs \<Longrightarrow> r = Done () \<longrightarrow> k = length bs \<Longrightarrow>
             Q r ((appendData fd (take k bs) w)\<lparr>sched := rs'\<rparr>)"
  shows "runs (writeAll fd bs) Q w"
proof (rule runsI)
  fix r w' assume "writeAll fd bs w = (r, w')"
  then have "writeLoop (sched w) fd bs 0 w = (r, w')" by (simp add: writeAll_def)
  from writeLoop_result [OF this] show "Q r w'" using assms by force
qed


section \<open>Ownership of a file\<close>

text \<open>
  A file and its temporary file belong together: no inode found under one of the two names is
  found under any other name, the inode under the temporary name (a left-over of an earlier
  crash) is not the target's, neither now nor in a state a power loss may leave, and no such
  state has the two names on the same inode.
\<close>

abbreviation ownNames :: "path \<Rightarrow> path set" where
  "ownNames p \<equiv> {p, temporaryOf p}"

definition inodesOf :: "path set \<Rightarrow> world \<Rightarrow> inode set" where
  "inodesOf P w = {i. \<exists>d \<in> set (dirHist w). \<exists>q \<in> P. d q = Some i}"

definition owns_file :: "path \<Rightarrow> world \<Rightarrow> bool" where
  "owns_file p w \<longleftrightarrow> wf_world w
     \<and> inodesOf (ownNames p) w \<inter> inodesOf (- ownNames p) w = {}
     \<and> (\<forall>i. curDir w (temporaryOf p) = Some i \<longrightarrow> i \<notin> inodesOf {p} w)
     \<and> (\<forall>d \<in> set (dirHist w). \<forall>i. d (temporaryOf p) = Some i \<longrightarrow> d p \<noteq> Some i)"

lemma inodesOf_iff: "i \<in> inodesOf P w \<longleftrightarrow> (\<exists>d \<in> set (dirHist w). \<exists>q \<in> P. d q = Some i)"
  by (simp add: inodesOf_def)

lemma inodesOf_mono: "P \<subseteq> Q \<Longrightarrow> inodesOf P w \<subseteq> inodesOf Q w"
  unfolding inodesOf_def by blast

lemma inodesOf_Un: "inodesOf (P \<union> Q) w = inodesOf P w \<union> inodesOf Q w"
  unfolding inodesOf_def by blast

lemma inodesOf_cur: "wf_world w \<Longrightarrow> curDir w q = Some i \<Longrightarrow> q \<in> P \<Longrightarrow> i \<in> inodesOf P w"
  using curDir_in_dirHist [of w] by (auto simp: inodesOf_iff)

lemma inodesOf_less: "wf_world w \<Longrightarrow> i \<in> inodesOf P w \<Longrightarrow> i < nextInode w"
  by (auto simp: inodesOf_iff wf_world_def)

lemma inodesOf_cong [simp]:
  "inodesOf P (w\<lparr>sched := rs\<rparr>) = inodesOf P w"
  "inodesOf P (w\<lparr>fileData := f\<rparr>) = inodesOf P w"
  "inodesOf P (w\<lparr>fileSynced := f\<rparr>) = inodesOf P w"
  "inodesOf P (w\<lparr>nextInode := n\<rparr>) = inodesOf P w"
  by (simp_all add: inodesOf_def)

lemma inodesOf_setDir: "inodesOf P (setDir d w) = inodesOf P w \<union> {i. \<exists>q \<in> P. d q = Some i}"
  by (auto simp: inodesOf_iff setDir_def)

lemma surviving_setDir: "surviving (setDir d w) p = surviving w p \<union> {x. leaves w (d p) x}"
proof -
  have "leaves (setDir d w) n x \<longleftrightarrow> leaves w n x" for n x
    by (rule leaves_cong) (simp add: setDir_def)
  then show ?thesis by (auto simp: surviving_iff) (auto simp: setDir_def)
qed

text \<open>
  A directory change keeps the ownership when the names it gives to inodes stay on their side.
\<close>

lemma owns_file_setDir:
  assumes "owns_file p w"
    and "{i. \<exists>q \<in> ownNames p. d q = Some i} \<subseteq> inodesOf (ownNames p) w"
    and "{i. \<exists>q \<in> - ownNames p. d q = Some i} \<subseteq> inodesOf (- ownNames p) w"
    and "\<And>i. d (temporaryOf p) = Some i \<Longrightarrow> i \<notin> inodesOf {p} w \<and> d p \<noteq> Some i"
  shows "owns_file p (setDir d w)"
proof -
  have wf: "wf_world w" using assms(1) by (simp add: owns_file_def)
  have "i < nextInode w" if "d q = Some i" for q i
    using assms(2,3) that inodesOf_less [OF wf]
    by (cases "q \<in> ownNames p") blast+
  then have "wf_world (setDir d w)"
    using wf by (auto simp: wf_world_def setDir_def)
  moreover have "inodesOf (ownNames p) (setDir d w) \<inter> inodesOf (- ownNames p) (setDir d w) = {}"
    using assms(1-3) unfolding inodesOf_setDir owns_file_def by blast
  moreover have "i \<notin> inodesOf {p} (setDir d w)" if "d (temporaryOf p) = Some i" for i
    using assms(4) [OF that] by (simp add: inodesOf_setDir)
  ultimately show ?thesis
    using assms(1,4) by (simp add: owns_file_def setDir_def ball_Un)
qed

lemma temporaryOf_neq [simp]: "temporaryOf p \<noteq> p" "p \<noteq> temporaryOf p"
  by (simp_all add: temporaryOf_def)

lemma owns_file_sched [simp]: "owns_file p (w\<lparr>sched := rs\<rparr>) \<longleftrightarrow> owns_file p w"
  by (simp add: owns_file_def wf_world_def)

lemma wf_world_sched [simp]: "wf_world (w\<lparr>sched := rs\<rparr>) \<longleftrightarrow> wf_world w"
  by (simp add: wf_world_def)

lemma fileAt_sched [simp]:
  "fileAt (w\<lparr>sched := rs\<rparr>) = fileAt w" "contents (w\<lparr>sched := rs\<rparr>) = contents w"
  by (simp_all add: contents_def fileAt_def fun_eq_iff)

lemma surviving_sched [simp]: "surviving (w\<lparr>sched := rs\<rparr>) = surviving w"
  by (simp add: surviving_def power_loss_def fun_eq_iff)

lemma owns_file_wf: "owns_file p w \<Longrightarrow> wf_world w"
  by (simp add: owns_file_def)

text \<open>Changing the data of an inode that only \<open>P\<close> names leaves everything else untouched.\<close>

lemma untouched_dataI:
  assumes "i \<notin> inodesOf (- P) w"
    and "curDir w' = curDir w" and "dirHist w' = dirHist w"
    and "\<And>j. j \<noteq> i \<Longrightarrow> fileData w' j = fileData w j \<and> fileSynced w' j = fileSynced w j"
  shows "untouched P w w'"
proof -
  have "j \<noteq> i" if "d \<in> set (dirHist w)" "q \<notin> P" "d q = Some j" for d q j
    using assms(1) that by (auto simp: inodesOf_iff)
  then show ?thesis
    unfolding untouched_def using assms(2-4) by auto
qed

lemma untouched_setDir:
  assumes "wf_world w" and "\<And>q. q \<notin> P \<Longrightarrow> d q = curDir w q"
  shows "untouched P w (setDir d w)"
  unfolding untouched_def
  using assms curDir_in_dirHist [OF assms(1)] by (auto simp: setDir_def)

lemma untouched_syncDir:
  assumes "wf_world w"
  shows "untouched P w (fsyncEffect DirectoryFd w)"
  unfolding untouched_def using curDir_in_dirHist [OF assms] by auto


section \<open>Atomic replacement\<close>

text \<open>
  The three situations \<open>writeAtomically\<close> goes through: the target is as it was (\<open>kept\<close>), the
  temporary file holds the bytes so far (\<open>staging\<close>), the new contents are in place
  (\<open>published\<close>).
\<close>

definition kept :: "path \<Rightarrow> world \<Rightarrow> world \<Rightarrow> bool" where
  "kept p w0 w \<longleftrightarrow> untouched {temporaryOf p} w0 w \<and> owns_file p w"

definition staging :: "path \<Rightarrow> inode \<Rightarrow> ByteBuffer \<Rightarrow> world \<Rightarrow> world \<Rightarrow> bool" where
  "staging p i bs w0 w \<longleftrightarrow> kept p w0 w \<and> curDir w (temporaryOf p) = Some i
     \<and> i \<notin> inodesOf (- {temporaryOf p}) w \<and> fileData w i = bs"

definition published :: "path \<Rightarrow> ByteBuffer \<Rightarrow> world \<Rightarrow> world \<Rightarrow> bool" where
  "published p bs w0 w \<longleftrightarrow> untouched (ownNames p) w0 w \<and> owns_file p w
     \<and> (\<exists>i. curDir w p = Some i \<and> fileData w i = bs \<and> fileSynced w i = bs)
     \<and> surviving w p \<subseteq> insert (Some bs) (surviving w0 p)
     \<and> curDir w (temporaryOf p) = None"

lemma phase_sched [simp]:
  "kept p w0 (w\<lparr>sched := rs\<rparr>) \<longleftrightarrow> kept p w0 w"
  "staging p i bs w0 (w\<lparr>sched := rs\<rparr>) \<longleftrightarrow> staging p i bs w0 w"
  "published p bs w0 (w\<lparr>sched := rs\<rparr>) \<longleftrightarrow> published p bs w0 w"
  by (simp_all add: kept_def staging_def published_def)

lemma staging_kept: "staging p i bs w0 w \<Longrightarrow> kept p w0 w"
  by (simp add: staging_def)

text \<open>Opening a missing file creates an inode that no name has had before.\<close>

lemma createOpen_new:
  assumes wf: "wf_world w" and none: "curDir w q = None" and c: "createOpen t q w = (i, w')"
  shows "i = nextInode w" and "wf_world w'" and "untouched {q} w w'"
    and "inodesOf P w' = inodesOf P w \<union> (if q \<in> P then {i} else {})"
    and "curDir w' = (curDir w)(q \<mapsto> i)" and "fileData w' i = []" and "i \<notin> inodesOf P w"
    and "dirHist w' = dirHist w @ [curDir w']"
    and "j \<noteq> i \<Longrightarrow> fileData w' j = fileData w j \<and> fileSynced w' j = fileSynced w j"
proof -
  show i: "i = nextInode w" and dir: "curDir w' = (curDir w)(q \<mapsto> i)" and "fileData w' i = []"
    and hist: "dirHist w' = dirHist w @ [curDir w']"
    using none c by (auto simp: createOpen_def setDir_def Let_def)
  have w': "w' = setDir ((curDir w)(q \<mapsto> i))
      (w\<lparr>fileData := (fileData w)(i := []), fileSynced := (fileSynced w)(i := []), nextInode := Suc i\<rparr>)"
    using none c by (auto simp: createOpen_def Let_def)
  show fresh: "i \<notin> inodesOf P w" for P
    using inodesOf_less [OF wf] by (auto simp: i)
  show inodes: "inodesOf P w' = inodesOf P w \<union> (if q \<in> P then {i} else {})" for P
    by (auto simp: w' inodesOf_setDir split: if_splits intro: inodesOf_cur [OF wf])
  have "j < nextInode w" if "curDir w q = Some j" for q j
    using that inodesOf_less [OF wf inodesOf_cur [OF wf]] by blast
  then show "wf_world w'"
    using wf by (auto simp: wf_world_def i w' setDir_def less_Suc_eq split: if_splits)
  show data: "fileData w' j = fileData w j \<and> fileSynced w' j = fileSynced w j" if "j \<noteq> i" for j
    using that by (simp add: w' setDir_def)
  have "i \<notin> inodesOf (- {q}) w'"
    using fresh by (auto simp: inodes)
  then show "untouched {q} w w'"
    unfolding untouched_def using curDir_in_dirHist [OF wf] data by (auto simp: w' setDir_def inodesOf_iff)
qed

lemma createOpen_temporary:
  assumes o: "owns_file p w" and c: "createOpen True (temporaryOf p) w = (i, w')"
  shows "staging p i [] w w'"
proof (cases "curDir w (temporaryOf p)")
  case (Some j)
  then have i: "i = j" and w': "w' = w\<lparr>fileData := (fileData w)(j := [])\<rparr>"
    using c by (auto simp: createOpen_def)
  have wf: "wf_world w" using o by (rule owns_file_wf)
  have only: "j \<notin> inodesOf (- {temporaryOf p}) w"
  proof
    assume "j \<in> inodesOf (- {temporaryOf p}) w"
    then have "j \<in> inodesOf {p} w \<or> j \<in> inodesOf (- ownNames p) w"
      by (auto simp: inodesOf_iff)
    then show False
      using o Some inodesOf_cur [OF wf Some, of "ownNames p"] by (auto simp: owns_file_def)
  qed
  then have "untouched {temporaryOf p} w w'"
    by (rule untouched_dataI) (simp_all add: w')
  then show ?thesis
    using o only Some by (simp add: staging_def kept_def i w' owns_file_def wf_world_def)
next
  case None
  note new = createOpen_new [OF owns_file_wf [OF o] None c]
  have "owns_file p w'"
    using o new(2,7) inodesOf_cur [OF owns_file_wf [OF o], of p i UNIV]
    by (auto simp: owns_file_def new(4,5,8))
  moreover have "i \<notin> inodesOf (- {temporaryOf p}) w'"
    using new(7) by (simp add: new(4))
  ultimately show ?thesis
    using new(3,5,6) by (simp add: staging_def kept_def)
qed

lemma staging_append:
  assumes "staging p i xs w0 w"
  shows "staging p i (xs @ ys) w0 (appendData i ys w)"
proof -
  have "untouched {temporaryOf p} w (appendData i ys w)"
    using assms by (intro untouched_dataI [where i = i]) (auto simp: staging_def appendData_def)
  with assms show ?thesis
    by (auto simp: staging_def kept_def owns_file_def wf_world_def appendData_def
        intro: untouched_trans)
qed

lemma staging_fsync:
  assumes "staging p i bs w0 w"
  shows "staging p i bs w0 (fsyncEffect (FileFd i) w)"
proof -
  have "untouched {temporaryOf p} w (fsyncEffect (FileFd i) w)"
    using assms by (intro untouched_dataI [where i = i]) (auto simp: staging_def)
  with assms show ?thesis
    by (auto simp: staging_def kept_def owns_file_def wf_world_def intro: untouched_trans)
qed

lemma kept_remove:
  assumes "kept p w0 w"
  shows "kept p w0 (removeEffect (temporaryOf p) w)"
proof (cases "curDir w (temporaryOf p)")
  case None
  with assms show ?thesis by (simp add: removeEffect_def)
next
  case (Some i)
  let ?d = "(curDir w)(temporaryOf p := None)"
  have o: "owns_file p w" using assms by (simp add: kept_def)
  then have wf: "wf_world w" by (rule owns_file_wf)
  have "untouched {temporaryOf p} w (setDir ?d w)"
    by (rule untouched_setDir [OF wf]) simp
  moreover have "owns_file p (setDir ?d w)"
    by (rule owns_file_setDir [OF o]) (auto intro: inodesOf_cur [OF wf] split: if_splits)
  ultimately show ?thesis
    using assms Some by (auto simp: kept_def removeEffect_def intro: untouched_trans)
qed

lemma published_remove: "published p bs w0 w \<Longrightarrow> removeEffect (temporaryOf p) w = w"
  by (simp add: published_def removeEffect_def)

lemma staging_rename:
  assumes st: "staging p i bs w0 w" and synced: "fileSynced w i = bs"
  shows "published p bs w0 (renameEffect (temporaryOf p) p w)"
proof -
  let ?d = "(curDir w)(p \<mapsto> i, temporaryOf p := None)"
  let ?w = "setDir ?d w"
  have w: "renameEffect (temporaryOf p) p w = ?w"
    using st by (simp add: renameEffect_def staging_def)
  have k: "kept p w0 w" and o: "owns_file p w" and data: "fileData w i = bs"
    and cur: "curDir w (temporaryOf p) = Some i"
    using st by (auto simp: staging_def kept_def)
  have wf: "wf_world w" using o by (rule owns_file_wf)
  have "untouched (ownNames p) w ?w"
    by (rule untouched_setDir [OF wf]) simp
  moreover have "untouched (ownNames p) w0 w"
    using k by (auto simp: kept_def intro: untouched_mono)
  ultimately have u: "untouched (ownNames p) w0 ?w" by (blast intro: untouched_trans)
  have "owns_file p ?w"
    by (rule owns_file_setDir [OF o])
      (auto intro: inodesOf_cur [OF wf] inodesOf_cur [OF wf cur] split: if_splits)
  moreover have "surviving ?w p \<subseteq> insert (Some bs) (surviving w p)"
    using synced data by (auto simp: surviving_setDir)
  moreover have "surviving w p \<subseteq> surviving w0 p"
    using k by (intro untouched_surviving) (auto simp: kept_def)
  ultimately show ?thesis
    unfolding w using u data synced by (auto simp: published_def setDir_def)
qed

lemma fileAt_syncDir [simp]:
  "fileAt (fsyncEffect DirectoryFd w) = fileAt w" "contents (fsyncEffect DirectoryFd w) = contents w"
  by (simp_all add: contents_def fileAt_def fun_eq_iff)

lemma owns_file_syncDir: "owns_file p w \<Longrightarrow> owns_file p (fsyncEffect DirectoryFd w)"
  using curDir_in_dirHist [of w] unfolding owns_file_def wf_world_def inodesOf_def
  by (auto; blast)

lemma published_syncDir:
  assumes "published p bs w0 w"
  shows "published p bs w0 (fsyncEffect DirectoryFd w)"
proof -
  have o: "owns_file p w" using assms by (simp add: published_def)
  let ?w = "fsyncEffect DirectoryFd w"
  have u: "untouched {} w ?w" by (rule untouched_syncDir [OF owns_file_wf [OF o]])
  have "surviving ?w p \<subseteq> surviving w p"
    by (rule untouched_surviving [OF u]) simp
  moreover have "untouched (ownNames p) w0 ?w"
    using assms u by (auto simp: published_def intro: untouched_trans untouched_mono)
  ultimately show ?thesis
    using assms owns_file_syncDir [OF o] unfolding published_def by simp blast
qed


text \<open>Where \<open>writeAtomically\<close> may stop, with which outcome.\<close>

definition replaced :: "path \<Rightarrow> ByteBuffer \<Rightarrow> world \<Rightarrow> unit outcome \<Rightarrow> world \<Rightarrow> bool" where
  "replaced p bs w0 r w \<longleftrightarrow>
     (r \<noteq> Done () \<and> kept p w0 w) \<or>
     (published p bs w0 w \<and> (r = Done () \<longrightarrow> surviving w p = {Some bs}))"

lemma replaced_sched [simp]:
  "replaced p bs w0 r (w\<lparr>sched := rs\<rparr>) \<longleftrightarrow> replaced p bs w0 r w"
  by (simp add: replaced_def)

lemma surviving_syncDir:
  assumes "published p bs w0 w"
  shows "surviving (fsyncEffect DirectoryFd w) p = {Some bs}"
proof -
  obtain i where "curDir w p = Some i" "fileData w i = bs" "fileSynced w i = bs"
    using assms by (auto simp: published_def)
  then show ?thesis by (auto simp: surviving_iff)
qed

lemma published_fileAt: "published p bs w0 w \<Longrightarrow> fileAt w p = Some bs"
  by (auto simp: published_def fileAt_def)

text \<open>A postcondition that does not look at the schedule, and the calls under it.\<close>

definition sched_blind :: "('a outcome \<Rightarrow> world \<Rightarrow> bool) \<Rightarrow> bool" where
  "sched_blind Q \<longleftrightarrow> (\<forall>r w rs. Q r (w\<lparr>sched := rs\<rparr>) = Q r w)"

lemma fsyncEffect_sched: "fsyncEffect fd (w\<lparr>sched := rs\<rparr>) = (fsyncEffect fd w)\<lparr>sched := rs\<rparr>"
  by (cases fd) simp_all

lemma renameEffect_sched: "renameEffect a b (w\<lparr>sched := rs\<rparr>) = (renameEffect a b w)\<lparr>sched := rs\<rparr>"
  by (auto simp: renameEffect_def setDir_def split: option.split)

lemma removeEffect_sched: "removeEffect p (w\<lparr>sched := rs\<rparr>) = (removeEffect p w)\<lparr>sched := rs\<rparr>"
  by (simp add: removeEffect_def setDir_def)

lemma createOpen_sched:
  "createOpen t p (w\<lparr>sched := rs\<rparr>) = (fst (createOpen t p w), (snd (createOpen t p w))\<lparr>sched := rs\<rparr>)"
  by (auto simp: createOpen_def setDir_def Let_def split: option.split)

lemmas effect_sched = fsyncEffect_sched renameEffect_sched removeEffect_sched createOpen_sched

lemma runs_ensureParentDirectory:
  assumes "sched_blind Q" and "\<And>r. Q r w"
  shows "runs (ensureParentDirectory p) Q w"
  using assms unfolding ensureParentDirectory_def
  by (auto simp: sched_blind_def intro!: runs_syscallI)

lemma runs_openForWriting:
  assumes "sched_blind Q" and "Q Crash w" and "\<And>e. Q (Throw e) w"
    and "\<And>i w'. createOpen t p w = (i, w') \<Longrightarrow> Q (Done i) w'"
  shows "runs (openForWriting t p msg) Q w"
proof -
  have "Q (Done (fst (createOpen t p w))) (snd (createOpen t p w))"
    using assms(4) by (simp add: prod_eq_iff)
  with assms(1-3) show ?thesis
    unfolding openForWriting_def
    by (intro runs_syscallI) (auto simp: runs_def throwW_def sched_blind_def createOpen_sched)
qed

lemma runs_syncAndClose:
  assumes "sched_blind Q" and "Q Crash w" and "\<And>e. Q (Throw e) w" and "\<And>r. Q r (fsyncEffect fd w)"
  shows "runs (syncAndClose fd) Q w"
  using assms unfolding syncAndClose_def
  by (auto simp: sched_blind_def runs_syscall fsyncEffect_sched runs_def doneW_def throwW_def syscall_def
      split: list.splits sysres.splits)

lemma runs_renameFile:
  assumes "sched_blind Q" and "Q Crash w" and "\<And>e. Q (Throw e) w"
    and "Q (Done ()) (renameEffect a b w)"
  shows "runs (renameFile a b) Q w"
  using assms unfolding renameFile_def
  by (intro runs_syscallI)
    (auto simp: sched_blind_def renameEffect_sched runs_def doneW_def throwW_def)

lemma runs_removeIgnoringErrors:
  assumes "sched_blind Q" and "Q Crash w" and "Q (Done ()) w" and "Q (Done ()) (removeEffect p w)"
  shows "runs (removeIgnoringErrors p) Q w"
  using assms unfolding removeIgnoringErrors_def
  by (intro runs_syscallI) (auto simp: sched_blind_def removeEffect_sched runs_def doneW_def)

lemma runs_syncParentDirectory:
  assumes "sched_blind Q" and "Q Crash w" and "\<And>e. Q (Throw e) w"
    and "\<And>r. Q r (fsyncEffect DirectoryFd w)"
  shows "runs (syncParentDirectory p) Q w"
  unfolding syncParentDirectory_def
proof (rule runs_syscallI)
  show "runs (syncAndClose DirectoryFd) Q (w\<lparr>sched := rs\<rparr>)" for rs
    using assms by (intro runs_syncAndClose)
      (auto simp: sched_blind_def fsyncEffect_sched simp del: fsyncEffect.simps)
qed (use assms in \<open>simp_all add: sched_blind_def\<close>)

lemma runs_writeAll_blind:
  assumes "sched_blind Q"
    and "\<And>r k. k \<le> length bs \<Longrightarrow> r = Done () \<longrightarrow> k = length bs \<Longrightarrow> Q r (appendData fd (take k bs) w)"
  shows "runs (writeAll fd bs) Q w"
  using assms by (intro runs_writeAll) (auto simp: sched_blind_def)

text \<open>Sequencing and handlers, through an intermediate postcondition.\<close>

lemma runs_seq:
  assumes "runs m P w" and "\<And>x w'. P (Done x) w' \<Longrightarrow> runs (f x) Q w'"
    and "\<And>e w'. P (Throw e) w' \<Longrightarrow> Q (Throw e) w'" and "\<And>w'. P Crash w' \<Longrightarrow> Q Crash w'"
  shows "runs (bindW m f) Q w"
  unfolding runs_bind using assms by (auto intro: runs_mono split: outcome.split)

lemma runs_try:
  assumes "runs m P w" and "\<And>e w'. P (Throw e) w' \<Longrightarrow> runs (h e) Q w'"
    and "\<And>x w'. P (Done x) w' \<Longrightarrow> Q (Done x) w'" and "\<And>w'. P Crash w' \<Longrightarrow> Q Crash w'"
  shows "runs (catchW m h) Q w"
  unfolding runs_catch using assms by (auto intro: runs_mono split: outcome.split)

text \<open>
  The cleanup of \<open>writeAtomically\<close>: whatever happens to the \<^verbatim>\<open>remove\<close>, the exception goes on and the
  target is as before.
\<close>

lemma replaced_remove:
  "replaced p bs w0 (Throw e) w \<Longrightarrow> replaced p bs w0 (Throw e') (removeEffect (temporaryOf p) w)"
  by (auto simp: replaced_def kept_remove published_remove)

lemma runs_cleanup:
  assumes "replaced p bs w0 (Throw e) w"
  shows "runs (discardTemporary p e) (replaced p bs w0) w"
  unfolding discardTemporary_def
proof (rule runs_seq)
  let ?P = "\<lambda>r w. replaced p bs w0 (Throw e) w"
  show "runs (removeIgnoringErrors (temporaryOf p)) ?P w"
    using assms replaced_remove [OF assms]
    by (intro runs_removeIgnoringErrors) (auto simp: sched_blind_def)
qed (auto simp: replaced_def)

lemma runs_publish:
  assumes st: "staging p i bs w0 w"
  shows "runs (catchW (bindW (syncAndClose (FileFd i)) (\<lambda>_. bindW (renameFile (temporaryOf p) p)
             (\<lambda>_. syncParentDirectory p)))
           (discardTemporary p)) (replaced p bs w0) w"
proof (rule runs_try)
  let ?Sync = "\<lambda>(r::unit outcome) w. staging p i bs w0 w \<and> (r = Done () \<longrightarrow> fileSynced w i = bs)"
  let ?Ren = "\<lambda>(r::unit outcome) w. if r = Done () then published p bs w0 w else kept p w0 w"
  show "runs (bindW (syncAndClose (FileFd i)) (\<lambda>_. bindW (renameFile (temporaryOf p) p)
             (\<lambda>_. syncParentDirectory p))) (replaced p bs w0) w"
  proof (rule runs_seq)
    show "runs (syncAndClose (FileFd i)) ?Sync w"
      using st staging_fsync [OF st]
      by (intro runs_syncAndClose) (auto simp: sched_blind_def, auto simp: staging_def)
  next
    fix u w' assume w': "?Sync (Done u) w'"
    show "runs (bindW (renameFile (temporaryOf p) p) (\<lambda>_. syncParentDirectory p))
            (replaced p bs w0) w'"
    proof (rule runs_seq)
      show "runs (renameFile (temporaryOf p) p) ?Ren w'"
        using w' staging_rename [of p i bs w0 w']
        by (intro runs_renameFile) (auto simp: sched_blind_def staging_kept)
    next
      fix v w'' assume "?Ren (Done v) w''"
      then have "published p bs w0 w''" by simp
      then show "runs (syncParentDirectory p) (replaced p bs w0) w''"
        using published_syncDir surviving_syncDir
        by (intro runs_syncParentDirectory)
          (auto simp: sched_blind_def replaced_def simp del: fsyncEffect.simps)
    qed (auto simp: replaced_def)
  qed (auto simp: replaced_def dest: staging_kept)
qed (auto simp: replaced_def intro: runs_cleanup)

theorem runs_writeAtomically:
  assumes o: "owns_file p w"
  shows "runs (writeAtomically p bs) (replaced p bs w) w"
  unfolding writeAtomically_def Let_def
proof (rule runs_seq)
  let ?Keep = "\<lambda>(r::unit outcome) w'. kept p w w'"
  let ?Open = "\<lambda>(r::inode outcome) w'. case r of Done i \<Rightarrow> staging p i [] w w' | _ \<Rightarrow> kept p w w'"
  show "runs (ensureParentDirectory p) ?Keep w"
    using o by (intro runs_ensureParentDirectory) (auto simp: sched_blind_def kept_def)
  fix u w1 assume k1: "kept p w w1"
  then have o1: "owns_file p w1" by (simp add: kept_def)
  have st1: "staging p i [] w w2" if "createOpen True (temporaryOf p) w1 = (i, w2)" for i w2
    using createOpen_temporary [OF o1 that] k1
    by (auto simp: staging_def kept_def intro: untouched_trans)
  show "runs (bindW (openForWriting True (temporaryOf p) ''cannot open temporary file'') (\<lambda>fd.
     bindW (catchW (writeAll fd bs)
              (discardTemporary p)) (\<lambda>_.
       catchW
         (bindW (syncAndClose (FileFd fd)) (\<lambda>_.
          bindW (renameFile (temporaryOf p) p) (\<lambda>_.
            syncParentDirectory p)))
         (discardTemporary p))))
       (replaced p bs w) w1"
  proof (rule runs_seq)
    show "runs (openForWriting True (temporaryOf p) ''cannot open temporary file'') ?Open w1"
      using k1 st1 by (intro runs_openForWriting) (auto simp: sched_blind_def split: outcome.split)
  next
    fix i w2 assume "?Open (Done i) w2"
    then have st: "staging p i [] w w2" by simp
    let ?Write = "\<lambda>(r::unit outcome) w'. if r = Done () then staging p i bs w w' else kept p w w'"
    show "runs (bindW (catchW (writeAll i bs)
              (discardTemporary p)) (\<lambda>_.
       catchW
         (bindW (syncAndClose (FileFd i)) (\<lambda>_.
          bindW (renameFile (temporaryOf p) p) (\<lambda>_.
            syncParentDirectory p)))
         (discardTemporary p)))
       (replaced p bs w) w2"
    proof (rule runs_seq)
      show "runs (catchW (writeAll i bs)
              (discardTemporary p)) 
              (\<lambda>r w'. if r = Done () then staging p i bs w w' else replaced p bs w r w') w2"
      proof (rule runs_try)
        show "runs (writeAll i bs) ?Write w2"
          using staging_append [OF st] by (intro runs_writeAll_blind)
            (auto simp: sched_blind_def dest: staging_kept)
      next
        fix e w' assume "?Write (Throw e) w'"
        then have "replaced p bs w (Throw e) w'" by (simp add: replaced_def)
        then have "runs (discardTemporary p e)
            (\<lambda>r w'. r \<noteq> Done () \<and> replaced p bs w r w') w'"
          using runs_cleanup [of p bs w e w']
          by (auto simp: discardTemporary_def runs_def bindW_def throwW_def split: prod.splits outcome.splits)
        then show "runs (discardTemporary p e)
            (\<lambda>r w'. if r = Done () then staging p i bs w w' else replaced p bs w r w') w'"
          by (rule runs_mono) auto
      qed (auto simp: replaced_def)
    qed (auto intro: runs_publish)
  qed (auto simp: replaced_def)
qed (auto simp: replaced_def)


section \<open>Durable append\<close>

text \<open>
  What an append of \<open>bs\<close> may leave: a reader sees the old contents and a part of \<open>bs\<close>, a power loss
  leaves something it could already have left before, or the old contents and a part of \<open>bs\<close>.
\<close>

definition appending :: "path \<Rightarrow> ByteBuffer \<Rightarrow> inode \<Rightarrow> nat \<Rightarrow> world \<Rightarrow> world \<Rightarrow> bool" where
  "appending p bs i k w0 w \<longleftrightarrow> untouched (ownNames p) w0 w \<and> owns_file p w \<and> k \<le> length bs
     \<and> curDir w p = Some i \<and> fileData w i = contents w0 p @ take k bs
     \<and> surviving w p \<subseteq> surviving w0 p \<union> {Some (contents w0 p @ take j bs) | j. True}"

definition appended :: "path \<Rightarrow> ByteBuffer \<Rightarrow> world \<Rightarrow> unit outcome \<Rightarrow> world \<Rightarrow> bool" where
  "appended p bs w0 r w \<longleftrightarrow> untouched (ownNames p) w0 w \<and> owns_file p w
     \<and> (r \<noteq> Done () \<and> fileAt w p = fileAt w0 p
         \<or> (\<exists>k \<le> length bs. fileAt w p = Some (contents w0 p @ take k bs) \<and> (r = Done () \<longrightarrow> k = length bs)))
     \<and> surviving w p \<subseteq> surviving w0 p \<union> {Some (contents w0 p @ take j bs) | j. True}
     \<and> (r = Done () \<longrightarrow> surviving w p = {fileAt w p})"

lemma appended_sched [simp]:
  "appending p bs i k w0 (w\<lparr>sched := rs\<rparr>) \<longleftrightarrow> appending p bs i k w0 w"
  "appended p bs w0 r (w\<lparr>sched := rs\<rparr>) \<longleftrightarrow> appended p bs w0 r w"
  by (simp_all add: appending_def appended_def)

lemma appending_appended: "appending p bs i k w0 w \<Longrightarrow> r \<noteq> Done () \<Longrightarrow> appended p bs w0 r w"
  by (auto simp: appending_def appended_def fileAt_def)

lemma appended_start: "owns_file p w \<Longrightarrow> r \<noteq> Done () \<Longrightarrow> appended p bs w r w"
  by (auto simp: appended_def)

lemma appended_same:
  assumes "owns_file p w" and "w'\<lparr>sched := []\<rparr> = w\<lparr>sched := []\<rparr>" and "r \<noteq> Done ()"
  shows "appended p bs w r w'"
  using appended_start [OF assms(1,3), of bs] assms(2) appended_sched(2) by metis

lemma createOpen_append:
  assumes o: "owns_file p w" and c: "createOpen False p w = (i, w')"
  shows "appending p bs i 0 w w'"
proof (cases "curDir w p")
  case (Some j)
  with c o show ?thesis
    by (auto simp: createOpen_def appending_def contents_def fileAt_def)
next
  case None
  note new = createOpen_new [OF owns_file_wf [OF o] None c]
  have "i \<notin> inodesOf {p} w' \<or> curDir w' (temporaryOf p) \<noteq> Some i"
    using inodesOf_cur [OF owns_file_wf [OF o], of "temporaryOf p" i UNIV] new(7) by (auto simp: new(5))
  then have owned: "owns_file p w'"
    using o new(2,7) inodesOf_cur [OF owns_file_wf [OF o], of "temporaryOf p" i UNIV]
    by (auto simp: owns_file_def new(4,5,8))
  have "surviving w' p \<subseteq> surviving w p \<union> {Some (contents w p)}"
  proof
    fix x assume "x \<in> surviving w' p"
    then obtain d where d: "d \<in> set (dirHist w')" and x: "leaves w' (d p) x"
      by (auto simp: surviving_iff)
    show "x \<in> surviving w p \<union> {Some (contents w p)}"
    proof (cases "d \<in> set (dirHist w)")
      case True
      then have "j \<noteq> i" if "d p = Some j" for j
        using that new(7) [of "{p}"] by (auto simp: inodesOf_iff)
      then have "leaves w (d p) x"
        using x new(9) leaves_cong [of "d p" w' w x] by simp
      then have "x \<in> surviving w p"
        unfolding surviving_iff using True by blast
      then show ?thesis ..
    next
      case False
      then have "d p = Some i" using d by (simp add: new(5,8))
      moreover have "fileSynced w' i = []"
        using None c by (auto simp: createOpen_def setDir_def Let_def)
      ultimately show ?thesis
        using x None new(6) by (simp add: contents_def fileAt_def)
    qed
  qed
  moreover have "contents w p = contents w p @ take 0 bs" by simp
  ultimately have "surviving w' p \<subseteq> surviving w p \<union> {Some (contents w p @ take j bs) | j. True}"
    by blast
  then show ?thesis
    using owned untouched_mono [OF new(3)] None new(5,6)
    by (auto simp: appending_def contents_def fileAt_def)
qed

lemma appending_data:
  assumes a: "appending p bs i 0 w0 w" and k: "k \<le> length bs"
  shows "appending p bs i k w0 (appendData i (take k bs) w)" (is "appending _ _ _ _ _ ?w")
proof -
  have only: "i \<notin> inodesOf (- ownNames p) w" and wf: "wf_world w"
    using a inodesOf_cur [of w p i "ownNames p"] by (auto simp: appending_def owns_file_def)
  then have u: "untouched (ownNames p) w ?w"
    by (intro untouched_dataI) (auto simp: appendData_def)
  have o: "owns_file p ?w"
    using a by (auto simp: appending_def owns_file_def wf_world_def appendData_def)
  have "x \<in> surviving w p \<union> {Some (fileData w i @ take j bs) | j. True}" if x: "x \<in> surviving ?w p" for x
  proof -
    obtain d where d: "d \<in> set (dirHist w)" and dx: "leaves ?w (d p) x"
      using x by (auto simp: surviving_iff)
    show ?thesis
    proof (cases "x \<in> surviving w p")
      case False
      then have no: "\<not> leaves w (d p) x" using d by (auto simp: surviving_iff)
      then have i: "d p = Some i"
        using dx leaves_cong [of "d p" ?w w x] by (cases "d p") (auto split: if_splits)
      with dx obtain y where y: "x = Some y"
        "survives (fileSynced w i) (fileData w i @ take k bs) y" by auto
      with no i have n: "\<not> survives (fileSynced w i) (fileData w i) y" by simp
      then have "prefix (fileSynced w i) (fileData w i)" by (simp add: survives_def)
      with y(2) n have "prefix y (fileData w i @ take k bs)" "\<not> prefix y (fileData w i)"
        by (auto simp: survives_def)
      then obtain ys where ys: "y = fileData w i @ ys" "prefix ys (take k bs)"
        by (auto simp: prefix_append)
      then have "prefix ys bs" using take_is_prefix prefix_order.trans by blast
      then have "ys = take (length ys) bs" by (auto simp: prefix_def)
      with y ys show ?thesis by blast
    qed simp
  qed
  then show ?thesis
    using a u o k by (auto simp: appending_def appendData_def intro: untouched_trans)
qed

lemma fsyncEffect_sel [simp]:
  "curDir (fsyncEffect fd w) = curDir w" "fileData (fsyncEffect fd w) = fileData w"
  "dirHist (fsyncEffect (FileFd i) w) = dirHist w"
  "dirHist (fsyncEffect DirectoryFd w) = [curDir w]"
  "fileSynced (fsyncEffect (FileFd i) w) = (fileSynced w)(i := fileData w i)"
  "fileSynced (fsyncEffect DirectoryFd w) = fileSynced w"
  "nextInode (fsyncEffect fd w) = nextInode w"
  by (cases fd; simp)+

declare fsyncEffect.simps [simp del]

lemma inodesOf_fsync [simp]: "inodesOf P (fsyncEffect (FileFd i) w) = inodesOf P w"
  by (simp add: inodesOf_def)

lemma appending_fsync:
  assumes a: "appending p bs i k w0 w"
  shows "appending p bs i k w0 (fsyncEffect (FileFd i) w)" (is "appending _ _ _ _ _ ?w")
proof -
  have "i \<notin> inodesOf (- ownNames p) w" and cur: "curDir w \<in> set (dirHist w)"
    using a inodesOf_cur [of w p i "ownNames p"] curDir_in_dirHist
    by (auto simp: appending_def owns_file_def)
  then have u: "untouched (ownNames p) w ?w"
    by (intro untouched_dataI) auto
  have "surviving ?w p \<subseteq> surviving w p"
  proof
    fix x assume "x \<in> surviving ?w p"
    then obtain d where d: "d \<in> set (dirHist w)" and x: "leaves ?w (d p) x"
      by (auto simp: surviving_iff)
    have "survives (fileSynced w i) (fileData w i) (fileData w i)" by simp
    with d x show "x \<in> surviving w p"
      unfolding surviving_iff by (intro bexI [of _ d]) (auto simp: leaves_def split: option.splits if_splits)
  qed
  then show ?thesis
    using a u by (auto simp: appending_def owns_file_def wf_world_def intro: untouched_trans)
qed

lemma appending_syncDir:
  assumes a: "appending p bs i k w0 w"
  shows "appending p bs i k w0 (fsyncEffect DirectoryFd w)" (is "appending _ _ _ _ _ ?w")
proof -
  have o: "owns_file p w" using a by (simp add: appending_def)
  have u: "untouched {} w ?w" by (rule untouched_syncDir [OF owns_file_wf [OF o]])
  have "surviving ?w p \<subseteq> surviving w p"
    by (rule untouched_surviving [OF u]) simp
  moreover have "untouched (ownNames p) w0 ?w"
    using a u by (auto simp: appending_def intro: untouched_trans untouched_mono)
  ultimately show ?thesis
    using a owns_file_syncDir [OF o] unfolding appending_def by simp blast
qed

lemma appended_durable:
  assumes "appending p bs i (length bs) w0 w" and "fileSynced w i = fileData w i"
  shows "appended p bs w0 r (fsyncEffect DirectoryFd w)"
proof -
  have cur: "curDir w p = Some i" using assms by (simp add: appending_def)
  then have "surviving (fsyncEffect DirectoryFd w) p = {fileAt (fsyncEffect DirectoryFd w) p}"
    using assms(2) by (auto simp: surviving_iff fileAt_def)
  moreover have "appending p bs i (length bs) w0 (fsyncEffect DirectoryFd w)"
    using assms(1) by (rule appending_syncDir)
  ultimately show ?thesis
    using cur by (simp add: appended_def appending_def fileAt_def) (metis order_refl take_all)
qed

theorem runs_appendDurably:
  assumes o: "owns_file p w"
  shows "runs (appendDurably p bs) (appended p bs w) w"
  unfolding appendDurably_def
proof (rule runs_seq)
  note start = appended_same [OF o]
  let ?Keep = "\<lambda>(r::unit outcome) w'. w'\<lparr>sched := []\<rparr> = w\<lparr>sched := []\<rparr>"
  show "runs (ensureParentDirectory p) ?Keep w"
    by (intro runs_ensureParentDirectory) (auto simp: sched_blind_def)
  fix u w1 assume k1: "?Keep (Done u) w1"
  then have w1: "w1 = w\<lparr>sched := sched w1\<rparr>"
    by (cases w; cases w1) simp
  have st1: "appending p bs i 0 w w2" if "createOpen False p w1 = (i, w2)" for i w2
  proof -
    have "createOpen False p w = (i, snd (createOpen False p w))"
      and "w2 = (snd (createOpen False p w))\<lparr>sched := sched w1\<rparr>"
      using that createOpen_sched [of False p "sched w1" w] w1 by (auto simp: prod_eq_iff)
    with createOpen_append [OF o] show ?thesis by simp
  qed
  let ?Open = "\<lambda>r w'. case r of Done i \<Rightarrow> appending p bs i 0 w w' | _ \<Rightarrow> appended p bs w Crash w'"
  show "runs (bindW (openForWriting False p ''cannot open append file'') (\<lambda>fd.
     bindW (catchW (writeAll fd bs) throwW) (\<lambda>_.
     bindW (syncAndClose (FileFd fd)) (\<lambda>_.
       syncParentDirectory p)))) (appended p bs w) w1"
  proof (rule runs_seq)
    have "appended p bs w Crash w1" using k1 start by simp
    then show "runs (openForWriting False p ''cannot open append file'') ?Open w1"
      using st1 by (intro runs_openForWriting) (auto simp: sched_blind_def split: outcome.split)
  next
    fix i w2 assume "?Open (Done i) w2"
    then have st: "appending p bs i 0 w w2" by simp
    let ?Write = "\<lambda>r w'. \<exists>k \<le> length bs. appending p bs i k w w' \<and> (r = Done () \<longrightarrow> k = length bs)"
    show "runs (bindW (catchW (writeAll i bs) throwW) (\<lambda>_.
       bindW (syncAndClose (FileFd i)) (\<lambda>_. syncParentDirectory p))) (appended p bs w) w2"
    proof (rule runs_seq)
      have "runs (writeAll i bs) ?Write w2"
        using appending_data [OF st] by (intro runs_writeAll_blind) (auto simp: sched_blind_def)
      then show "runs (catchW (writeAll i bs) throwW) ?Write w2"
        by (rule runs_try) auto
    next
      fix v w3 assume "?Write (Done v) w3"
      then have st3: "appending p bs i (length bs) w w3" by auto
      let ?Sync = "\<lambda>r w'. appending p bs i (length bs) w w' \<and> (r = Done () \<longrightarrow> fileSynced w' i = fileData w' i)"
      show "runs (bindW (syncAndClose (FileFd i)) (\<lambda>_. syncParentDirectory p)) (appended p bs w) w3"
      proof (rule runs_seq)
        show "runs (syncAndClose (FileFd i)) ?Sync w3"
          using st3 appending_fsync [OF st3] by (intro runs_syncAndClose) (auto simp: sched_blind_def)
      next
        fix v w4 assume "?Sync (Done v) w4"
        then show "runs (syncParentDirectory p) (appended p bs w) w4"
          using appended_durable [of p bs i w w4] appending_appended [of p bs i "length bs" w w4]
          by (intro runs_syncParentDirectory) (auto simp: sched_blind_def)
      qed (auto intro: appending_appended)
    qed (auto intro: appending_appended)
  qed (auto simp: appended_def)
qed (use appended_same [OF o] in auto)


section \<open>Reading, and files that do not share names\<close>

lemma readFile_result:
  assumes "readFile p w = (r, w')"
  shows "w'\<lparr>sched := []\<rparr> = w\<lparr>sched := []\<rparr>" and "r = Done bs \<Longrightarrow> bs = contents w p"
  using assms unfolding readFile_def
  by (auto simp: syscall_def doneW_def throwW_def Let_def contents_def fileAt_def
      split: if_splits list.splits sysres.splits)

lemma owns_file_other:
  assumes "owns_file q w0" and u: "untouched (ownNames p) w0 w" and "owns_file p w"
    and disj: "ownNames q \<inter> ownNames p = {}"
  shows "owns_file q w"
proof -
  have sub: "inodesOf N w \<subseteq> inodesOf N w0" if "N \<inter> ownNames p = {}" for N
  proof
    fix i assume "i \<in> inodesOf N w"
    then obtain d n where d: "d \<in> set (dirHist w)" "n \<in> N" "d n = Some i"
      by (auto simp: inodesOf_iff)
    moreover obtain d0 where "d0 \<in> set (dirHist w0)" "\<forall>q. q \<notin> ownNames p \<longrightarrow> d q = d0 q"
      using u d(1) by (auto simp: untouched_def)
    ultimately show "i \<in> inodesOf N w0"
      using that unfolding inodesOf_iff by (intro bexI [of _ d0] bexI [of _ n]) auto
  qed
  have o: "inodesOf (ownNames q) w0 \<inter> inodesOf (- ownNames q) w0 = {}"
    "inodesOf (ownNames p) w \<inter> inodesOf (- ownNames p) w = {}"
    using assms(1,3) by (simp_all add: owns_file_def)
  have "inodesOf (ownNames q) w \<subseteq> inodesOf (ownNames q) w0"
    using disj by (rule sub)
  moreover have "inodesOf (- ownNames q - ownNames p) w \<subseteq> inodesOf (- ownNames q) w0"
    using sub [of "- ownNames q - ownNames p"] inodesOf_mono [of "- ownNames q - ownNames p" "- ownNames q" w0]
    by blast
  moreover have "inodesOf (ownNames q) w \<subseteq> inodesOf (- ownNames p) w"
    using disj by (intro inodesOf_mono) blast
  moreover have "inodesOf (- ownNames q) w
      \<subseteq> inodesOf (- ownNames q - ownNames p) w \<union> inodesOf (ownNames p) w"
    unfolding inodesOf_Un [symmetric] by (rule inodesOf_mono) blast
  ultimately have "inodesOf (ownNames q) w \<inter> inodesOf (- ownNames q) w = {}"
    using o by blast
  moreover have "curDir w (temporaryOf q) = curDir w0 (temporaryOf q)"
    using u disj by (auto simp: untouched_def)
  moreover have "d q \<noteq> Some i" if d: "d \<in> set (dirHist w)" "d (temporaryOf q) = Some i" for d i
  proof -
    obtain d0 where d0: "d0 \<in> set (dirHist w0)" "\<forall>q. q \<notin> ownNames p \<longrightarrow> d q = d0 q"
      using u d(1) by (auto simp: untouched_def)
    then have "d (temporaryOf q) = d0 (temporaryOf q)" "d q = d0 q" using disj by auto
    with assms(1) d(2) d0(1) show ?thesis by (simp add: owns_file_def)
  qed
  ultimately show ?thesis
    using assms(1,3) sub [of "{q}"] disj by (auto simp: owns_file_def)
qed

end
