(* ===== verification/Durability.thy ===== *)
theory Durability
  imports Persistence
begin

text \<open>
  What the operations of \<^verbatim>\<open>src/src/Persistence.cpp\<close> promise to their callers: they return when no
  call fails, a snapshot file always holds one of the states written to it, and the contents of
  a file after any failure or crash are one of two.
\<close>


section \<open>Completion\<close>

text \<open>
  When every call succeeds (a \<^verbatim>\<open>write\<close> may still take as little as one byte), an operation is done
  after a bounded number of calls. \<open>completes n m\<close>: \<open>m\<close> returns within \<open>n\<close> such calls.
\<close>

definition all_good :: "sysres list \<Rightarrow> bool" where
  "all_good rs \<longleftrightarrow> list_all (\<lambda>r. \<exists>n. r = Ok (Suc n)) rs"

lemma all_good_replicate [simp]: "all_good (replicate n (Ok (Suc k)))"
  by (induction n) (simp_all add: all_good_def)

definition completes :: "nat \<Rightarrow> 'a io \<Rightarrow> bool" where
  "completes n m \<longleftrightarrow> (\<forall>w. all_good (sched w) \<longrightarrow> n \<le> length (sched w) \<longrightarrow>
     (\<exists>x w'. m w = (Done x, w') \<and> all_good (sched w') \<and> length (sched w) \<le> length (sched w') + n))"

lemma completesD:
  "completes n m \<Longrightarrow> all_good (sched w) \<Longrightarrow> n \<le> length (sched w) \<Longrightarrow> \<exists>x w'. m w = (Done x, w')"
  unfolding completes_def by blast

lemma completes_done [simp]: "completes n (doneW x)"
  by (auto simp: completes_def doneW_def)

lemma completes_mono: "completes n m \<Longrightarrow> n \<le> k \<Longrightarrow> completes k m"
  unfolding completes_def by (meson add_left_mono le_trans)

lemma completes_bind:
  assumes "completes a m" and "\<And>x. completes b (f x)"
  shows "completes (a + b) (bindW m f)"
  unfolding completes_def
proof (intro allI impI)
  fix w :: world assume good: "all_good (sched w)" and len: "a + b \<le> length (sched w)"
  then obtain x w1 where 1: "m w = (Done x, w1)" "all_good (sched w1)"
    "length (sched w) \<le> length (sched w1) + a"
    using assms(1) unfolding completes_def by (meson add_leD1)
  then have "b \<le> length (sched w1)" using len by simp
  then obtain y w2 where "f x w1 = (Done y, w2)" "all_good (sched w2)"
    "length (sched w1) \<le> length (sched w2) + b"
    using assms(2) [of x] 1(2) unfolding completes_def by blast
  with 1 show "\<exists>x w'. bindW m f w = (Done x, w') \<and> all_good (sched w')
      \<and> length (sched w) \<le> length (sched w') + (a + b)"
    by (auto simp: bindW_def)
qed

lemma completes_catch: "completes n m \<Longrightarrow> completes n (catchW m h)"
  unfolding completes_def catchW_def by (fastforce split: prod.splits outcome.splits)

lemma completes_syscall:
  assumes "\<And>n w. \<exists>x w'. good n w = (Done x, w') \<and> sched w' = sched w"
  shows "completes 1 (syscall good bad)"
  unfolding completes_def
proof (intro allI impI)
  fix w :: world assume "all_good (sched w)" and "1 \<le> length (sched w)"
  then obtain n rs where rs: "sched w = Ok n # rs" "all_good rs"
    by (cases "sched w") (auto simp: all_good_def)
  then show "\<exists>x w'. syscall good bad w = (Done x, w') \<and> all_good (sched w')
      \<and> length (sched w) \<le> length (sched w') + 1"
    using assms [of n "w\<lparr>sched := rs\<rparr>"] by (auto simp: syscall_def)
qed

lemma completes_writeAll: "completes (length bs) (writeAll fd bs)"
proof -
  have "\<exists>w'. writeLoop rs fd bs k w = (Done (), w') \<and> all_good (sched w')
      \<and> length rs \<le> length (sched w') + (length bs - k)"
    if "all_good rs" "length bs - k \<le> length rs" for rs k w
    using that
  proof (induction rs arbitrary: k w)
    case Nil
    then show ?case by (simp add: all_good_def)
  next
    case (Cons r rs)
    then obtain n where r: "r = Ok (Suc n)" and rs: "all_good rs" by (auto simp: all_good_def)
    show ?case
    proof (cases "k < length bs")
      case True
      define j where "j = k + min (Suc n) (length bs - k)"
      have "k < j" using True by (simp add: j_def)
      then have "length bs - j \<le> length rs" using Cons.prems(2) True by simp
      then obtain w' where "writeLoop rs fd bs j (appendData fd (take (min (Suc n) (length bs - k)) (drop k bs)) w) = (Done (), w')"
        "all_good (sched w')" "length rs \<le> length (sched w') + (length bs - j)"
        using Cons.IH rs by blast
      with True r \<open>k < j\<close> show ?thesis by (auto simp: Let_def j_def)
    qed (use Cons.prems in simp)
  qed
  from this [where k = 0] show ?thesis by (simp add: completes_def writeAll_def)
qed

lemma completes_syncAndClose: "completes 2 (syncAndClose fd)"
  unfolding completes_def
proof (intro allI impI)
  fix w :: world assume "all_good (sched w)" and "2 \<le> length (sched w)"
  then obtain a b rs where "sched w = Ok a # Ok b # rs" "all_good rs"
    by (cases "sched w"; cases "tl (sched w)") (auto simp: all_good_def)
  then show "\<exists>x w'. syncAndClose fd w = (Done x, w') \<and> all_good (sched w')
      \<and> length (sched w) \<le> length (sched w') + 2"
    by (auto simp: syncAndClose_def syscall_def doneW_def fsyncEffect_sched)
qed

lemma completes_syncParentDirectory: "completes 3 (syncParentDirectory p)"
  unfolding completes_def
proof (intro allI impI)
  fix w :: world assume "all_good (sched w)" and "3 \<le> length (sched w)"
  then obtain a rs where rs: "sched w = Ok a # rs" "all_good rs" "2 \<le> length rs"
    by (cases "sched w") (auto simp: all_good_def)
  then show "\<exists>x w'. syncParentDirectory p w = (Done x, w') \<and> all_good (sched w')
      \<and> length (sched w) \<le> length (sched w') + 3"
    using completes_syncAndClose [of DirectoryFd, unfolded completes_def, rule_format, of "w\<lparr>sched := rs\<rparr>"]
    by (auto simp: syncParentDirectory_def syscall_def)
qed

lemma completes_open: "completes 1 (openForWriting t p msg)"
  unfolding openForWriting_def
  by (rule completes_syscall) (auto simp: createOpen_def setDir_def Let_def split: option.splits)

lemma completes_ensureParentDirectory: "completes 1 (ensureParentDirectory p)"
  unfolding ensureParentDirectory_def by (auto intro!: completes_syscall simp del: One_nat_def simp: doneW_def)

lemma completes_renameFile: "completes 1 (renameFile a b)"
  unfolding renameFile_def
  by (rule completes_syscall) (auto simp: doneW_def renameEffect_def setDir_def split: option.splits)

lemmas completes_calls = completes_ensureParentDirectory completes_open completes_writeAll
  completes_syncAndClose completes_renameFile completes_syncParentDirectory completes_catch

lemma completes_writeAtomically: "completes (1 + (1 + (length bs + (2 + (1 + 3))))) (writeAtomically p bs)"
  unfolding writeAtomically_def Let_def by (intro completes_bind completes_calls)

lemma completes_appendDurably: "completes (1 + (1 + (length bs + (2 + 3)))) (appendDurably p bs)"
  unfolding appendDurably_def by (intro completes_bind completes_calls)


lemma kept_reads:
  assumes "kept p w0 w"
  shows "fileAt w p = fileAt w0 p" and "surviving w p \<subseteq> surviving w0 p"
  using assms untouched_fileAt [of "{temporaryOf p}" w0 w p]
    untouched_surviving [of "{temporaryOf p}" w0 w p] owns_file_wf
  by (auto simp: kept_def)

lemma owns_file_power_loss:
  assumes "owns_file p w" and "power_loss w w'"
  shows "owns_file p w'"
proof -
  obtain d where d: "d \<in> set (dirHist w)" "curDir w' = d" "dirHist w' = [d]" "nextInode w' = nextInode w"
    using assms(2) by (auto simp: power_loss_def)
  then have sub: "inodesOf P w' \<subseteq> inodesOf P w" for P
    unfolding inodesOf_def by auto
  have "wf_world w'"
    using assms(1) d by (auto simp: owns_file_def wf_world_def)
  moreover have "i \<notin> inodesOf {p} w'" if "curDir w' (temporaryOf p) = Some i" for i
    using assms(1) that d by (auto simp: owns_file_def inodesOf_iff)
  ultimately show ?thesis
    using assms(1) sub [of "ownNames p"] sub [of "- ownNames p"] d by (auto simp: owns_file_def)
qed

lemma surviving_power_loss:
  assumes "power_loss w w'"
  shows "fileAt w' p \<in> surviving w p" and "surviving w' p = {fileAt w' p}"
proof -
  show "fileAt w' p \<in> surviving w p" using assms by (auto simp: surviving_def)
  have "x \<in> surviving w' p \<longleftrightarrow> leaves w' (curDir w' p) x" for x
    using assms by (auto simp: surviving_iff power_loss_def)
  moreover have "fileSynced w' = fileData w'" using assms by (simp add: power_loss_def)
  ultimately show "surviving w' p = {fileAt w' p}"
    by (cases "curDir w' p") (auto simp: fileAt_def)
qed


section \<open>Files that hold one rendered state\<close>

text \<open>What a file may hold, now and after a power loss; \<open>None\<close> is a missing file.\<close>

definition disk_within :: "path \<Rightarrow> ByteBuffer option set \<Rightarrow> world \<Rightarrow> bool" where
  "disk_within p A w \<longleftrightarrow> owns_file p w \<and> fileAt w p \<in> A \<and> surviving w p \<subseteq> A"

lemma disk_within_owns [simp]: "disk_within p A w \<Longrightarrow> owns_file p w"
  by (simp add: disk_within_def)

lemma disk_within_sched [simp]: "disk_within p A (w\<lparr>sched := rs\<rparr>) \<longleftrightarrow> disk_within p A w"
  by (simp add: disk_within_def)

lemma disk_within_mono: "disk_within p A w \<Longrightarrow> A \<subseteq> B \<Longrightarrow> disk_within p B w"
  unfolding disk_within_def by blast

lemma disk_within_power_loss: "disk_within p A w \<Longrightarrow> power_loss w w' \<Longrightarrow> disk_within p A w'"
  using surviving_power_loss [of w w' p] owns_file_power_loss [of p w w']
  unfolding disk_within_def by auto

lemma replaced_untouched: "replaced p bs w0 r w \<Longrightarrow> untouched (ownNames p) w0 w \<and> owns_file p w"
  by (auto simp: replaced_def kept_def published_def intro: untouched_mono)

text \<open>An operation on another file leaves this one within what it was.\<close>

lemma disk_within_other [frame_rules]:
  assumes "disk_within q A w" and "untouched (ownNames p) w w'" and "owns_file p w'"
    and "ownNames q \<inter> ownNames p = {}"
  shows "disk_within q A w'"
proof -
  have "owns_file q w'"
    using owns_file_other [of q w p w'] assms by simp
  moreover have "q \<notin> ownNames p" using assms(4) by auto
  moreover from this have "fileAt w' q = fileAt w q" "surviving w' q \<subseteq> surviving w q"
    using untouched_fileAt [OF assms(2) owns_file_wf [OF assms(3)]]
      untouched_surviving [OF assms(2)] by simp_all
  ultimately show ?thesis
    using assms(1) unfolding disk_within_def by auto
qed

lemma disk_within_replaced:
  assumes d: "disk_within p A w" and r: "replaced p bs w r w'"
  shows "disk_within p (insert (Some bs) A) w'" and "r = Done () \<Longrightarrow> disk_within p {Some bs} w'"
proof -
  show "disk_within p (insert (Some bs) A) w'"
  proof (cases "kept p w w'")
    case True
    then have "owns_file p w'" by (simp add: kept_def)
    with d kept_reads [OF True] show ?thesis unfolding disk_within_def by auto
  next
    case False
    then have new: "published p bs w w'" using r by (auto simp: replaced_def)
    then have "surviving w' p \<subseteq> insert (Some bs) (surviving w p)" "owns_file p w'"
      by (simp_all add: published_def)
    with d published_fileAt [OF new] show ?thesis unfolding disk_within_def by auto
  qed
  show "disk_within p {Some bs} w'" if "r = Done ()"
  proof -
    have p: "published p bs w w'" "surviving w' p = {Some bs}"
      using r that by (simp_all add: replaced_def)
    then have "owns_file p w'" by (simp add: published_def)
    with p(2) published_fileAt [OF p(1)] show ?thesis by (simp add: disk_within_def)
  qed
qed

lemma disk_within_appended:
  assumes d: "disk_within p A w" and a: "appended p bs w r w'"
  shows "disk_within p (A \<union> {Some (contents w p @ take k bs) | k. True}) w'"
    and "r = Done () \<Longrightarrow> disk_within p {Some (contents w p @ bs)} w'"
proof -
  let ?B = "{Some (contents w p @ take k bs) | k. True}"
  have o: "owns_file p w'" "surviving w' p \<subseteq> surviving w p \<union> ?B"
    using a by (simp_all add: appended_def)
  have "fileAt w' p = fileAt w p \<or> fileAt w' p \<in> ?B"
    using a by (auto simp: appended_def)
  then show "disk_within p (A \<union> ?B) w'"
    using d o unfolding disk_within_def by auto
  assume "r = Done ()"
  then have "surviving w' p = {fileAt w' p}" "fileAt w' p = Some (contents w p @ bs)"
    using a by (auto simp: appended_def)
  with o(1) show "disk_within p {Some (contents w p @ bs)} w'"
    by (simp add: disk_within_def)
qed

lemma readFile_disk: "readFile p w = (r, w') \<Longrightarrow> disk_within q A w \<Longrightarrow> disk_within q A w'"
  using readFile_result(1) [of p w r w'] disk_within_sched [of q A "[]" w] disk_within_sched [of q A "[]" w']
  by simp

lemma readFile_throws:
  "readFile p w = (Throw e, w') \<Longrightarrow> \<exists>msg \<in> {''cannot read persistent file: '',
     ''cannot determine file size: '', ''cannot open persistent file: ''}. e = RuntimeError (msg @ p)"
  unfolding readFile_def
  by (auto simp: syscall_def doneW_def throwW_def Let_def split: if_splits list.splits sysres.splits)

text \<open>The writing operations throw system errors only.\<close>

definition system_errors :: "'a io \<Rightarrow> bool" where
  "system_errors m \<longleftrightarrow> (\<forall>w e w'. m w = (Throw e, w') \<longrightarrow> (\<exists>n msg. e = SystemError n msg))"

lemma system_errorsI:
  "(\<And>w e w'. m w = (Throw e, w') \<Longrightarrow> \<exists>n msg. e = SystemError n msg) \<Longrightarrow> system_errors m"
  by (simp add: system_errors_def)

lemma system_errorsD: "system_errors m \<Longrightarrow> m w = (Throw e, w') \<Longrightarrow> \<exists>n msg. e = SystemError n msg"
  unfolding system_errors_def by blast

lemma system_errors_bind:
  assumes "system_errors m" and "\<And>x. system_errors (f x)"
  shows "system_errors (bindW m f)"
proof (rule system_errorsI)
  fix w e w' assume run: "bindW m f w = (Throw e, w')"
  obtain r w1 where m: "m w = (r, w1)" by (rule prod.exhaust)
  show "\<exists>n msg. e = SystemError n msg"
    by (cases r) (use run m system_errorsD [OF assms(1)] system_errorsD [OF assms(2)] in \<open>auto simp: bindW_def\<close>)
qed

lemma system_errors_catch:
  assumes "system_errors m" and "\<And>n msg. system_errors (h (SystemError n msg))"
  shows "system_errors (catchW m h)"
proof (rule system_errorsI)
  fix w e w' assume run: "catchW m h w = (Throw e, w')"
  obtain r w1 where m: "m w = (r, w1)" by (rule prod.exhaust)
  show "\<exists>n msg. e = SystemError n msg"
  proof (cases r)
    case (Throw e1)
    obtain n msg where "e1 = SystemError n msg" using system_errorsD [OF assms(1)] m Throw by blast
    then show ?thesis using run m Throw system_errorsD [OF assms(2)] by (auto simp: catchW_def)
  qed (use run m in \<open>auto simp: catchW_def\<close>)
qed

lemma system_errors_syscall:
  "(\<And>n. system_errors (good n)) \<Longrightarrow> (\<And>e. system_errors (bad e)) \<Longrightarrow> system_errors (syscall good bad)"
  unfolding system_errors_def syscall_def by (auto split: list.splits sysres.splits)

lemma system_errors_basic [simp]:
  "system_errors (doneW x)" "system_errors (throwW (SystemError n msg))"
  "system_errors (\<lambda>w. doneW x (f w))" "system_errors (\<lambda>w. (Done (g w), f w))"
  by (auto simp: system_errors_def doneW_def throwW_def)

lemma system_errors_writeAll: "system_errors (writeAll fd bs)"
proof -
  have "\<exists>n msg. e = SystemError n msg" if "writeLoop rs fd bs k w = (Throw e, w')" for rs k w e w'
    using that by (induction rs fd bs k w rule: writeLoop.induct)
      (auto simp: Let_def split: if_splits sysres.splits)
  then show ?thesis by (auto simp: system_errors_def writeAll_def)
qed

lemma system_errors_calls:
  "system_errors (ensureParentDirectory p)" "system_errors (openForWriting t p msg)"
  "system_errors (syncAndClose fd)" "system_errors (syncParentDirectory p)"
  "system_errors (renameFile a b)" "system_errors (removeIgnoringErrors p)"
proof -
  have step: "system_errors (\<lambda>w. m (f w))" if "system_errors m" for m :: "unit io" and f
    using that by (auto simp: system_errors_def)
  show "system_errors (syncAndClose fd)" for fd
    unfolding syncAndClose_def
    by (rule system_errors_syscall, rule step, rule system_errors_syscall) simp_all
  then show "system_errors (syncParentDirectory p)"
    unfolding syncParentDirectory_def by (intro system_errors_syscall) simp_all
  show "system_errors (openForWriting t p msg)"
    unfolding openForWriting_def by (intro system_errors_syscall) (simp_all add: case_prod_unfold)
qed (auto simp: ensureParentDirectory_def renameFile_def removeIgnoringErrors_def intro!: system_errors_syscall)

lemma writeAtomically_throws:
  assumes "writeAtomically p bs w = (Throw e, w')"
  shows "\<exists>n msg. e = SystemError n msg"
proof -
  have "system_errors (writeAtomically p bs)"
    unfolding writeAtomically_def Let_def discardTemporary_def
    by (intro system_errors_bind system_errors_catch system_errors_calls system_errors_writeAll) simp_all
  from system_errorsD [OF this assms] show ?thesis .
qed

lemma appendDurably_throws:
  assumes "appendDurably p bs w = (Throw e, w')"
  shows "\<exists>n msg. e = SystemError n msg"
proof -
  have "system_errors (appendDurably p bs)"
    unfolding appendDurably_def
    by (intro system_errors_bind system_errors_catch system_errors_calls system_errors_writeAll) simp_all
  from system_errorsD [OF this assms] show ?thesis .
qed

text \<open>
  \<^verbatim>\<open>client.state\<close> and \<^verbatim>\<open>dedup.state\<close> are snapshot files: the whole state is rendered and written
  atomically, and parsed when the process starts. The client of this interface only needs that
  parsing undoes rendering.
\<close>

definition states_of :: "(ByteBuffer \<Rightarrow> exn + 's) \<Rightarrow> 's set \<Rightarrow> ByteBuffer option set" where
  "states_of parse S = Some ` {bs. \<exists>s \<in> S. parse bs = Inr s}"

lemma states_of_iff [simp]:
  "None \<notin> states_of parse S"
  "Some bs \<in> states_of parse S \<longleftrightarrow> (\<exists>s \<in> S. parse bs = Inr s)"
  by (auto simp: states_of_def)

lemma states_of_mono: "S \<subseteq> T \<Longrightarrow> states_of parse S \<subseteq> states_of parse T"
  unfolding states_of_def by blast

locale snapshot_file =
  fixes render :: "'s \<Rightarrow> ByteBuffer" and parse :: "ByteBuffer \<Rightarrow> exn + 's" and ok :: "'s \<Rightarrow> bool"
  assumes parse_render: "ok s \<Longrightarrow> parse (render s) = Inr s"
begin

lemma rendered_state: "ok s \<Longrightarrow> s \<in> S \<Longrightarrow> Some (render s) \<in> states_of parse S"
  using parse_render by auto

text \<open>Every write, failed or not, adds at most the state it writes; a finished one leaves only that.\<close>

lemma saving:
  assumes "disk_within p (X \<union> states_of parse S) w" and "ok s"
    and "writeAtomically p (render s) w = (r, w')"
  shows "disk_within p (X \<union> states_of parse (insert s S)) w'"
    and "r = Done () \<Longrightarrow> disk_within p (states_of parse {s}) w'"
proof -
  have rep: "replaced p (render s) w r w'"
    using runsD [OF runs_writeAtomically assms(3)] assms(1) by simp
  have "insert (Some (render s)) (X \<union> states_of parse S) \<subseteq> X \<union> states_of parse (insert s S)"
    using rendered_state [OF assms(2)] states_of_mono [of S "insert s S"] by blast
  with disk_within_replaced(1) [OF assms(1) rep] show "disk_within p (X \<union> states_of parse (insert s S)) w'"
    by (rule disk_within_mono)
  show "disk_within p (states_of parse {s}) w'" if "r = Done ()"
    using disk_within_replaced(2) [OF assms(1) rep that]
    by (rule disk_within_mono) (simp add: parse_render [OF assms(2)])
qed

lemma reading:
  assumes "disk_within p (states_of parse S) w" and "readFile p w = (Done bs, w')"
  shows "\<exists>s \<in> S. parse bs = Inr s"
  using assms(1) readFile_result(2) [OF assms(2)]
  by (auto simp: disk_within_def contents_def states_of_def)

end

lemma appended_part:
  assumes "appended p bs w0 r w"
  shows "\<exists>k \<le> length bs. contents w p = contents w0 p @ take k bs \<and> (r = Done () \<longrightarrow> k = length bs)"
proof -
  consider (same) "r \<noteq> Done ()" "fileAt w p = fileAt w0 p"
    | (part) k where "k \<le> length bs" "fileAt w p = Some (contents w0 p @ take k bs)" "r = Done () \<longrightarrow> k = length bs"
    using assms unfolding appended_def by blast
  then show ?thesis
  proof cases
    case same
    then show ?thesis using contents_cong [of w p w0] by (intro exI [of _ 0]) simp
  next
    case part
    then show ?thesis by (intro exI [of _ k]) (simp add: contents_def)
  qed
qed


section \<open>Properties\<close>

text \<open>
  Property C8. However the system calls of \<^verbatim>\<open>writeAtomically\<close> end and wherever the process dies, the
  target holds the old or the new contents, a power loss leaves nothing else than it could have
  left before or the new contents, a normal return means the new contents are durable, and no
  other file changes.
\<close>

theorem write_atomic:
  assumes "owns_file p w" and "writeAtomically p bs w = (r, w')"
  shows "(fileAt w' p = fileAt w p \<or> fileAt w' p = Some bs)
    \<and> surviving w' p \<subseteq> insert (Some bs) (surviving w p)
    \<and> (r = Done () \<longrightarrow> fileAt w' p = Some bs \<and> surviving w' p = {Some bs})
    \<and> owns_file p w'
    \<and> (\<forall>q. q \<noteq> p \<longrightarrow> q \<noteq> temporaryOf p \<longrightarrow>
         fileAt w' q = fileAt w q \<and> surviving w' q \<subseteq> surviving w q)"
proof -
  have rep: "replaced p bs w r w'"
    using runsD [OF runs_writeAtomically [OF assms(1)] assms(2)] .
  then have u: "untouched (ownNames p) w w'" "owns_file p w'"
    using replaced_untouched by blast+
  then have "fileAt w' q = fileAt w q \<and> surviving w' q \<subseteq> surviving w q"
    if "q \<noteq> p" "q \<noteq> temporaryOf p" for q
    using untouched_fileAt untouched_surviving owns_file_wf that by blast
  then show ?thesis
    using rep u(2) kept_reads [of p w w'] published_fileAt [of p bs w w']
    by (auto simp: replaced_def published_def)
qed

lemma write_atomic_witness:
  "let w = \<lparr>curDir = [''s'' \<mapsto> 0], dirHist = [[''s'' \<mapsto> 0]], fileData = (\<lambda>_. [1]),
            fileSynced = (\<lambda>_. [1]), nextInode = 1, sched = [Ok 1, Ok 1, Err EIO]\<rparr>
   in fileAt (snd (writeAtomically ''s'' [2, 3] w)) ''s'' \<in> {Some [1], Some [2, 3]}"
proof -
  let ?w = "\<lparr>curDir = [''s'' \<mapsto> 0], dirHist = [[''s'' \<mapsto> 0]], fileData = (\<lambda>_. [1]),
            fileSynced = (\<lambda>_. [1]), nextInode = 1, sched = [Ok 1, Ok 1, Err EIO]\<rparr>"
  have "owns_file ''s'' ?w"
    by (auto simp: owns_file_def wf_world_def inodesOf_def temporaryOf_def split: if_splits)
  from write_atomic [OF this surjective_pairing, of "[2, 3]"]
  show ?thesis by (simp add: fileAt_def Let_def)
qed

text \<open>
  Property C30. An append leaves the old contents followed by a part of the new bytes, the whole of
  them when it returns; a power loss leaves something it could have left before or such a
  contents, and after a normal return exactly the whole.
\<close>

theorem append_durable:
  assumes "owns_file p w" and "appendDurably p bs w = (r, w')"
  shows "(\<exists>k \<le> length bs. contents w' p = contents w p @ take k bs)
    \<and> surviving w' p \<subseteq> surviving w p \<union> {Some (contents w p @ take k bs) | k. True}
    \<and> (r = Done () \<longrightarrow>
         fileAt w' p = Some (contents w p @ bs) \<and> surviving w' p = {Some (contents w p @ bs)})
    \<and> owns_file p w'
    \<and> (\<forall>q. q \<noteq> p \<longrightarrow> q \<noteq> temporaryOf p \<longrightarrow>
         fileAt w' q = fileAt w q \<and> surviving w' q \<subseteq> surviving w q)"
proof -
  have app: "appended p bs w r w'"
    using runsD [OF runs_appendDurably [OF assms(1)] assms(2)] .
  then have "fileAt w' q = fileAt w q \<and> surviving w' q \<subseteq> surviving w q"
    if "q \<noteq> p" "q \<noteq> temporaryOf p" for q
    using untouched_fileAt [of "ownNames p" w w' q] untouched_surviving [of "ownNames p" w w' q]
      owns_file_wf that by (auto simp: appended_def)
  then show ?thesis
    using app appended_part [OF app] by (auto simp: appended_def)
qed

lemma append_durable_witness:
  "let w = \<lparr>curDir = Map.empty, dirHist = [Map.empty], fileData = (\<lambda>_. []),
            fileSynced = (\<lambda>_. []), nextInode = 0, sched = replicate 9 (Ok 1)\<rparr>
   in fst (appendDurably ''w'' [2, 3] w) = Done ()
      \<and> surviving (snd (appendDurably ''w'' [2, 3] w)) ''w'' = {Some [2, 3]}"
proof -
  let ?w = "\<lparr>curDir = Map.empty, dirHist = [Map.empty], fileData = (\<lambda>_. []),
            fileSynced = (\<lambda>_. []), nextInode = 0, sched = replicate 9 (Ok 1)\<rparr> :: world"
  have "owns_file ''w'' ?w"
    by (auto simp: owns_file_def wf_world_def inodesOf_def)
  from append_durable [OF this surjective_pairing, of "[2, 3]"]
  have "fst (appendDurably ''w'' [2, 3] ?w) = Done () \<Longrightarrow>
    surviving (snd (appendDurably ''w'' [2, 3] ?w)) ''w'' = {Some [2, 3]}"
    by (simp add: contents_def fileAt_def)
  moreover have "\<exists>x w'. appendDurably ''w'' [2, 3] ?w = (Done x, w')"
    by (rule completesD [OF completes_appendDurably]) simp_all
  ultimately show ?thesis by (auto simp: Let_def)
qed

text \<open>
  Both operations return when no call fails, even if every \<^verbatim>\<open>write\<close> takes a single byte.
\<close>

lemma persistence_completes:
  assumes "all_good (sched w)" and "length bs + 8 \<le> length (sched w)"
  shows "fst (writeAtomically p bs w) = Done () \<and> fst (appendDurably p bs w) = Done ()"
proof -
  have "\<exists>x w'. writeAtomically p bs w = (Done x, w')"
    by (rule completesD [OF completes_writeAtomically]) (use assms in auto)
  moreover have "\<exists>x w'. appendDurably p bs w = (Done x, w')"
    by (rule completesD [OF completes_appendDurably]) (use assms in auto)
  ultimately show ?thesis by auto
qed

end
