(* ===== verification/ClientState.thy ===== *)
theory ClientState
  imports Protocol TextIO Durability
begin

text \<open>
  \<^verbatim>\<open>src/src/ClientState.cpp\<close>: the client's identity, the next message id and the checkpoint of
  the log file, kept in \<^verbatim>\<open>client.state\<close>. An allocated id is on the disk before it is used, so no
  restart can give it out again; the file always holds one of the states that were written.
\<close>

section \<open>The code\<close>

record ClientState =
  stPath :: path
  stClientId :: string
  stNextId :: u64
  stSourcePath :: string
  stFileOffset :: u64
  stFileDeviceId :: u64
  stFileInode :: u64

definition StateMagic :: string where "StateMagic = ''LGBSTATE2''"
definition LegacyStateMagic :: string where "LegacyStateMagic = ''LGBSTATE1''"

text \<open>The values of \<^verbatim>\<open>std::random_device\<close> are the argument \<open>random\<close>, one per character.\<close>

definition generateClientId :: "(nat \<Rightarrow> u32) \<Rightarrow> string" where
  "generateClientId random = map (\<lambda>k. ''0123456789abcdef'' ! unat (random k AND 0x0F)) [0..<32]"

definition parseUint64 :: "string \<Rightarrow> string \<Rightarrow> u64 result" where
  "parseUint64 txt fieldName =
     (let bad = RuntimeError (''invalid client state field: '' @ fieldName)
      in if txt = [] \<or> hd txt = CHR ''-'' then Inl bad
         else bindR (stoull txt) (\<lambda>(value, parsed).
           if parsed \<noteq> length txt then Inl bad else Inr value))"

text \<open>One \<^verbatim>\<open>!std::getline(input, line)\<close> of the guards in \<open>load\<close>.\<close>

definition stateLine :: "istream \<Rightarrow> (istream \<times> string) result" where
  "stateLine s =
     (let (s', line) = getline s []
      in if failbit s' then Inl (RuntimeError ''invalid client state file'') else Inr (s', line))"

definition parseState :: "path \<Rightarrow> string \<Rightarrow> ClientState result" where
  "parseState p txt =
     bindR (stateLine (istringstream txt)) (\<lambda>(s1, magic).
     bindR (stateLine s1) (\<lambda>(s2, client).
     bindR (stateLine s2) (\<lambda>(s3, nextIdText).
     bindR (stateLine s3) (\<lambda>(s4, fileOffsetText).
     if client = [] then Inl (RuntimeError ''invalid client state file'')
     else bindR
       (if magic = StateMagic then
          bindR (stateLine s4) (\<lambda>(s5, fileDeviceIdText).
          bindR (stateLine s5) (\<lambda>(s6, fileInodeText).
          bindR (stateLine s6) (\<lambda>(s7, storedSource).
          bindR (parseUint64 fileDeviceIdText ''fileDeviceId'') (\<lambda>device.
          bindR (parseUint64 fileInodeText ''fileInode'') (\<lambda>inode.
            Inr (device, inode, storedSource))))))
        else if magic = LegacyStateMagic then
          bindR (stateLine s4) (\<lambda>(s5, storedSource). Inr (0, 0, storedSource))
        else Inl (RuntimeError ''invalid client state file''))
       (\<lambda>(device, inode, storedSource).
     bindR (parseUint64 nextIdText ''nextId'') (\<lambda>next.
     bindR (parseUint64 fileOffsetText ''fileOffset'') (\<lambda>off.
     if next = 0 then Inl (RuntimeError ''invalid next message ID in client state'')
     else Inr \<lparr>stPath = p, stClientId = client, stNextId = next, stSourcePath = storedSource,
               stFileOffset = off, stFileDeviceId = device, stFileInode = inode\<rparr>)))))))"

definition loadState :: "path \<Rightarrow> ClientState io" where
  "loadState p = bindW (readFile p) (\<lambda>bs. liftR (parseState p (string_of_bytes bs)))"

definition renderState :: "ClientState \<Rightarrow> string" where
  "renderState st =
     StateMagic @ [newline] @ stClientId st @ [newline]
     @ decimal (unat (stNextId st)) @ [newline] @ decimal (unat (stFileOffset st)) @ [newline]
     @ decimal (unat (stFileDeviceId st)) @ [newline] @ decimal (unat (stFileInode st)) @ [newline]
     @ stSourcePath st @ [newline]"

definition persistState :: "ClientState \<Rightarrow> unit io" where
  "persistState st = writeAtomically (stPath st) (bytes_of_string (renderState st))"

text \<open>The loop over the recovered messages: their client ids and their largest message id.\<close>

fun maximumRecovered :: "string \<Rightarrow> u64 \<Rightarrow> LogMessage list \<Rightarrow> u64 result" where
  "maximumRecovered client maximum [] = Inr maximum"
| "maximumRecovered client maximum (m # ms) =
     (if clientId m \<noteq> client
      then Inl (RuntimeError ''client state does not match WAL client ID'')
      else maximumRecovered client (max maximum (msgId m)) ms)"

text \<open>The corrections of the constructor, and whether there was one (\<open>changed\<close>).\<close>

definition reconcileState :: "string \<Rightarrow> LogMessage list \<Rightarrow> ClientState \<Rightarrow> (ClientState \<times> bool) result" where
  "reconcileState requestedSource recovered st =
     (let moved = (stSourcePath st \<noteq> requestedSource);
          st1 = (if moved
                 then st\<lparr>stSourcePath := requestedSource, stFileOffset := 0, stFileDeviceId := 0,
                         stFileInode := 0\<rparr>
                 else st)
      in bindR (maximumRecovered (stClientId st1) 0 recovered) (\<lambda>maximum.
         if maximum = - 1 then Inl (OverflowError ''message ID space is exhausted'')
         else if stNextId st1 \<le> maximum then Inr (st1\<lparr>stNextId := maximum + 1\<rparr>, True)
         else Inr (st1, moved)))"

definition openClientState ::
  "(nat \<Rightarrow> u32) \<Rightarrow> path \<Rightarrow> string \<Rightarrow> LogMessage list \<Rightarrow> ClientState io" where
  "openClientState random p requestedSource recovered w =
     (if p = [] \<or> requestedSource = []
      then throwW (InvalidArgument ''client state path and source cannot be empty'') w
      else
        (let stateExists = (fileAt w p \<noteq> None);
             fresh = \<lparr>stPath = p,
               stClientId = (if recovered = [] then generateClientId random
                             else clientId (hd recovered)),
               stNextId = 1, stSourcePath = [], stFileOffset = 0, stFileDeviceId = 0,
               stFileInode = 0\<rparr>
         in bindW (if stateExists then loadState p else doneW fresh) (\<lambda>st.
            bindW (liftR (reconcileState requestedSource recovered st)) (\<lambda>(st2, changed).
            if \<not> stateExists \<or> changed
            then bindW (persistState st2) (\<lambda>_. doneW st2)
            else doneW st2)) w))"

definition nextMessageId :: "(ClientState, u64) meth" where
  "nextMessageId st w =
     (if stNextId st = - 1
      then (Throw (OverflowError ''message ID space is exhausted''), st, w)
      else
        (let allocated = stNextId st; st1 = st\<lparr>stNextId := allocated + 1\<rparr>
         in case persistState st1 w of
              (Done _, w') \<Rightarrow> (Done allocated, st1, w')
            | (Throw e, w') \<Rightarrow> (Throw e, st1\<lparr>stNextId := allocated\<rparr>, w')
            | (Crash, w') \<Rightarrow> (Crash, st1, w')))"

definition updateFileCheckpoint :: "u64 \<Rightarrow> u64 \<Rightarrow> u64 \<Rightarrow> (ClientState, unit) meth" where
  "updateFileCheckpoint off device inode st w =
     (if off = stFileOffset st \<and> device = stFileDeviceId st \<and> inode = stFileInode st
      then (Done (), st, w)
      else
        (let st1 = st\<lparr>stFileOffset := off, stFileDeviceId := device, stFileInode := inode\<rparr>
         in case persistState st1 w of
              (Done _, w') \<Rightarrow> (Done (), st1, w')
            | (Throw e, w') \<Rightarrow>
                (Throw e, st1\<lparr>stFileOffset := stFileOffset st, stFileDeviceId := stFileDeviceId st,
                              stFileInode := stFileInode st\<rparr>, w')
            | (Crash, w') \<Rightarrow> (Crash, st1, w')))"

definition updateFileOffset :: "u64 \<Rightarrow> (ClientState, unit) meth" where
  "updateFileOffset off st = updateFileCheckpoint off (stFileDeviceId st) (stFileInode st) st"


section \<open>Rendering and parsing\<close>

text \<open>The states whose file can be read back: a newline in a path or an id would end its line.\<close>

definition ok_state :: "path \<Rightarrow> ClientState \<Rightarrow> bool" where
  "ok_state p st \<longleftrightarrow> stPath st = p \<and> stClientId st \<noteq> [] \<and> newline \<notin> set (stClientId st)
     \<and> newline \<notin> set (stSourcePath st) \<and> stNextId st \<noteq> 0"

lemma parseUint64_decimal [simp]: "parseUint64 (decimal (unat (v :: u64))) name = Inr v"
proof -
  have "unat v < 2 ^ 64" using unsigned_less [of v] by simp
  then have "stoull (decimal (unat v)) = Inr (v, length (decimal (unat v)))"
    by (simp add: stoull_decimal)
  then show ?thesis using decimal_hd [of "unat v"] by (simp add: parseUint64_def Let_def)
qed

lemma newline_notin_decimal [simp]: "newline \<notin> set (decimal n)"
  using decimal_set not_isDigit by blast

lemma newline_notin_magic [simp]: "newline \<notin> set StateMagic" "newline \<notin> set LegacyStateMagic"
  by (simp_all add: StateMagic_def LegacyStateMagic_def)

lemma stateLine_line:
  "newline \<notin> set line \<Longrightarrow>
   stateLine \<lparr>rest = line @ newline # cs, eofbit = False, failbit = False\<rparr>
    = Inr (\<lparr>rest = cs, eofbit = False, failbit = False\<rparr>, line)"
  by (simp add: stateLine_def getline_line)

lemma parse_renderState:
  assumes "ok_state p st"
  shows "parseState p (renderState st) = Inr st"
  using assms
  by (simp add: parseState_def renderState_def istringstream_def ok_state_def stateLine_line)

interpretation client_file: snapshot_file
  "\<lambda>st. bytes_of_string (renderState st)" "\<lambda>bs. parseState p (string_of_bytes bs)" "ok_state p" for p
  by unfold_locales (simp add: parse_renderState)

text \<open>A file of the older format: no file identity, and the same five lines otherwise.\<close>

lemma parse_legacy:
  assumes "client \<noteq> []" "newline \<notin> set client" "newline \<notin> set src" "next \<noteq> 0"
  shows "parseState p (LegacyStateMagic @ [newline] @ client @ [newline]
     @ decimal (unat next) @ [newline] @ decimal (unat off) @ [newline] @ src @ [newline])
   = Inr \<lparr>stPath = p, stClientId = client, stNextId = next, stSourcePath = src,
          stFileOffset = off, stFileDeviceId = 0, stFileInode = 0\<rparr>"
proof -
  have "LegacyStateMagic \<noteq> StateMagic" by (simp add: LegacyStateMagic_def StateMagic_def)
  then show ?thesis
    using assms by (simp add: parseState_def istringstream_def stateLine_line)
qed


section \<open>What the operations leave on the disk\<close>

abbreviation state_files :: "path \<Rightarrow> ClientState set \<Rightarrow> ByteBuffer option set" where
  "state_files p S \<equiv> states_of (\<lambda>bs. parseState p (string_of_bytes bs)) S"

lemma persistState_disk:
  assumes "disk_within p (X \<union> state_files p S) w" and "ok_state p st" and "persistState st w = (r, w')"
  shows "disk_within p (X \<union> state_files p (insert st S)) w'"
    and "r = Done () \<Longrightarrow> disk_within p (state_files p {st}) w'"
proof -
  have "writeAtomically p (bytes_of_string (renderState st)) w = (r, w')"
    using assms(2,3) by (simp add: persistState_def ok_state_def)
  note saving = client_file.saving [OF assms(1,2) this]
  show "disk_within p (X \<union> state_files p (insert st S)) w'" by (rule saving(1))
  show "disk_within p (state_files p {st}) w'" if "r = Done ()" using that by (rule saving(2))
qed

text \<open>How the two methods that write the state end.\<close>

lemma nextMessageId_cases:
  assumes "nextMessageId st w = (r, st', w')"
  obtains (full) "stNextId st = - 1" "st' = st" "w' = w" "\<And>i. r \<noteq> Done i"
  | (wrote) "stNextId st \<noteq> - 1" "persistState (st\<lparr>stNextId := stNextId st + 1\<rparr>) w = (Done (), w')"
      "r = Done (stNextId st)" "st' = st\<lparr>stNextId := stNextId st + 1\<rparr>"
  | (failed) e where "stNextId st \<noteq> - 1"
      "persistState (st\<lparr>stNextId := stNextId st + 1\<rparr>) w = (Throw e, w')" "r = Throw e" "st' = st"
  | (crashed) "stNextId st \<noteq> - 1"
      "persistState (st\<lparr>stNextId := stNextId st + 1\<rparr>) w = (Crash, w')" "r = Crash"
proof (cases "stNextId st = - 1")
  case True
  with assms show ?thesis by (intro full) (auto simp: nextMessageId_def)
next
  case False
  obtain r0 w1 where p: "persistState (st\<lparr>stNextId := stNextId st + 1\<rparr>) w = (r0, w1)"
    by (rule prod.exhaust)
  show ?thesis
    using assms False p
    by (cases r0) (auto simp: nextMessageId_def Let_def intro: wrote failed crashed)
qed

lemma updateFileCheckpoint_cases:
  assumes "updateFileCheckpoint off device inode st w = (r, st', w')"
  defines "st1 \<equiv> st\<lparr>stFileOffset := off, stFileDeviceId := device, stFileInode := inode\<rparr>"
  obtains (same) "st1 = st" "r = Done ()" "st' = st" "w' = w"
  | (wrote) "persistState st1 w = (Done (), w')" "r = Done ()" "st' = st1"
  | (failed) e where "persistState st1 w = (Throw e, w')" "r = Throw e" "st' = st"
  | (crashed) "persistState st1 w = (Crash, w')" "r = Crash"
proof (cases "off = stFileOffset st \<and> device = stFileDeviceId st \<and> inode = stFileInode st")
  case True
  with assms show ?thesis by (intro same) (auto simp: updateFileCheckpoint_def)
next
  case False
  obtain r0 w1 where p: "persistState st1 w = (r0, w1)" by (rule prod.exhaust)
  show ?thesis
    using assms False p
    by (cases r0) (auto simp: updateFileCheckpoint_def Let_def intro: wrote failed crashed)
qed

lemma nextMessageId_ok: "ok_state p st \<Longrightarrow> stNextId st \<noteq> - 1 \<Longrightarrow> ok_state p (st\<lparr>stNextId := stNextId st + 1\<rparr>)"
  by (simp add: ok_state_def increment_neq_0)

lemma nextMessageId_disk:
  assumes d: "disk_within p (X \<union> state_files p S) w" and ok: "ok_state p st"
    and run: "nextMessageId st w = (r, st', w')"
  shows "\<exists>T \<subseteq> {st\<lparr>stNextId := stNextId st + 1\<rparr>} \<inter> {s. ok_state p s \<and> stNextId st < stNextId s}.
           disk_within p (X \<union> state_files p (T \<union> S)) w'"
    and "r = Done i \<Longrightarrow> disk_within p (state_files p {st'}) w'"
proof -
  have up: "stNextId st < stNextId st + 1" if "stNextId st \<noteq> - 1"
    using that by (rule increment_less)
  note persist = persistState_disk [OF d nextMessageId_ok [OF ok]]
  from run show "\<exists>T \<subseteq> {st\<lparr>stNextId := stNextId st + 1\<rparr>} \<inter> {s. ok_state p s \<and> stNextId st < stNextId s}.
           disk_within p (X \<union> state_files p (T \<union> S)) w'"
  proof (cases rule: nextMessageId_cases)
    case full
    with d show ?thesis by (intro exI [of _ "{}"]) simp
  qed (use persist(1) up nextMessageId_ok [OF ok] in
      \<open>intro exI [of _ "{st\<lparr>stNextId := stNextId st + 1\<rparr>}"], simp\<close>)+
  show "disk_within p (state_files p {st'}) w'" if "r = Done i"
    using run by (cases rule: nextMessageId_cases) (use that persist(2) in auto)
qed

lemma updateFileCheckpoint_disk:
  assumes d: "disk_within p (X \<union> state_files p S) w" and ok: "ok_state p st"
    and run: "updateFileCheckpoint off device inode st w = (r, st', w')"
  defines "st1 \<equiv> st\<lparr>stFileOffset := off, stFileDeviceId := device, stFileInode := inode\<rparr>"
  shows "disk_within p (X \<union> state_files p (insert st1 S)) w'"
    and "r = Done () \<Longrightarrow> w' \<noteq> w \<Longrightarrow> disk_within p (state_files p {st'}) w'"
proof -
  have "ok_state p st1" using ok by (simp add: ok_state_def st1_def)
  note persist = persistState_disk [OF d this]
  have "state_files p S \<subseteq> state_files p (insert st1 S)" by (rule states_of_mono) blast
  then have unchanged: "disk_within p (X \<union> state_files p (insert st1 S)) w"
    by (intro disk_within_mono [OF d]) blast
  from run show "disk_within p (X \<union> state_files p (insert st1 S)) w'"
    by (cases rule: updateFileCheckpoint_cases)
      (use persist(1) unchanged in \<open>auto simp: st1_def\<close>)
  from run show "disk_within p (state_files p {st'}) w'" if "r = Done ()" "w' \<noteq> w"
    by (cases rule: updateFileCheckpoint_cases) (use that persist(2) in \<open>auto simp: st1_def\<close>)
qed



section \<open>Opening the state\<close>

lemma maximumRecovered_Inr:
  "maximumRecovered c k ms = Inr n \<Longrightarrow>
   k \<le> n \<and> (\<forall>m \<in> set ms. clientId m = c \<and> msgId m \<le> n)"
  by (induction ms arbitrary: k) (fastforce split: if_splits)+

lemma maximumRecovered_largest:
  "maximumRecovered c k ms = Inr n \<Longrightarrow> n = k \<or> n \<in> msgId ` set ms"
  by (induction ms arbitrary: k) (fastforce split: if_splits simp: max_def)+

text \<open>A state that may take the place of \<open>st\<close>: the same client, and no id given out twice.\<close>

definition follows :: "path \<Rightarrow> ClientState \<Rightarrow> ClientState \<Rightarrow> bool" where
  "follows p st st' \<longleftrightarrow> ok_state p st' \<and> stClientId st' = stClientId st \<and> stNextId st \<le> stNextId st'"

lemma follows_refl [simp]: "follows p st st \<longleftrightarrow> ok_state p st"
  by (simp add: follows_def)

lemma reconcileState_Inr:
  assumes "reconcileState src ms st = Inr (st', changed)"
  shows "stClientId st' = stClientId st" and "stNextId st \<le> stNextId st'" and "stSourcePath st' = src"
    and "\<forall>m \<in> set ms. clientId m = stClientId st \<and> msgId m < stNextId st'"
    and "\<not> changed \<Longrightarrow> st' = st" and "ok_state p st \<Longrightarrow> newline \<notin> set src \<Longrightarrow> ok_state p st'"
    and "stSourcePath st \<noteq> src \<Longrightarrow> stFileOffset st' = 0"
    and "stSourcePath st = src \<Longrightarrow> stFileOffset st' = stFileOffset st"
proof -
  obtain n where n: "maximumRecovered (stClientId st) 0 ms = Inr n" "n \<noteq> - 1"
    using assms by (auto simp: reconcileState_def Let_def bindR_eq_Inr_iff split: if_splits)
  have up: "n < n + 1" "n + 1 \<noteq> 0" using n(2) by (simp_all add: increment_less increment_neq_0)
  show "\<forall>m \<in> set ms. clientId m = stClientId st \<and> msgId m < stNextId st'"
    using assms n up maximumRecovered_Inr [OF n(1)]
    by (auto simp: reconcileState_def Let_def split: if_splits)
  show "stClientId st' = stClientId st" and "stNextId st \<le> stNextId st'" and "stSourcePath st' = src"
    and "\<not> changed \<Longrightarrow> st' = st" and "ok_state p st \<Longrightarrow> newline \<notin> set src \<Longrightarrow> ok_state p st'"
    and "stSourcePath st \<noteq> src \<Longrightarrow> stFileOffset st' = 0"
    and "stSourcePath st = src \<Longrightarrow> stFileOffset st' = stFileOffset st"
    using assms n up by (auto simp: reconcileState_def Let_def ok_state_def split: if_splits)
qed

lemma generateClientId_plain [simp]: "plain_id (generateClientId random)"
proof -
  have "c \<in> set ''0123456789abcdef''" if c: "c \<in> set (generateClientId random)" for c
  proof -
    obtain k where "c = ''0123456789abcdef'' ! unat (random k AND 0x0F)"
      using c unfolding generateClientId_def set_map by (elim imageE)
    moreover have "random k AND 0x0F \<le> 0x0F" by (rule word_and_le1)
    then have "unat (random k AND 0x0F) < length ''0123456789abcdef''" by (simp add: word_le_nat_alt)
    ultimately show ?thesis by (metis nth_mem)
  qed
  moreover have "\<forall>c \<in> set ''0123456789abcdef''. \<not> isSpace c" by (simp add: isSpace_def)
  moreover have "generateClientId random \<noteq> []" by (simp add: generateClientId_def)
  ultimately show ?thesis unfolding plain_id_def by blast
qed

lemma length_generateClientId: "length (generateClientId random) = 32"
  by (simp add: generateClientId_def)

lemma loadState_disk:
  assumes "disk_within p (X \<union> state_files p S) w" and "fileAt w p \<noteq> None" and "X \<subseteq> {None}"
    and "loadState p w = (r, w')"
  shows "disk_within p (X \<union> state_files p S) w'" and "r = Done st \<Longrightarrow> st \<in> S"
proof -
  obtain r0 where r0: "readFile p w = (r0, w')"
    and r: "r = (case r0 of Done bs \<Rightarrow> (case parseState p (string_of_bytes bs) of Inl e \<Rightarrow> Throw e | Inr st \<Rightarrow> Done st)
              | Throw e \<Rightarrow> Throw e | Crash \<Rightarrow> Crash)"
    using assms(4) by (cases "readFile p w"; cases "fst (readFile p w)")
      (auto simp: loadState_def bindW_def liftR_def throwW_def doneW_def split: sum.splits)
  show "disk_within p (X \<union> state_files p S) w'" using readFile_disk [OF r0] assms(1) by blast
  assume "r = Done st"
  then obtain bs where bs: "r0 = Done bs" "parseState p (string_of_bytes bs) = Inr st"
    using r by (auto split: outcome.splits sum.splits)
  have "Some bs \<in> state_files p S"
    using assms(1-3) readFile_result(2) [OF r0 bs(1)]
    by (auto simp: disk_within_def contents_def)
  with bs show "st \<in> S" by auto
qed

text \<open>
  Opening: the state in memory comes from a state of the file, or from nothing when there is no
  file, and whatever the file may hold afterwards does too.
\<close>

definition opened_from :: "path \<Rightarrow> ClientState set \<Rightarrow> world \<Rightarrow> ClientState \<Rightarrow> bool" where
  "opened_from p S w st \<longleftrightarrow> ok_state p st \<and>
     (fileAt w p = None \<and> plain_id (stClientId st) \<or> (\<exists>s \<in> S. follows p s st))"

lemma openClientState_disk:
  assumes d: "disk_within p (X \<union> state_files p S) w" and X: "X \<subseteq> {None}"
    and S: "\<forall>s \<in> S. ok_state p s" and src: "newline \<notin> set src"
    and ms: "\<forall>m \<in> set ms. plain_id (clientId m)"
    and run: "openClientState random p src ms w = (r, w')"
  obtains T where "disk_within p (X \<union> state_files p (T \<union> S)) w'" and "\<forall>s \<in> T. opened_from p S w s"
    and "\<And>st. r = Done st \<Longrightarrow> opened_from p S w st"
    and "\<And>st. r = Done st \<Longrightarrow> \<forall>m \<in> set ms. clientId m = stClientId st \<and> msgId m < stNextId st"
proof (cases "p = [] \<or> src = []")
  case True
  with run d show ?thesis by (intro that [of "{}"]) (auto simp: openClientState_def throwW_def)
next
  case False
  let ?exists = "fileAt w p \<noteq> None"
  define fresh where "fresh = \<lparr>stPath = p,
               stClientId = (if ms = [] then generateClientId random else clientId (hd ms)),
               stNextId = 1, stSourcePath = [], stFileOffset = 0, stFileDeviceId = 0,
               stFileInode = 0\<rparr>"
  have plain: "plain_id (stClientId fresh)"
    using ms by (cases ms) (auto simp: fresh_def)
  then have fresh: "ok_state p fresh"
    using plain_id_line [OF plain] by (simp add: fresh_def ok_state_def)
  obtain r1 w1 where first: "(if ?exists then loadState p else doneW fresh) w = (r1, w1)"
    by (rule prod.exhaust)
  let ?rest = "\<lambda>st. bindW (liftR (reconcileState src ms st)) (\<lambda>(st2, changed).
            if \<not> ?exists \<or> changed then bindW (persistState st2) (\<lambda>_. doneW st2) else doneW st2)"
  have "bindW (if ?exists then loadState p else doneW fresh) ?rest w = (r, w')"
    using run False by (simp only: openClientState_def Let_def fresh_def if_False)
  then have run': "(case r1 of Done st \<Rightarrow> ?rest st w1 | Throw e \<Rightarrow> (Throw e, w1) | Crash \<Rightarrow> (Crash, w1)) = (r, w')"
    unfolding bindW_def first by simp
  have d1: "disk_within p (X \<union> state_files p S) w1"
    using first loadState_disk(1) [OF d _ X] d by (auto simp: doneW_def split: if_splits)
  show ?thesis
  proof (cases r1)
    case (Done st)
    have orig: "st = fresh \<and> fileAt w p = None \<or> st \<in> S"
      using first Done loadState_disk(2) [OF d _ X] by (auto simp: doneW_def split: if_splits)
    then have ok: "ok_state p st" using fresh S by auto
    show ?thesis
    proof (cases "reconcileState src ms st")
      case (Inl e)
      then have "r = Throw e" "w' = w1"
        using run' Done by (auto simp: throwW_def)
      with d1 show ?thesis by (intro that [of "{}"]) auto
    next
      case (Inr y)
      then obtain st2 changed where rec: "reconcileState src ms st = Inr (st2, changed)"
        by (cases y) auto
      note R = reconcileState_Inr [OF rec]
      have ok2: "ok_state p st2" using R(6) ok src by blast
      then have of: "opened_from p S w st2"
        using orig R(1,2) plain by (auto simp: opened_from_def follows_def)
      have rest: "(if \<not> ?exists \<or> changed then bindW (persistState st2) (\<lambda>_. doneW st2) else doneW st2) w1 = (r, w')"
        using run' Done rec by simp
      show ?thesis
      proof (cases "\<not> ?exists \<or> changed")
        case False
        with rest have "r = Done st2" "w' = w1" by (auto simp: doneW_def split: if_splits)
        with d1 of R(4) R(1) show ?thesis by (intro that [of "{}"]) auto
      next
        case True
        then obtain r2 where p: "persistState st2 w1 = (r2, w')" and "r = Done st \<Longrightarrow> st = st2" for st
          using rest by (cases "persistState st2 w1") (auto simp: bindW_def doneW_def split: outcome.splits)
        from persistState_disk(1) [OF d1 ok2 p] of R(4) R(1) this(2) show ?thesis
          by (intro that [of "{st2}"]) auto
      qed
    qed
  next
    case (Throw e)
    then have "r = Throw e" "w' = w1"
      using run' by simp_all
    with d1 show ?thesis by (intro that [of "{}"]) auto
  next
    case Crash
    then have "r = Crash" "w' = w1"
      using run' by simp_all
    with d1 show ?thesis by (intro that [of "{}"]) auto
  qed
qed

end
