(* ===== verification/ClientSessions.thy ===== *)
theory ClientSessions
  imports ClientState
begin

text \<open>
  The life of \<^verbatim>\<open>client.state\<close> over many runs of the client: processes start, allocate ids, move the
  checkpoint, stop, crash inside a call or lose power at any time. Every message id is given out
  once, in increasing order, and under one client id, as long as the file is left alone.
\<close>

section \<open>Sessions\<close>

record session =
  issued :: "(string \<times> u64) list"
  live :: "ClientState option"
  disk :: world

text \<open>Every call may meet any schedule of system call results, so each step takes its own.\<close>

abbreviation on_disk :: "session \<Rightarrow> sysres list \<Rightarrow> world" where
  "on_disk s rs \<equiv> (disk s)\<lparr>sched := rs\<rparr>"

definition still_live :: "'a outcome \<Rightarrow> ClientState \<Rightarrow> ClientState option" where
  "still_live r st = (if r = Crash then None else Some st)"

inductive client_step :: "path \<Rightarrow> session \<Rightarrow> session \<Rightarrow> bool" for p where
  start: "live s = None \<Longrightarrow> newline \<notin> set src \<Longrightarrow>
    \<forall>m \<in> set ms. plain_id (clientId m) \<Longrightarrow>
    openClientState random p src ms (on_disk s rs) = (r, w) \<Longrightarrow>
    client_step p s (s\<lparr>live := (case r of Done st \<Rightarrow> Some st | _ \<Rightarrow> None), disk := w\<rparr>)"
| allocate: "live s = Some st \<Longrightarrow> nextMessageId st (on_disk s rs) = (r, st', w) \<Longrightarrow>
    client_step p s
      (s\<lparr>issued := issued s @ (case r of Done i \<Rightarrow> [(stClientId st, i)] | _ \<Rightarrow> []),
         live := still_live r st', disk := w\<rparr>)"
| checkpoint: "live s = Some st \<Longrightarrow>
    updateFileCheckpoint off device inode st (on_disk s rs) = (r, st', w) \<Longrightarrow>
    client_step p s (s\<lparr>live := still_live r st', disk := w\<rparr>)"
| stop: "client_step p s (s\<lparr>live := None\<rparr>)"
| lose_power: "power_loss (disk s) w \<Longrightarrow> client_step p s (s\<lparr>live := None, disk := w\<rparr>)"

abbreviation client_reach :: "path \<Rightarrow> session \<Rightarrow> session \<Rightarrow> bool" where
  "client_reach p \<equiv> (client_step p)\<^sup>*\<^sup>*"

definition first_session :: "path \<Rightarrow> session \<Rightarrow> bool" where
  "first_session p s \<longleftrightarrow> issued s = [] \<and> live s = None \<and> disk_within p {None} (disk s)"


section \<open>The invariant\<close>

text \<open>
  Every state the file may hold, and the state in memory, is beyond all ids given out and belongs
  to the client that gave them out; only before the first id may the file still be missing.
\<close>

definition beyond :: "path \<Rightarrow> (string \<times> u64) list \<Rightarrow> ClientState \<Rightarrow> bool" where
  "beyond p out st \<longleftrightarrow> ok_state p st \<and> plain_id (stClientId st) \<and> (\<forall>(c, i) \<in> set out. c = stClientId st \<and> i < stNextId st)"

definition session_inv :: "path \<Rightarrow> session \<Rightarrow> bool" where
  "session_inv p s \<longleftrightarrow>
     (\<exists>X S. X \<subseteq> {None} \<and> (X \<noteq> {} \<longrightarrow> issued s = []) \<and> disk_within p (X \<union> state_files p S) (disk s)
        \<and> (\<forall>st \<in> S. beyond p (issued s) st))
     \<and> (\<forall>st. live s = Some st \<longrightarrow> beyond p (issued s) st)
     \<and> sorted_wrt (<) (map snd (issued s))"

lemma session_invI:
  assumes "X \<subseteq> {None}" and "X \<noteq> {} \<Longrightarrow> issued s = []"
    and "disk_within p (X \<union> state_files p S) (disk s)" and "\<And>st. st \<in> S \<Longrightarrow> beyond p (issued s) st"
    and "\<And>st. live s = Some st \<Longrightarrow> beyond p (issued s) st" and "sorted_wrt (<) (map snd (issued s))"
  shows "session_inv p s"
  using assms unfolding session_inv_def by blast

lemma beyond_Nil [simp]: "beyond p [] st \<longleftrightarrow> ok_state p st \<and> plain_id (stClientId st)"
  by (simp add: beyond_def)

lemma beyond_follows: "beyond p out st \<Longrightarrow> follows p st st' \<Longrightarrow> beyond p out st'"
  by (fastforce simp: beyond_def follows_def)

lemma beyond_snoc:
  assumes "beyond p out st" and "stNextId st \<noteq> - 1"
  shows "beyond p (out @ [(stClientId st, stNextId st)]) (st\<lparr>stNextId := stNextId st + 1\<rparr>)"
  using assms increment_less [OF assms(2)] nextMessageId_ok [of p st]
  by (fastforce simp: beyond_def)

lemma client_step_inv:
  assumes "session_inv p s" and "client_step p s t"
  shows "session_inv p t"
proof -
  obtain X S where X: "X \<subseteq> {None}" "X \<noteq> {} \<Longrightarrow> issued s = []"
    and d: "disk_within p (X \<union> state_files p S) (disk s)" and S: "\<And>st. st \<in> S \<Longrightarrow> beyond p (issued s) st"
    and l: "\<And>st. live s = Some st \<Longrightarrow> beyond p (issued s) st"
    and sorted: "sorted_wrt (<) (map snd (issued s))"
    using assms(1) unfolding session_inv_def by blast
  have d': "disk_within p (X \<union> state_files p S) (on_disk s rs)" for rs using d by simp
  have okS: "\<forall>st \<in> S. ok_state p st" using S by (simp add: beyond_def)
  from assms(2) show ?thesis
  proof cases
    case (start src ms random rs r w)
    from openClientState_disk [OF d' X(1) okS start(3,4,5)]
    obtain T where T: "disk_within p (X \<union> state_files p (T \<union> S)) w"
      "\<forall>s' \<in> T. opened_from p S (on_disk s rs) s'"
      "\<And>st. r = Done st \<Longrightarrow> opened_from p S (on_disk s rs) st" by metis
    have "beyond p (issued s) st" if "opened_from p S (on_disk s rs) st" for st
    proof (cases "fileAt (disk s) p = None")
      case True
      then have "X \<noteq> {}" using d by (auto simp: disk_within_def)
      with X(2) that S show ?thesis by (auto simp: opened_from_def follows_def beyond_def)
    next
      case False
      with that S show ?thesis by (auto simp: opened_from_def intro: beyond_follows)
    qed
    with T S X sorted show ?thesis
      by (intro session_invI [where X = X and S = "T \<union> S"]) (auto simp: start(1) split: outcome.splits)
  next
    case (allocate st rs r st' w)
    have b: "beyond p (issued s) st" using l allocate(2) by simp
    then have ok: "ok_state p st" by (simp add: beyond_def)
    show ?thesis
    proof (cases "\<exists>i. r = Done i")
      case True
      then obtain i where r: "r = Done i" ..
      with allocate(3) have r': "stNextId st \<noteq> - 1" "i = stNextId st" "st' = st\<lparr>stNextId := stNextId st + 1\<rparr>"
        by (auto elim: nextMessageId_cases)
      then have b': "beyond p (issued s @ [(stClientId st, i)]) st'" using beyond_snoc [OF b] by simp
      moreover have "disk_within p (state_files p {st'}) w"
        using nextMessageId_disk(2) [OF d' ok allocate(3) r] .
      moreover have "sorted_wrt (<) (map snd (issued s @ [(stClientId st, i)]))"
        using sorted b r'(2) by (fastforce simp: sorted_wrt_append beyond_def)
      ultimately show ?thesis
        by (intro session_invI [where X = "{}" and S = "{st'}"])
          (auto simp: allocate(1) r still_live_def)
    next
      case False
      obtain T where T: "disk_within p (X \<union> state_files p (T \<union> S)) w"
        "T \<subseteq> {s. s = st\<lparr>stNextId := stNextId st + 1\<rparr> \<and> ok_state p s \<and> stNextId st < stNextId s}"
        using nextMessageId_disk(1) [OF d' ok allocate(3)] by blast
      have "beyond p (issued s) s'" if "s' \<in> T" for s'
        using that T(2) b by (intro beyond_follows [OF b]) (auto simp: follows_def)
      moreover have "st' = st" if "r \<noteq> Crash"
        using allocate(3) False that by (auto elim: nextMessageId_cases)
      ultimately show ?thesis
        using T(1) X S sorted b False
        by (intro session_invI [where X = X and S = "T \<union> S"])
          (auto simp: allocate(1) still_live_def split: outcome.splits if_splits)
    qed
  next
    case (checkpoint st off device inode rs r st' w)
    have b: "beyond p (issued s) st" using l checkpoint(2) by simp
    then have ok: "ok_state p st" by (simp add: beyond_def)
    let ?st = "st\<lparr>stFileOffset := off, stFileDeviceId := device, stFileInode := inode\<rparr>"
    have b': "beyond p (issued s) ?st"
      using b by (intro beyond_follows [OF b]) (auto simp: follows_def ok_state_def beyond_def)
    moreover have "st' = st \<or> st' = ?st" if "r \<noteq> Crash"
      using checkpoint(3) that by (auto elim!: updateFileCheckpoint_cases)
    ultimately show ?thesis
      using updateFileCheckpoint_disk(1) [OF d' ok checkpoint(3)] X S sorted b
      by (intro session_invI [where X = X and S = "insert ?st S"])
        (auto simp: checkpoint(1) still_live_def split: if_splits)
  next
    case stop
    with X d S sorted show ?thesis
      by (intro session_invI [where X = X and S = S]) auto
  next
    case (lose_power w)
    with X disk_within_power_loss [OF d] S sorted show ?thesis
      by (intro session_invI [where X = X and S = S]) auto
  qed
qed

interpretation session_machine: state_machine "client_step p" "session_inv p" for p
  by unfold_locales (rule client_step_inv)

lemma first_session_inv: "first_session p s \<Longrightarrow> session_inv p s"
  by (rule session_invI [where X = "{None}" and S = "{}"]) (auto simp: first_session_def states_of_def)

lemma session_inv_one_client:
  assumes inv: "session_inv p s" and ne: "issued s \<noteq> []"
  shows "\<exists>c. \<forall>x \<in> set (issued s). fst x = c"
proof -
  obtain X S where X: "X \<noteq> {} \<Longrightarrow> issued s = []"
    and d: "disk_within p (X \<union> state_files p S) (disk s)" and S: "\<forall>st \<in> S. beyond p (issued s) st"
    using inv unfolding session_inv_def by blast
  have "X = {}" using X ne by blast
  then have "fileAt (disk s) p \<in> state_files p S" using d by (simp add: disk_within_def)
  then obtain st where "st \<in> S" by (auto simp: states_of_def)
  with S have "beyond p (issued s) st" by blast
  then show ?thesis
    unfolding beyond_def by (intro exI [of _ "stClientId st"]) auto
qed


section \<open>Properties\<close>

text \<open>
  The state file can be read back: what \<^verbatim>\<open>persist\<close> writes, \<^verbatim>\<open>load\<close> parses to the same
  state, for every state whose client id and source path are free of newlines, and a file of the
  older format is read with an unknown file identity.
\<close>

lemma client_state_roundtrip:
  assumes "stClientId st \<noteq> []" and "newline \<notin> set (stClientId st)" and "newline \<notin> set (stSourcePath st)"
    and "stNextId st \<noteq> 0"
  shows "parseState (stPath st) (renderState st) = Inr st
    \<and> parseState (stPath st)
        (LegacyStateMagic @ [newline] @ stClientId st @ [newline] @ decimal (unat (stNextId st)) @ [newline]
         @ decimal (unat (stFileOffset st)) @ [newline] @ stSourcePath st @ [newline])
      = Inr (st\<lparr>stFileDeviceId := 0, stFileInode := 0\<rparr>)"
  using parse_renderState [of "stPath st" st] parse_legacy [of "stClientId st"] assms
  by (simp add: ok_state_def)

definition sample_state :: ClientState where
  "sample_state = \<lparr>stPath = ''s'', stClientId = ''ab'', stNextId = 42, stSourcePath = ''/var/log/app log'',
     stFileOffset = 7, stFileDeviceId = 3, stFileInode = 9\<rparr>"

text \<open>
  Property C10. Starting without a state file and left alone, the client never gives out a message
  id twice: over all restarts, failed calls, crashes and power losses the ids of
  \<^verbatim>\<open>nextMessageId\<close> strictly increase and belong to one client id.
\<close>

theorem client_ids_never_reused:
  assumes "first_session p s" and "client_reach p s t"
  shows "sorted_wrt (<) (map snd (issued t)) \<and> distinct (issued t)
    \<and> (\<exists>c. \<forall>x \<in> set (issued t). fst x = c)"
proof -
  have inv: "session_inv p t"
    using session_machine.invariant [OF assms(2) first_session_inv [OF assms(1)]] .
  then have sorted: "sorted_wrt (<) (map snd (issued t))" by (simp add: session_inv_def)
  then have "distinct (map snd (issued t))" by (simp add: strict_sorted_iff)
  then have "distinct (issued t)" by (simp add: distinct_map)
  moreover have "\<exists>c. \<forall>x \<in> set (issued t). fst x = c"
    using session_inv_one_client [OF inv] by (cases "issued t = []") auto
  ultimately show ?thesis using sorted by blast
qed

text \<open>When no call fails, a client starts and gives out the ids it should.\<close>

lemma persistState_completes:
  "\<exists>w'. persistState st (w\<lparr>sched := replicate (length (renderState st) + 8) (Ok 1)\<rparr>) = (Done (), w')"
  using completesD [OF completes_writeAtomically,
      of "w\<lparr>sched := replicate (length (renderState st) + 8) (Ok 1)\<rparr>" "bytes_of_string (renderState st)" "stPath st"]
  by (simp add: persistState_def)

lemma start_completes:
  assumes "first_session p s" and "p \<noteq> []" and "src \<noteq> []" and "newline \<notin> set src"
  shows "\<exists>st w. client_step p s (s\<lparr>live := Some st, disk := w\<rparr>) \<and> stNextId st = 1"
proof -
  define st where "st = \<lparr>stPath = p, stClientId = generateClientId (\<lambda>_. 0), stNextId = 1, stSourcePath = src,
     stFileOffset = 0, stFileDeviceId = 0, stFileInode = 0\<rparr>"
  let ?rs = "replicate (length (renderState st) + 8) (Ok 1)"
  obtain w where "persistState st (on_disk s ?rs) = (Done (), w)"
    using persistState_completes by blast
  moreover have "fileAt (disk s) p = None"
    using assms(1) by (simp add: first_session_def disk_within_def)
  ultimately have "openClientState (\<lambda>_. 0) p src [] (on_disk s ?rs) = (Done st, w)"
    using assms(2,3)
    by (simp add: openClientState_def reconcileState_def st_def Let_def bindW_def doneW_def)
  then have "client_step p s (s\<lparr>live := Some st, disk := w\<rparr>)"
    using client_step.start [of s src "[]" "\<lambda>_. 0" p ?rs "Done st" w] assms(1,4)
    by (simp add: first_session_def)
  then show ?thesis by (auto simp: st_def)
qed

lemma allocate_completes:
  assumes "live s = Some st" and "stNextId st \<noteq> - 1"
  shows "\<exists>w. client_step p s (s\<lparr>issued := issued s @ [(stClientId st, stNextId st)],
     live := Some (st\<lparr>stNextId := stNextId st + 1\<rparr>), disk := w\<rparr>)"
proof -
  let ?st = "st\<lparr>stNextId := stNextId st + 1\<rparr>"
  let ?rs = "replicate (length (renderState ?st) + 8) (Ok 1)"
  obtain w where "persistState ?st (on_disk s ?rs) = (Done (), w)"
    using persistState_completes by blast
  then have "nextMessageId st (on_disk s ?rs) = (Done (stNextId st), ?st, w)"
    using assms(2) by (simp add: nextMessageId_def Let_def)
  from client_step.allocate [OF assms(1) this, of p] show ?thesis
    by (auto simp: still_live_def)
qed

definition sample_disk :: world where
  "sample_disk = \<lparr>curDir = Map.empty, dirHist = [Map.empty], fileData = (\<lambda>_. []), fileSynced = (\<lambda>_. []),
     nextInode = 0, sched = []\<rparr>"

lemma sample_disk_within: "disk_within p {None} sample_disk"
  by (auto simp: disk_within_def sample_disk_def owns_file_def wf_world_def inodesOf_def fileAt_def
      surviving_iff)

lemma client_ids_never_reused_witness:
  "\<exists>s t c. first_session ''s'' s \<and> client_reach ''s'' s t \<and> issued t = [(c, 1), (c, 2)]
    \<and> sorted_wrt (<) (map snd (issued t))"
proof -
  let ?s = "\<lparr>issued = [], live = None, disk = sample_disk\<rparr>"
  have s: "first_session ''s'' ?s"
    using sample_disk_within by (simp add: first_session_def)
  obtain st w where 1: "client_step ''s'' ?s (?s\<lparr>live := Some st, disk := w\<rparr>)" "stNextId st = 1"
    using start_completes [OF s, of "''a.log''"] by auto
  then obtain w2 where 2: "client_step ''s'' (?s\<lparr>live := Some st, disk := w\<rparr>)
      \<lparr>issued = [(stClientId st, 1)], live = Some (st\<lparr>stNextId := 2\<rparr>), disk = w2\<rparr>"
    using allocate_completes [of "?s\<lparr>live := Some st, disk := w\<rparr>" st "''s''"] by auto
  then obtain w3 where 3: "client_step ''s'' \<lparr>issued = [(stClientId st, 1)], live = Some (st\<lparr>stNextId := 2\<rparr>), disk = w2\<rparr>
      \<lparr>issued = [(stClientId st, 1), (stClientId st, 2)], live = Some (st\<lparr>stNextId := 3\<rparr>), disk = w3\<rparr>"
    using allocate_completes [of "\<lparr>issued = [(stClientId st, 1)], live = Some (st\<lparr>stNextId := 2\<rparr>), disk = w2\<rparr>"
        "st\<lparr>stNextId := 2\<rparr>" "''s''"] by auto
  have "client_reach ''s'' ?s \<lparr>issued = [(stClientId st, 1), (stClientId st, 2)], live = Some (st\<lparr>stNextId := 3\<rparr>), disk = w3\<rparr>"
    using 1(1) 2 3 by (meson reach_intros)
  with client_ids_never_reused [OF s this] s show ?thesis by fastforce
qed

end
