(* ===== verification/DedupStore.thy ===== *)
theory DedupStore
  imports TextIO Durability
begin

text \<open>
  \<^verbatim>\<open>src/src/DedupStore.cpp\<close>: the largest confirmed message id of every client, kept in
  \<^verbatim>\<open>dedup.state\<close>. The watermark of a client only grows, the memory is never ahead of the disk, and
  a restart finds either the last stored table or the one before it.
\<close>

section \<open>The code\<close>

text \<open>\<^verbatim>\<open>std::map<std::string, std::uint64_t>\<close> in its iteration order, as a list with ascending keys.\<close>

type_synonym watermarks = "(string \<times> u64) list"

definition find_mark :: "watermarks \<Rightarrow> string \<Rightarrow> u64 option" where
  "find_mark m c = map_of m c"

fun put_mark :: "string \<Rightarrow> u64 \<Rightarrow> watermarks \<Rightarrow> watermarks" where
  "put_mark c v [] = [(c, v)]"
| "put_mark c v ((d, u) # m) =
     (if c < d then (c, v) # (d, u) # m
      else if c = d then (c, v) # m
      else (d, u) # put_mark c v m)"

record DedupStore =
  ddPath :: path
  confirmed :: watermarks

definition DedupMagic :: string where "DedupMagic = ''LGBDEDUP1''"

definition highestConfirmed :: "DedupStore \<Rightarrow> string \<Rightarrow> u64" where
  "highestConfirmed st client =
     (case find_mark (confirmed st) client of None \<Rightarrow> 0 | Some v \<Rightarrow> v)"

definition renderMarks :: "watermarks \<Rightarrow> string" where
  "renderMarks m =
     DedupMagic @ [newline]
     @ concat (map (\<lambda>(c, v). c @ CHR '' '' # decimal (unat v) @ [newline]) m)"

definition persistMarks :: "DedupStore \<Rightarrow> watermarks \<Rightarrow> unit io" where
  "persistMarks st m = writeAtomically (ddPath st) (bytes_of_string (renderMarks m))"

definition confirmMark :: "string \<Rightarrow> u64 \<Rightarrow> (DedupStore, u64) meth" where
  "confirmMark client confirmedId st w =
     (if client = [] \<or> confirmedId = 0
      then (Throw (InvalidArgument ''client ID and confirmed ID cannot be empty''), st, w)
      else
        (let current = (case find_mark (confirmed st) client of None \<Rightarrow> 0 | Some v \<Rightarrow> v)
         in if confirmedId \<le> current then (Done current, st, w)
            else
              (let updated = put_mark client confirmedId (confirmed st)
               in case persistMarks st updated w of
                    (Done _, w') \<Rightarrow> (Done confirmedId, st\<lparr>confirmed := updated\<rparr>, w')
                  | (Throw e, w') \<Rightarrow> (Throw e, st, w')
                  | (Crash, w') \<Rightarrow> (Crash, st, w'))))"

text \<open>
  \<^verbatim>\<open>while (input >> clientId >> confirmedId)\<close>: the stream and the two variables are the state of
  the loop. Every round that goes on has consumed at least one character.
\<close>

lemma extractUint64_consumes:
  assumes "extractUint64 s old = (s', v)" and "\<not> failbit s'"
  shows "length (rest s') < length (rest s)"
proof -
  have tl: "length (dropWhile isDigit body) < length cs"
    if "takeWhile isDigit body \<noteq> []" "length body \<le> length cs" for body cs
  proof -
    have "length (dropWhile isDigit body) < length body"
      using that(1) by (cases body) (auto simp: length_dropWhile_le less_Suc_eq_le split: if_splits)
    with that(2) show ?thesis by simp
  qed
  have "\<not> failbit (sentry s)" using assms by (auto simp: extractUint64_def Let_def split: if_splits)
  then have "length (rest (sentry s)) \<le> length (rest s)"
    by (auto simp: sentry_def Let_def length_dropWhile_le split: if_splits)
  moreover have "length (rest s') < length (rest (sentry s))"
    using assms \<open>\<not> failbit (sentry s)\<close>
    by (auto simp: extractUint64_def scanNumber_def Let_def intro!: tl split: if_splits)
  ultimately show ?thesis by simp
qed

lemma extractString_shrinks: "extractString s old = (s', v) \<Longrightarrow> length (rest s') \<le> length (rest s)"
proof -
  assume "extractString s old = (s', v)"
  moreover have "length (rest (sentry s)) \<le> length (rest s)"
    by (auto simp: sentry_def Let_def length_dropWhile_le)
  ultimately show ?thesis
    using length_dropWhile_le [of "\<lambda>c. \<not> isSpace c" "rest (sentry s)"]
    by (auto simp: extractString_def Let_def split: if_splits)
qed

function loadRecords :: "istream \<Rightarrow> string \<Rightarrow> u64 \<Rightarrow> watermarks \<Rightarrow> (istream \<times> watermarks) result" where
  "loadRecords s client confirmedId m =
     (let (s1, client1) = extractString s client;
          (s2, confirmedId1) = extractUint64 s1 confirmedId
      in if failbit s2 then Inr (s2, m)
         else if client1 = [] \<or> confirmedId1 = 0 \<or> find_mark m client1 \<noteq> None
         then Inl (RuntimeError ''invalid dedup state record'')
         else loadRecords s2 client1 confirmedId1 (put_mark client1 confirmedId1 m))"
  by pat_completeness auto
termination
  by (relation "measure (\<lambda>(s, _). length (rest s))")
    (auto dest!: extractUint64_consumes [OF sym] extractString_shrinks [OF sym])

declare loadRecords.simps [simp del]

definition parseMarks :: "string \<Rightarrow> watermarks result" where
  "parseMarks txt =
     (let (s1, magic) = getline (istringstream txt) []
      in if failbit s1 \<or> magic \<noteq> DedupMagic then Inl (RuntimeError ''invalid dedup state file'')
         else bindR (loadRecords s1 [] 0 []) (\<lambda>(s2, m).
           if \<not> eofbit s2 then Inl (RuntimeError ''cannot parse dedup state file'') else Inr m))"

definition openDedupStore :: "path \<Rightarrow> DedupStore io" where
  "openDedupStore p w =
     (if p = [] then throwW (InvalidArgument ''dedup state path cannot be empty'') w
      else if fileAt w p = None then doneW \<lparr>ddPath = p, confirmed = []\<rparr> w
      else bindW (readFile p) (\<lambda>bs.
           bindW (liftR (parseMarks (string_of_bytes bs))) (\<lambda>m.
             doneW \<lparr>ddPath = p, confirmed = m\<rparr>)) w)"


section \<open>The table\<close>

definition ordered :: "watermarks \<Rightarrow> bool" where
  "ordered m \<longleftrightarrow> sorted_wrt (<) (map fst m)"

lemma ordered_simps [simp]:
  "ordered []" "ordered ((c, v) # m) \<longleftrightarrow> (\<forall>d \<in> fst ` set m. c < d) \<and> ordered m"
  by (auto simp: ordered_def)

lemma fst_put_mark: "fst ` set (put_mark c v m) = insert c (fst ` set m)"
  by (induction m rule: put_mark.induct) auto

lemma ordered_put_mark: "ordered m \<Longrightarrow> ordered (put_mark c v m)"
  by (induction c v m rule: put_mark.induct) (auto simp: fst_put_mark)

lemma find_put_mark [simp]:
  "ordered m \<Longrightarrow> find_mark (put_mark c v m) d = (if d = c then Some v else find_mark m d)"
proof (induction c v m rule: put_mark.induct)
  case (2 c v d' u m)
  have "find_mark m c = None" if "c < d'"
    using 2(2) that by (force simp: find_mark_def map_of_eq_None_iff)
  with 2 show ?case by (auto simp: find_mark_def)
qed (simp add: find_mark_def)

lemma put_mark_last:
  "ordered (m @ [(c, v)]) \<Longrightarrow> put_mark c v m = m @ [(c, v)]"
  by (induction m) (auto simp: ordered_def)

lemma find_mark_last: "ordered (m @ [(c, v)]) \<Longrightarrow> find_mark m c = None"
  by (auto simp: find_mark_def map_of_eq_None_iff ordered_def sorted_wrt_append)



section \<open>Rendering and parsing\<close>

text \<open>
  The tables whose file can be read back: ids without whitespace. The protocol only asks that a
  client id is not empty; the clients of this code use 32 hexadecimal digits.
\<close>

definition ok_marks :: "watermarks \<Rightarrow> bool" where
  "ok_marks m \<longleftrightarrow> ordered m \<and> (\<forall>(c, v) \<in> set m. plain_id c \<and> v \<noteq> 0)"

definition renderLines :: "watermarks \<Rightarrow> string" where
  "renderLines m = concat (map (\<lambda>(c, v). c @ CHR '' '' # decimal (unat v) @ [newline]) m)"

lemma renderLines_simps [simp]:
  "renderLines [] = []"
  "renderLines ((c, v) # m) = c @ CHR '' '' # decimal (unat v) @ newline # renderLines m"
  by (simp_all add: renderLines_def)

lemma ok_marks_put: "ok_marks m \<Longrightarrow> plain_id c \<Longrightarrow> v \<noteq> 0 \<Longrightarrow> ok_marks (put_mark c v m)"
proof -
  have "set (put_mark c v m) \<subseteq> insert (c, v) (set m)"
    by (induction c v m rule: put_mark.induct) auto
  then show "ok_marks m \<Longrightarrow> plain_id c \<Longrightarrow> v \<noteq> 0 \<Longrightarrow> ok_marks (put_mark c v m)"
    by (auto simp: ok_marks_def ordered_put_mark)
qed

text \<open>
  One line, from the newline that ends the previous one (or from the start) on; the loop sees the
  line's number followed by a newline, so it never reaches the end of the input inside a record.
\<close>

lemma loadRecords_line:
  assumes "plain_id c" and "v \<noteq> 0" and "find_mark m c = None" and "pre \<in> {[], [newline]}"
  shows "loadRecords \<lparr>rest = pre @ c @ CHR '' '' # decimal (unat v) @ newline # cs,
             eofbit = False, failbit = False\<rparr> c0 v0 m
    = loadRecords \<lparr>rest = newline # cs, eofbit = False, failbit = False\<rparr> c v (put_mark c v m)"
proof -
  have "extractString \<lparr>rest = pre @ c @ CHR '' '' # decimal (unat v) @ newline # cs, eofbit = False, failbit = False\<rparr> c0
    = (\<lparr>rest = CHR '' '' # decimal (unat v) @ newline # cs, eofbit = False, failbit = False\<rparr>, c)"
    using assms(1,4) by (auto simp: plain_id_def extractString_skip extractString_word)
  moreover have "unat v < 2 ^ 64" using unsigned_less [of v] by simp
  ultimately show ?thesis
    using assms(1-3) extractUint64_decimal [of "unat v" newline "CHR '' ''" cs v0]
    by (subst loadRecords.simps) (simp add: plain_id_def)
qed

lemma loadRecords_end:
  assumes "pre \<in> {[], [newline]}"
  shows "loadRecords \<lparr>rest = pre, eofbit = False, failbit = False\<rparr> c v m
    = Inr (\<lparr>rest = [], eofbit = True, failbit = True\<rparr>, m)"
  using assms by (subst loadRecords.simps) (auto simp: extractString_skip)

lemma loadRecords_lines:
  assumes "ok_marks (done @ m)" and "pre \<in> {[], [newline]}"
  shows "loadRecords \<lparr>rest = pre @ renderLines m, eofbit = False, failbit = False\<rparr> c v done
    = Inr (\<lparr>rest = [], eofbit = True, failbit = True\<rparr>, done @ m)"
  using assms
proof (induction m arbitrary: pre c v "done")
  case Nil
  then show ?case using loadRecords_end [of pre] by simp
next
  case (Cons x m)
  obtain d u where x: "x = (d, u)" by (cases x)
  have "ok_marks ((done @ [(d, u)]) @ m)" using Cons.prems(1) x by simp
  moreover from this have o: "ordered (done @ [(d, u)])" and plain: "plain_id d" "u \<noteq> 0"
    by (auto simp: ok_marks_def ordered_def sorted_wrt_append)
  ultimately show ?case
    using Cons.IH [of "done @ [(d, u)]" "[newline]" d u]
      loadRecords_line [OF plain find_mark_last [OF o] Cons.prems(2)]
    by (simp add: x put_mark_last [OF o])
qed

lemma parse_renderMarks:
  assumes "ok_marks m"
  shows "parseMarks (renderMarks m) = Inr m"
proof -
  have "newline \<notin> set DedupMagic" by (simp add: DedupMagic_def)
  then have "getline (istringstream (renderMarks m)) []
    = (\<lparr>rest = renderLines m, eofbit = False, failbit = False\<rparr>, DedupMagic)"
    by (simp add: istringstream_def renderMarks_def renderLines_def getline_line)
  then show ?thesis
    using loadRecords_lines [of "[]" m "[]"] assms by (simp add: parseMarks_def)
qed

interpretation dedup_file: snapshot_file
  "\<lambda>m. bytes_of_string (renderMarks m)" "\<lambda>bs. parseMarks (string_of_bytes bs)" ok_marks
  by unfold_locales (simp add: parse_renderMarks)


section \<open>What the operations leave\<close>

abbreviation mark_files :: "watermarks set \<Rightarrow> ByteBuffer option set" where
  "mark_files S \<equiv> states_of (\<lambda>bs. parseMarks (string_of_bytes bs)) S"

lemma confirmMark_cases:
  assumes "confirmMark c i st w = (r, st', w')"
  obtains (refused) "c = [] \<or> i = 0" "\<exists>e. r = Throw e" "st' = st" "w' = w"
  | (old) "c \<noteq> []" "i \<le> highestConfirmed st c" "r = Done (highestConfirmed st c)" "st' = st" "w' = w"
  | (stored) "c \<noteq> []" "i \<noteq> 0" "highestConfirmed st c < i" "r = Done i" "st' = st\<lparr>confirmed := put_mark c i (confirmed st)\<rparr>"
      "persistMarks st (put_mark c i (confirmed st)) w = (Done (), w')"
  | (failed) r0 where "c \<noteq> []" "i \<noteq> 0" "highestConfirmed st c < i" "\<And>j. r \<noteq> Done j" "st' = st"
      "persistMarks st (put_mark c i (confirmed st)) w = (r0, w')"
proof (cases "c = [] \<or> i = 0")
  case True
  with assms show ?thesis by (intro refused) (auto simp: confirmMark_def)
next
  case F: False
  show ?thesis
  proof (cases "i \<le> highestConfirmed st c")
    case True
    with assms F show ?thesis
      by (intro old) (auto simp: confirmMark_def highestConfirmed_def Let_def)
  next
    case False
    obtain r0 w1 where p: "persistMarks st (put_mark c i (confirmed st)) w = (r0, w1)"
      by (rule prod.exhaust)
    have "confirmMark c i st w =
      (case r0 of Done _ \<Rightarrow> (Done i, st\<lparr>confirmed := put_mark c i (confirmed st)\<rparr>, w1)
       | Throw e \<Rightarrow> (Throw e, st, w1) | Crash \<Rightarrow> (Crash, st, w1))"
      using F False p by (simp add: confirmMark_def highestConfirmed_def Let_def)
    with assms F False p show ?thesis
      by (cases r0) (auto simp: not_le intro: stored failed)
  qed
qed

lemma highestConfirmed_put:
  "ordered (confirmed st) \<Longrightarrow>
   highestConfirmed (st\<lparr>confirmed := put_mark c v (confirmed st)\<rparr>) d = (if d = c then v else highestConfirmed st d)"
  by (simp add: highestConfirmed_def)

lemma confirmMark_disk:
  assumes d: "disk_within (ddPath st) (X \<union> mark_files S) w" and ok: "ok_marks (confirmed st)"
    and c: "plain_id c" and run: "confirmMark c i st w = (r, st', w')"
  shows "\<exists>T. T \<subseteq> {put_mark c i (confirmed st)} \<and> disk_within (ddPath st) (X \<union> mark_files (T \<union> S)) w'"
    and "r = Done j \<Longrightarrow> st' \<noteq> st \<Longrightarrow> disk_within (ddPath st) (mark_files {confirmed st'}) w'"
    and "ok_marks (confirmed st')" and "ddPath st' = ddPath st"
proof -
  note ok' = ok_marks_put [OF ok c, of i]
  have save: "disk_within (ddPath st) (X \<union> mark_files (insert (put_mark c i (confirmed st)) S)) w1 \<and>
      (r1 = Done () \<longrightarrow> disk_within (ddPath st) (mark_files {put_mark c i (confirmed st)}) w1)"
    if "i \<noteq> 0" "persistMarks st (put_mark c i (confirmed st)) w = (r1, w1)" for r1 w1
    using dedup_file.saving [OF d ok'] that by (simp add: persistMarks_def)
  from run show "\<exists>T. T \<subseteq> {put_mark c i (confirmed st)} \<and> disk_within (ddPath st) (X \<union> mark_files (T \<union> S)) w'"
  proof (cases rule: confirmMark_cases)
    case refused
    with d show ?thesis by (intro exI [of _ "{}"]) simp
  next
    case old
    with d show ?thesis by (intro exI [of _ "{}"]) simp
  next
    case stored
    with save show ?thesis by (intro exI [of _ "{put_mark c i (confirmed st)}"]) auto
  next
    case failed
    with save show ?thesis by (intro exI [of _ "{put_mark c i (confirmed st)}"]) auto
  qed
  from run show "disk_within (ddPath st) (mark_files {confirmed st'}) w'" if "r = Done j" "st' \<noteq> st"
    by (cases rule: confirmMark_cases) (use that save in auto)
  from run show "ok_marks (confirmed st')" "ddPath st' = ddPath st"
    by (cases rule: confirmMark_cases; use ok ok' in auto)+
qed

lemma openDedupStore_disk:
  assumes d: "disk_within p (X \<union> mark_files S) w" and X: "X \<subseteq> {None}"
    and run: "openDedupStore p w = (r, w')"
  shows "disk_within p (X \<union> mark_files S) w'"
    and "r = Done st \<Longrightarrow> ddPath st = p \<and> (confirmed st \<in> S \<or> confirmed st = [] \<and> None \<in> X)"
    and "r \<noteq> Throw (RuntimeError ''invalid dedup state file'')"
    and "r \<noteq> Throw (RuntimeError ''invalid dedup state record'')"
    and "r \<noteq> Throw (RuntimeError ''cannot parse dedup state file'')"
proof -
  consider (bad) "p = []" | (none) "p \<noteq> []" "fileAt w p = None" | (some) "p \<noteq> []" "fileAt w p \<noteq> None" by blast
  then have "disk_within p (X \<union> mark_files S) w' \<and>
     (\<forall>st. r = Done st \<longrightarrow> ddPath st = p \<and> (confirmed st \<in> S \<or> confirmed st = [] \<and> None \<in> X)) \<and>
     r \<noteq> Throw (RuntimeError ''invalid dedup state file'') \<and>
     r \<noteq> Throw (RuntimeError ''invalid dedup state record'') \<and>
     r \<noteq> Throw (RuntimeError ''cannot parse dedup state file'')"
  proof cases
    case bad
    with run d show ?thesis by (auto simp: openDedupStore_def throwW_def)
  next
    case none
    with run d show ?thesis by (auto simp: openDedupStore_def doneW_def disk_within_def)
  next
    case some
    obtain r0 w0 where r0: "readFile p w = (r0, w0)" by (rule prod.exhaust)
    have d0: "disk_within p (X \<union> mark_files S) w0"
      using readFile_disk [OF r0 d] .
    show ?thesis
    proof (cases r0)
      case (Done bs)
      then have "fileAt w p = Some bs"
        using readFile_result(2) [OF r0 Done] some by (auto simp: contents_def)
      then obtain m where "m \<in> S" "parseMarks (string_of_bytes bs) = Inr m"
        using d X by (auto simp: disk_within_def)
      with run some r0 Done d0 show ?thesis
        by (auto simp: openDedupStore_def bindW_def doneW_def)
    next
      case (Throw e)
      then have "e \<noteq> RuntimeError ''invalid dedup state file''" "e \<noteq> RuntimeError ''invalid dedup state record''"
        "e \<noteq> RuntimeError ''cannot parse dedup state file''"
        using readFile_throws [OF r0 [unfolded Throw]] by auto
      with run some r0 Throw d0 show ?thesis
        by (auto simp: openDedupStore_def bindW_def)
    next
      case Crash
      with run some r0 d0 show ?thesis
        by (auto simp: openDedupStore_def bindW_def)
    qed
  qed
  then show "disk_within p (X \<union> mark_files S) w'"
    and "r = Done st \<Longrightarrow> ddPath st = p \<and> (confirmed st \<in> S \<or> confirmed st = [] \<and> None \<in> X)"
    and "r \<noteq> Throw (RuntimeError ''invalid dedup state file'')"
    and "r \<noteq> Throw (RuntimeError ''invalid dedup state record'')"
    and "r \<noteq> Throw (RuntimeError ''cannot parse dedup state file'')"
    by blast+
qed

end
