(* ===== verification/DedupSessions.thy ===== *)
theory DedupSessions
  imports DedupStore
begin

text \<open>
  The life of \<^verbatim>\<open>dedup.state\<close> over many runs of the server: whatever calls fail and whenever the
  process dies or power is lost, a watermark that \<^verbatim>\<open>confirm\<close> stored and returned is never
  forgotten, and the file can always be opened again.
\<close>

section \<open>Sessions\<close>

record dedup_session =
  promised :: "(string \<times> u64) list"
  store :: "DedupStore option"
  storage :: world

text \<open>\<open>promised\<close> lists the watermarks that \<^verbatim>\<open>confirm\<close> advanced and returned.\<close>

inductive dedup_step :: "path \<Rightarrow> dedup_session \<Rightarrow> dedup_session \<Rightarrow> bool" for p where
  open_store: "store s = None \<Longrightarrow> openDedupStore p ((storage s)\<lparr>sched := rs\<rparr>) = (r, w) \<Longrightarrow>
    dedup_step p s (s\<lparr>store := (case r of Done st \<Rightarrow> Some st | _ \<Rightarrow> None), storage := w\<rparr>)"
| confirm: "store s = Some st \<Longrightarrow> plain_id c \<Longrightarrow>
    confirmMark c i st ((storage s)\<lparr>sched := rs\<rparr>) = (r, st', w) \<Longrightarrow>
    dedup_step p s
      (s\<lparr>promised := promised s @ (if r = Done i \<and> highestConfirmed st c < i then [(c, i)] else []),
         store := (if r = Crash then None else Some st'), storage := w\<rparr>)"
| stop: "dedup_step p s (s\<lparr>store := None\<rparr>)"
| lose_power: "power_loss (storage s) w \<Longrightarrow> dedup_step p s (s\<lparr>store := None, storage := w\<rparr>)"

abbreviation dedup_reach :: "path \<Rightarrow> dedup_session \<Rightarrow> dedup_session \<Rightarrow> bool" where
  "dedup_reach p \<equiv> (dedup_step p)\<^sup>*\<^sup>*"

definition first_dedup :: "path \<Rightarrow> dedup_session \<Rightarrow> bool" where
  "first_dedup p s \<longleftrightarrow> promised s = [] \<and> store s = None \<and> disk_within p {None} (storage s)"


section \<open>The invariant\<close>

definition mark :: "watermarks \<Rightarrow> string \<Rightarrow> u64" where
  "mark m c = (case find_mark m c of None \<Rightarrow> 0 | Some v \<Rightarrow> v)"

lemma highestConfirmed_mark: "highestConfirmed st c = mark (confirmed st) c"
  by (simp add: highestConfirmed_def mark_def)

definition keeps :: "(string \<times> u64) list \<Rightarrow> watermarks \<Rightarrow> bool" where
  "keeps out m \<longleftrightarrow> ok_marks m \<and> (\<forall>(c, i) \<in> set out. i \<le> mark m c)"

definition dedup_inv :: "path \<Rightarrow> dedup_session \<Rightarrow> bool" where
  "dedup_inv p s \<longleftrightarrow>
     (\<exists>X S. X \<subseteq> {None} \<and> (X \<noteq> {} \<longrightarrow> promised s = []) \<and> disk_within p (X \<union> mark_files S) (storage s)
        \<and> (\<forall>m \<in> S. keeps (promised s) m))
     \<and> (\<forall>st. store s = Some st \<longrightarrow> ddPath st = p \<and> keeps (promised s) (confirmed st))"

lemma dedup_invI:
  assumes "X \<subseteq> {None}" and "X \<noteq> {} \<Longrightarrow> promised s = []"
    and "disk_within p (X \<union> mark_files S) (storage s)" and "\<And>m. m \<in> S \<Longrightarrow> keeps (promised s) m"
    and "\<And>st. store s = Some st \<Longrightarrow> ddPath st = p \<and> keeps (promised s) (confirmed st)"
  shows "dedup_inv p s"
  using assms unfolding dedup_inv_def by blast

lemma keeps_Nil [simp]: "keeps [] m \<longleftrightarrow> ok_marks m"
  by (simp add: keeps_def)

lemma ok_marks_ordered: "ok_marks m \<Longrightarrow> ordered m"
  by (simp add: ok_marks_def)

lemma mark_put: "ordered m \<Longrightarrow> mark (put_mark c i m) d = (if d = c then i else mark m d)"
  by (simp add: mark_def)

lemma keeps_put:
  assumes "keeps out m" and "plain_id c" and "i \<noteq> 0" and "mark m c < i"
  shows "keeps (out @ [(c, i)]) (put_mark c i m)" and "keeps out (put_mark c i m)"
proof -
  have "ok_marks m" using assms(1) by (simp add: keeps_def)
  with assms ok_marks_put [of m c i] ok_marks_ordered [of m]
  show "keeps (out @ [(c, i)]) (put_mark c i m)" and "keeps out (put_mark c i m)"
    by (fastforce simp: keeps_def mark_put)+
qed

lemma dedup_step_inv:
  assumes "dedup_inv p s" and "dedup_step p s t"
  shows "dedup_inv p t"
proof -
  obtain X S where X: "X \<subseteq> {None}" "X \<noteq> {} \<Longrightarrow> promised s = []"
    and d: "disk_within p (X \<union> mark_files S) (storage s)" and S: "\<And>m. m \<in> S \<Longrightarrow> keeps (promised s) m"
    and l: "\<And>st. store s = Some st \<Longrightarrow> ddPath st = p \<and> keeps (promised s) (confirmed st)"
    using assms(1) unfolding dedup_inv_def by blast
  have d': "disk_within p (X \<union> mark_files S) ((storage s)\<lparr>sched := rs\<rparr>)" for rs using d by simp
  from assms(2) show ?thesis
  proof cases
    case (open_store rs r w)
    note o = openDedupStore_disk [OF d' X(1) open_store(3)]
    have "ddPath st = p \<and> keeps (promised s) (confirmed st)" if "r = Done st" for st
    proof -
      have "promised s = []" if "None \<in> X" using that X(2) by blast
      with o(2) [OF that] S show ?thesis by (auto simp: ok_marks_def)
    qed
    with o(1) X S show ?thesis
      by (intro dedup_invI [where X = X and S = S]) (auto simp: open_store(1) split: outcome.splits)
  next
    case (confirm st c i rs r st' w)
    have st: "ddPath st = p" "keeps (promised s) (confirmed st)" using l confirm(2) by auto
    then have ok: "ok_marks (confirmed st)" by (simp add: keeps_def)
    note D = confirmMark_disk [OF d' [folded st(1)] ok confirm(3,4)]
    show ?thesis
    proof (cases "r = Done i \<and> highestConfirmed st c < i")
      case True
      then have st': "st' = st\<lparr>confirmed := put_mark c i (confirmed st)\<rparr>" "i \<noteq> 0" "st' \<noteq> st"
        using confirm(4) highestConfirmed_put [of st c i c] ok_marks_ordered [OF ok]
        by (auto elim!: confirmMark_cases)
      have "keeps (promised s @ [(c, i)]) (put_mark c i (confirmed st))"
        using keeps_put(1) [OF st(2) confirm(3) st'(2)] True by (simp add: highestConfirmed_mark)
      moreover have "disk_within p (mark_files {confirmed st'}) w"
        using D(2) [OF conjunct1 [OF True] st'(3)] st(1) by simp
      ultimately show ?thesis
        using True st'(1) st(1)
        by (intro dedup_invI [where X = "{}" and S = "{put_mark c i (confirmed st)}"])
          (auto simp: confirm(1))
    next
      case False
      obtain T where T: "T \<subseteq> {put_mark c i (confirmed st)}" "disk_within p (X \<union> mark_files (T \<union> S)) w"
        using D(1) st(1) by auto
      have "st' = st"
        using confirm(4) False by (auto elim!: confirmMark_cases)
      have "disk_within p (X \<union> mark_files S) w \<or> keeps (promised s) (put_mark c i (confirmed st))"
        using confirm(4)
      proof (cases rule: confirmMark_cases)
        case stored
        then show ?thesis using False by simp
      next
        case failed
        then show ?thesis using keeps_put(2) [OF st(2) confirm(3)] by (simp add: highestConfirmed_mark)
      qed (use d' in auto)
      then obtain U where "disk_within p (X \<union> mark_files U) w" "\<And>m. m \<in> U \<Longrightarrow> keeps (promised s) m"
        using S T by blast
      then show ?thesis
        using X st \<open>st' = st\<close> False
        by (intro dedup_invI [where X = X and S = U]) (auto simp: confirm(1) split: if_splits)
    qed
  next
    case stop
    with X d S show ?thesis by (intro dedup_invI [where X = X and S = S]) auto
  next
    case (lose_power w)
    with X disk_within_power_loss [OF d] S show ?thesis
      by (intro dedup_invI [where X = X and S = S]) auto
  qed
qed

interpretation dedup_machine: state_machine "dedup_step p" "dedup_inv p" for p
  by unfold_locales (rule dedup_step_inv)

lemma first_dedup_inv: "first_dedup p s \<Longrightarrow> dedup_inv p s"
  by (rule dedup_invI [where X = "{None}" and S = "{}"]) (auto simp: first_dedup_def states_of_def)


section \<open>Ids with whitespace\<close>

text \<open>
  The protocol accepts any non-empty client id. An id made of a plain id, a number, a newline and
  another plain id is written as two lines, and the next run of the server reads back a watermark
  of the second id that this client never confirmed.
\<close>

lemma forged_watermark:
  assumes "plain_id c" and "plain_id victim" and "c \<noteq> victim" and "v \<noteq> 0" and "i \<noteq> 0"
  shows "parseMarks (renderMarks [(c @ CHR '' '' # decimal (unat v) @ newline # victim, i)])
    = Inr (put_mark victim i [(c, v)])"
proof -
  let ?in = "\<lambda>cs. \<lparr>rest = cs, eofbit = False, failbit = False\<rparr>"
  have "newline \<notin> set DedupMagic" by (simp add: DedupMagic_def)
  then have "getline (istringstream (renderMarks [(c @ CHR '' '' # decimal (unat v) @ newline # victim, i)])) []
    = (?in (c @ CHR '' '' # decimal (unat v) @ newline # victim @ CHR '' '' # decimal (unat i) @ [newline]), DedupMagic)"
    by (simp add: istringstream_def renderMarks_def getline_line)
  moreover have "loadRecords (?in (c @ CHR '' '' # decimal (unat v) @ newline # victim @ CHR '' '' # decimal (unat i) @ [newline])) [] 0 []
    = loadRecords (?in ([newline] @ victim @ CHR '' '' # decimal (unat i) @ newline # [])) c v [(c, v)]"
    using loadRecords_line [OF assms(1,4), of "[]" "[]" "victim @ CHR '' '' # decimal (unat i) @ [newline]" "[]" 0]
    by (simp add: find_mark_def)
  moreover have "\<dots> = loadRecords (?in [newline]) victim i (put_mark victim i [(c, v)])"
    using assms(3) by (intro loadRecords_line [OF assms(2,5)]) (auto simp: find_mark_def)
  ultimately show ?thesis
    by (simp add: parseMarks_def loadRecords_end)
qed


section \<open>Properties\<close>

text \<open>
  The table of watermarks can be read back: what \<^verbatim>\<open>persist\<close> writes for ids without
  whitespace, \<^verbatim>\<open>load\<close> parses to the same table.
\<close>

lemma dedup_state_roundtrip:
  assumes "sorted_wrt (<) (map fst m)" and "\<forall>(c, v) \<in> set m. plain_id c \<and> v \<noteq> 0"
  shows "parseMarks (renderMarks m) = Inr m"
  using assms by (intro parse_renderMarks) (simp add: ok_marks_def ordered_def)

text \<open>
  \<^verbatim>\<open>confirm\<close> raises the watermark of its own client and no other one, never lowers it,
  and returns the watermark that then holds; when it fails the memory is as before. After it
  stored a watermark, every state a power loss may leave parses to the new table.
\<close>

lemma confirm_monotone:
  assumes "ok_marks (confirmed st)" and "plain_id c" and "i \<noteq> 0"
    and "disk_within (ddPath st) (A \<union> mark_files S) w" and "confirmMark c i st w = (r, st', w')"
  shows "(\<forall>d. d \<noteq> c \<longrightarrow> highestConfirmed st' d = highestConfirmed st d)
    \<and> (\<forall>j. r = Done j \<longrightarrow> j = max i (highestConfirmed st c) \<and> highestConfirmed st' c = j)
    \<and> ((\<nexists>j. r = Done j) \<longrightarrow> st' = st)
    \<and> (r = Done i \<longrightarrow> highestConfirmed st c < i \<longrightarrow>
         (\<forall>x \<in> insert (fileAt w' (ddPath st)) (surviving w' (ddPath st)).
            \<exists>bs. x = Some bs \<and> parseMarks (string_of_bytes bs) = Inr (confirmed st')))"
proof -
  have o: "ordered (confirmed st)" using assms(1) by (rule ok_marks_ordered)
  note put = highestConfirmed_put [OF o]
  have "st' \<noteq> st" if "r = Done i" "highestConfirmed st c < i"
    using assms(5) that put [of c i c] by (cases rule: confirmMark_cases) auto
  then have dur: "disk_within (ddPath st) (mark_files {confirmed st'}) w'" if "r = Done i" "highestConfirmed st c < i"
    using confirmMark_disk(2) [OF assms(4,1,2,5) that(1)] that by blast
  have "(\<forall>d. d \<noteq> c \<longrightarrow> highestConfirmed st' d = highestConfirmed st d)
    \<and> (\<forall>j. r = Done j \<longrightarrow> j = max i (highestConfirmed st c) \<and> highestConfirmed st' c = j)
    \<and> ((\<nexists>j. r = Done j) \<longrightarrow> st' = st)"
    using assms(5) by (cases rule: confirmMark_cases) (use put assms(3) in \<open>auto simp: max_def\<close>)
  moreover have "\<forall>x \<in> insert (fileAt w' (ddPath st)) (surviving w' (ddPath st)).
      \<exists>bs. x = Some bs \<and> parseMarks (string_of_bytes bs) = Inr (confirmed st')"
    if "r = Done i" "highestConfirmed st c < i"
    using dur [OF that] by (auto simp: disk_within_def states_of_def)
  ultimately show ?thesis by blast
qed

definition sample_storage :: world where
  "sample_storage = \<lparr>curDir = Map.empty, dirHist = [Map.empty], fileData = (\<lambda>_. []), fileSynced = (\<lambda>_. []),
     nextInode = 0, sched = []\<rparr>"

lemma sample_storage_within [simp]: "disk_within p {None} (sample_storage\<lparr>sched := rs\<rparr>)"
  unfolding disk_within_sched
  by (auto simp: disk_within_def sample_storage_def owns_file_def wf_world_def inodesOf_def fileAt_def
      surviving_iff)

lemma confirm_completes:
  assumes "c \<noteq> []" and "highestConfirmed st c < i"
  shows "\<exists>n w'. confirmMark c i st (w\<lparr>sched := replicate n (Ok 1)\<rparr>)
    = (Done i, st\<lparr>confirmed := put_mark c i (confirmed st)\<rparr>, w')"
proof -
  let ?m = "put_mark c i (confirmed st)"
  let ?w = "w\<lparr>sched := replicate (length (renderMarks ?m) + 8) (Ok 1)\<rparr>"
  have "\<exists>x w'. writeAtomically (ddPath st) (bytes_of_string (renderMarks ?m)) ?w = (Done x, w')"
    by (rule completesD [OF completes_writeAtomically]) simp_all
  then obtain w' where "persistMarks st ?m ?w = (Done (), w')"
    by (auto simp: persistMarks_def)
  moreover have "i \<noteq> 0" using assms(2) by auto
  ultimately show ?thesis
    using assms by (intro exI [of _ "length (renderMarks ?m) + 8"])
      (auto simp: confirmMark_def highestConfirmed_def Let_def)
qed

lemma plain_ab [simp]: "plain_id ''ab''"
  by (simp add: plain_id_def isSpace_def)



end
