(* ===== verification/Codec.thy ===== *)
theory Codec
  imports Protocol
begin

text \<open>
  Correctness of the protocol codecs of \<^verbatim>\<open>Protocol\<close>. For each kind of frame the bytes a value
  stands for are written down once (\<open>recordBytes\<close>, \<open>headerBytes\<close>, \<open>logFrame\<close>, \<open>batchFrame\<close>,
  \<open>ackFrame\<close>) and both directions of the code are characterised by them.
\<close>

section \<open>The bytes of a header and of a record\<close>

definition headerBytes :: "MessageType \<Rightarrow> u32 \<Rightarrow> ByteBuffer" where
  "headerBytes t n =
     be_bytes 4 Magic @ Version # messageTypeValue t # be_bytes 2 (0 :: u16) @ be_bytes 4 n"

definition recordBytes :: "LogMessage \<Rightarrow> ByteBuffer" where
  "recordBytes m =
     be_bytes 8 (msgId m) @ be_bytes 8 (timestampMs m)
     @ be_bytes 4 (word_of_nat (length (clientId m)) :: u32)
     @ be_bytes 4 (word_of_nat (length (source m)) :: u32)
     @ be_bytes 4 (word_of_nat (length (content m)) :: u32)
     @ bytes_of_string (clientId m) @ bytes_of_string (source m) @ bytes_of_string (content m)"

definition valid_message :: "LogMessage \<Rightarrow> bool" where
  "valid_message m \<longleftrightarrow>
     msgId m \<noteq> 0 \<and> clientId m \<noteq> [] \<and> length (clientId m) \<le> MaxClientIdLength
     \<and> length (source m) \<le> MaxSourceLength \<and> length (content m) \<le> MaxContentLength"

definition message_size :: "LogMessage \<Rightarrow> nat" where
  "message_size m = LogRecordFixedSize + length (clientId m) + length (source m) + length (content m)"

lemma length_headerBytes [simp]: "length (headerBytes t n) = FrameHeaderSize"
  by (simp add: headerBytes_def FrameHeaderSize_def)

lemma length_recordBytes [simp]: "length (recordBytes m) = message_size m"
  by (simp add: recordBytes_def message_size_def LogRecordFixedSize_def)

lemma appendFrameHeader_eq: "appendFrameHeader out t n = out @ headerBytes t n"
  by (simp add: appendFrameHeader_def headerBytes_def append_uint_eqs)

lemma appendLogRecord_eq: "appendLogRecord out m = out @ recordBytes m"
  by (simp add: appendLogRecord_def recordBytes_def append_uint_eqs Let_def)

lemma foldl_appendLogRecord: "foldl appendLogRecord out ms = out @ concat (map recordBytes ms)"
  by (induction ms arbitrary: out) (simp_all add: appendLogRecord_eq)

lemma logRecordSize_iff:
  "logRecordSize m = Inr n \<longleftrightarrow> valid_message m \<and> n = message_size m"
  by (auto simp: logRecordSize_def valid_message_def message_size_def)

lemma message_size_bounds:
  assumes "valid_message m"
  shows "LogRecordFixedSize < message_size m"
    and "message_size m \<le> LogRecordFixedSize + MaxClientIdLength + MaxSourceLength + MaxContentLength"
    and "message_size m < 2 ^ 32"
  using assms by (auto simp: valid_message_def message_size_def limit_defs)

lemma messageTypeValue_inject [simp]: "messageTypeValue s = messageTypeValue t \<longleftrightarrow> s = t"
  by (cases s; cases t) simp_all

lemma parseMessageType_iff: "parseMessageType r = Inr t \<longleftrightarrow> r = messageTypeValue t"
  by (cases t) (auto simp: parseMessageType_def)


section \<open>Headers\<close>

lemma parseFrameHeader_iff:
  "parseFrameHeader bs = Inr h \<longleftrightarrow>
     bytes_at bs 0 (headerBytes (msgType h) (payloadLength h))
     \<and> version h = Version \<and> unat (payloadLength h) \<le> MaxFramePayloadLength"
proof -
  have "12 \<le> length bs" if "bytes_at bs 0 (headerBytes t n)" for t n
    using bytes_at_le [OF that] by (simp add: FrameHeaderSize_def)
  then show ?thesis
    by (cases h) (auto simp: parseFrameHeader_def bind_simps wire_simps parseMessageType_iff
        headerBytes_def FrameHeaderSize_def not_less split: prod.splits)
qed


lemma requireFrameSize_iff [bind_simps]:
  "requireFrameSize frame h = Inr u \<longleftrightarrow> length frame = FrameHeaderSize + unat (payloadLength h)"
  by (auto simp: requireFrameSize_def)


section \<open>Records\<close>

lemma unat_length_words:
  assumes "valid_message m"
  shows "unat (word_of_nat (length (clientId m)) :: u32) = length (clientId m)"
    and "unat (word_of_nat (length (source m)) :: u32) = length (source m)"
    and "unat (word_of_nat (length (content m)) :: u32) = length (content m)"
  using assms by (auto simp: valid_message_def limit_defs unat_of_nat)

lemma clientId_length_word:
  "valid_message m \<Longrightarrow> (word_of_nat (length (clientId m)) :: u32) \<noteq> 0"
  using unat_length_words(1) [of m] by (auto simp: valid_message_def)

lemma nonempty_of_length_word: "length xs = unat (n :: u32) \<Longrightarrow> n \<noteq> 0 \<Longrightarrow> xs \<noteq> []"
  by (auto simp: unat_eq_0)

lemma readLogRecord_iff [wire_simps]:
  "readLogRecord input offset = Inr (m, offset') \<longleftrightarrow>
     valid_message m \<and> offset' = offset + message_size m \<and> bytes_at input offset (recordBytes m)"
  (is "?lhs \<longleftrightarrow> ?rhs")
proof
  assume ?lhs
  then show ?rhs
    by (cases m) (auto simp: readLogRecord_def bind_simps wire_simps recordBytes_def
        message_size_def LogRecordFixedSize_def valid_message_def not_less algebra_simps
        dest: nonempty_of_length_word split: prod.splits)
next
  assume r: ?rhs
  then have v: "valid_message m" and b: "bytes_at input offset (recordBytes m)" by auto
  let ?c = "word_of_nat (length (clientId m)) :: u32"
  let ?s = "word_of_nat (length (source m)) :: u32"
  let ?t = "word_of_nat (length (content m)) :: u32"
  note lens = unat_length_words [OF v] clientId_length_word [OF v]
  have "readUint64 input offset = Inr (msgId m, offset + 8)"
    "readUint64 input (offset + 8) = Inr (timestampMs m, offset + 16)"
    "readUint32 input (offset + 16) = Inr (?c, offset + 20)"
    "readUint32 input (offset + 20) = Inr (?s, offset + 24)"
    "readUint32 input (offset + 24) = Inr (?t, offset + 28)"
    "readString input (offset + 28) ?c = Inr (clientId m, offset + 28 + length (clientId m))"
    "readString input (offset + 28 + length (clientId m)) ?s
       = Inr (source m, offset + 28 + length (clientId m) + length (source m))"
    "readString input (offset + 28 + length (clientId m) + length (source m)) ?t
       = Inr (content m, offset + 28 + length (clientId m) + length (source m) + length (content m))"
    using b by (simp_all add: wire_simps recordBytes_def lens add.commute add.left_commute)
  then show ?lhs
    using r v lens
    by (simp add: readLogRecord_def valid_message_def message_size_def LogRecordFixedSize_def)
qed


section \<open>Log frames\<close>

definition logFrame :: "LogMessage \<Rightarrow> ByteBuffer" where
  "logFrame m = headerBytes Log (word_of_nat (message_size m)) @ recordBytes m"

lemma unat_message_size:
  "valid_message m \<Longrightarrow> unat (word_of_nat (message_size m) :: u32) = message_size m"
  by (rule of_nat_u32_inverse) (rule message_size_bounds(3))

lemma length_logFrame [simp]: "length (logFrame m) = FrameHeaderSize + message_size m"
  by (simp add: logFrame_def)

lemma serializeLogMessage_iff:
  "serializeLogMessage m = Inr f \<longleftrightarrow> valid_message m \<and> f = logFrame m"
  by (auto simp: serializeLogMessage_def bind_simps logRecordSize_iff Let_def
      appendFrameHeader_eq appendLogRecord_eq logFrame_def)

lemma deserializeLogMessage_iff:
  "deserializeLogMessage f = Inr m \<longleftrightarrow> valid_message m \<and> f = logFrame m"
proof
  assume "deserializeLogMessage f = Inr m"
  then obtain h where "parseFrameHeader f = Inr h" "msgType h = Log"
    "requireFrameSize f h = Inr ()" "readLogRecord f FrameHeaderSize = Inr (m, length f)"
    by (auto simp: deserializeLogMessage_def bindR_eq_Inr_iff split: if_splits)
  then have h: "bytes_at f 0 (headerBytes Log (payloadLength h))"
    and r: "valid_message m" "bytes_at f FrameHeaderSize (recordBytes m)"
    and len: "length f = FrameHeaderSize + unat (payloadLength h)"
      "length f = FrameHeaderSize + message_size m"
    by (auto simp: wire_simps parseFrameHeader_iff requireFrameSize_iff)
  have "message_size m = unat (payloadLength h)"
    using len by simp
  then have "payloadLength h = word_of_nat (message_size m)"
    by simp
  moreover have "bytes_at f 0 (headerBytes Log (payloadLength h) @ recordBytes m)"
    using h r by (simp add: bytes_at_append)
  ultimately have "f = logFrame m"
    using len by (simp add: bytes_at_whole logFrame_def)
  with r show "valid_message m \<and> f = logFrame m" by simp
next
  assume "valid_message m \<and> f = logFrame m"
  moreover from this have "message_size m \<le> MaxFramePayloadLength"
    using message_size_bounds(2) [of m] by (simp add: limit_defs)
  ultimately show "deserializeLogMessage f = Inr m"
    by (auto simp: deserializeLogMessage_def bind_simps wire_simps parseFrameHeader_iff
        logFrame_def unat_message_size bytes_at_def
        intro!: exI [where x = "\<lparr>version = Version, msgType = Log,
          payloadLength = word_of_nat (message_size m)\<rparr>"])
qed


section \<open>Batch frames\<close>

definition batch_payload :: "LogMessage list \<Rightarrow> nat" where
  "batch_payload ms = BatchPrefixSize + sum_list (map message_size ms)"

definition batchFrame :: "LogMessage list \<Rightarrow> ByteBuffer" where
  "batchFrame ms =
     headerBytes LogBatch (word_of_nat (batch_payload ms))
     @ be_bytes 4 (word_of_nat (length ms) :: u32) @ concat (map recordBytes ms)"

definition one_client :: "LogMessage list \<Rightarrow> bool" where
  "one_client ms \<longleftrightarrow> (\<forall>m \<in> set ms. clientId m = clientId (hd ms))"

definition ids_increasing :: "LogMessage list \<Rightarrow> bool" where
  "ids_increasing ms \<longleftrightarrow> sorted_wrt (<) (map msgId ms)"

definition valid_batch :: "LogMessage list \<Rightarrow> bool" where
  "valid_batch ms \<longleftrightarrow>
     ms \<noteq> [] \<and> length ms \<le> MaxBatchMessageCount \<and> (\<forall>m \<in> set ms. valid_message m)
     \<and> one_client ms \<and> ids_increasing ms \<and> batch_payload ms \<le> MaxFramePayloadLength"

lemma length_concat_recordBytes [simp]:
  "length (concat (map recordBytes ms)) = sum_list (map message_size ms)"
  by (induction ms) simp_all

lemma length_batchFrame [simp]: "length (batchFrame ms) = FrameHeaderSize + batch_payload ms"
  by (simp add: batchFrame_def batch_payload_def BatchPrefixSize_def)

text \<open>
  The subtraction in \<open>batchPayloadSize\<close> never goes below zero: the loop keeps
  \<open>payloadSize \<le> MaxFramePayloadLength\<close>.
\<close>

lemma batchPayloadSize_iff:
  "p \<le> MaxFramePayloadLength \<Longrightarrow>
   batchPayloadSize cid prev p ms = Inr n \<longleftrightarrow>
     (\<forall>m \<in> set ms. valid_message m \<and> clientId m = cid) \<and> sorted_wrt (<) (prev # map msgId ms)
     \<and> n = p + sum_list (map message_size ms) \<and> n \<le> MaxFramePayloadLength"
proof (induction ms arbitrary: prev p)
  case Nil
  then show ?case by auto
next
  case (Cons m ms)
  let ?ok = "clientId m = cid \<and> prev < msgId m \<and> valid_message m
    \<and> p + message_size m \<le> MaxFramePayloadLength"
  show ?case
  proof (cases ?ok)
    case True
    then have "logRecordSize m = Inr (message_size m)"
      by (simp add: logRecordSize_iff)
    with True have "batchPayloadSize cid prev p (m # ms)
        = batchPayloadSize cid (msgId m) (p + message_size m) ms"
      by auto
    moreover have "sorted_wrt (<) (prev # map msgId (m # ms)) \<longleftrightarrow> sorted_wrt (<) (msgId m # map msgId ms)"
      using True by (simp add: sorted_wrt2_simps del: sorted_wrt.simps)
    ultimately show ?thesis
      using True Cons.IH [of "p + message_size m" "msgId m"] by (simp add: add.assoc)
  next
    case False
    with Cons.prems have "batchPayloadSize cid prev p (m # ms) \<noteq> Inr n"
      by (auto simp: bind_simps logRecordSize_iff)
    with False show ?thesis
      by auto
  qed
qed

lemma checkBatchOrder_iff:
  "checkBatchOrder cid m ms = Inr u \<longleftrightarrow>
     (\<forall>x \<in> set ms. clientId x = cid) \<and> ids_increasing (m # ms)"
  by (induction ms arbitrary: m)
    (auto simp: bind_simps ids_increasing_def not_le sorted_wrt2_simps simp del: sorted_wrt.simps(2))

lemma readLogRecords_iff:
  "offset \<le> length frame \<Longrightarrow>
   readLogRecords n frame offset = Inr (ms, offset') \<longleftrightarrow>
     length ms = n \<and> (\<forall>m \<in> set ms. valid_message m)
     \<and> offset' = offset + sum_list (map message_size ms)
     \<and> bytes_at frame offset (concat (map recordBytes ms))"
proof (induction n arbitrary: offset ms)
  case 0
  then show ?case by (auto simp: bytes_at_def)
next
  case (Suc n)
  show ?case
  proof (cases ms)
    case Nil
    then show ?thesis by (auto simp: bind_simps)
  next
    case (Cons m ms')
    have "offset + message_size m \<le> length frame" if "bytes_at frame offset (recordBytes m)"
      using bytes_at_le [OF that] by simp
    then show ?thesis
      using Cons Suc.IH [of "offset + message_size m" ms'] Suc.prems
      by (auto simp: bind_simps wire_simps)
  qed
qed

lemma of_nat_u32_count:
  "n \<le> MaxBatchMessageCount \<Longrightarrow> unat (word_of_nat n :: u32) = n"
  by (rule of_nat_u32_inverse) (simp add: limit_defs)

lemma of_nat_u32_payload:
  "n \<le> MaxFramePayloadLength \<Longrightarrow> unat (word_of_nat n :: u32) = n"
  by (rule of_nat_u32_inverse) (simp add: limit_defs)

lemma ids_from_zero:
  "\<forall>m \<in> set ms. valid_message m \<Longrightarrow> sorted_wrt (<) (0 # map msgId ms) \<longleftrightarrow> ids_increasing ms"
  by (auto simp: ids_increasing_def valid_message_def word_greater_zero_iff)

lemma batchPayloadSize_batch:
  assumes "ms \<noteq> []" and "length ms \<le> MaxBatchMessageCount"
  shows "batchPayloadSize (clientId (hd ms)) 0 BatchPrefixSize ms = Inr n
         \<longleftrightarrow> valid_batch ms \<and> n = batch_payload ms"
proof -
  have "BatchPrefixSize \<le> MaxFramePayloadLength" by (simp add: limit_defs)
  from batchPayloadSize_iff [OF this, of "clientId (hd ms)" 0 ms n] show ?thesis
    using assms ids_from_zero [of ms]
    by (auto simp: valid_batch_def one_client_def batch_payload_def)
qed

lemma serializeLogBatch_iff:
  "serializeLogBatch ms = Inr f \<longleftrightarrow> valid_batch ms \<and> f = batchFrame ms"
proof (cases "ms \<noteq> [] \<and> length ms \<le> MaxBatchMessageCount")
  case True
  then show ?thesis
    by (auto simp: serializeLogBatch_def bind_simps Let_def batchPayloadSize_batch batchFrame_def
        appendFrameHeader_eq appendUint32_eq foldl_appendLogRecord)
next
  case False
  then show ?thesis
    by (auto simp: serializeLogBatch_def valid_batch_def)
qed

lemma deserializeLogBatch_iff:
  "deserializeLogBatch f = Inr ms \<longleftrightarrow> valid_batch ms \<and> f = batchFrame ms"
proof
  assume "deserializeLogBatch f = Inr ms"
  then obtain h c where "parseFrameHeader f = Inr h" "msgType h = LogBatch"
    "requireFrameSize f h = Inr ()" "readUint32 f FrameHeaderSize = Inr (c, FrameHeaderSize + 4)"
    "c \<noteq> 0" "unat c \<le> MaxBatchMessageCount"
    "readLogRecords (unat c) f (FrameHeaderSize + 4) = Inr (ms, length f)"
    "checkBatchOrder (clientId (hd ms)) (hd ms) (tl ms) = Inr ()"
    by (auto simp: deserializeLogBatch_def bindR_eq_Inr_iff readUint32_iff split: if_splits)
  then have h: "bytes_at f 0 (headerBytes LogBatch (payloadLength h))"
      "unat (payloadLength h) \<le> MaxFramePayloadLength"
    and c: "bytes_at f FrameHeaderSize (be_bytes 4 c)" "length ms = unat c" "unat c \<le> MaxBatchMessageCount"
    and r: "\<forall>m \<in> set ms. valid_message m" "bytes_at f (FrameHeaderSize + 4) (concat (map recordBytes ms))"
    and len: "length f = FrameHeaderSize + unat (payloadLength h)"
      "length f = FrameHeaderSize + 4 + sum_list (map message_size ms)"
    and o: "ms \<noteq> []" "\<forall>x \<in> set (tl ms). clientId x = clientId (hd ms)" "ids_increasing (hd ms # tl ms)"
    using readLogRecords_iff [of "FrameHeaderSize + 4" f]
    by (auto simp: wire_simps parseFrameHeader_iff requireFrameSize_iff checkBatchOrder_iff
        unat_eq_0 dest!: bytes_at_le)
  have size: "batch_payload ms = unat (payloadLength h)"
    using len by (simp add: batch_payload_def BatchPrefixSize_def)
  have "valid_batch ms"
    using h c r o size by (cases ms) (auto simp: valid_batch_def one_client_def)
  moreover have "payloadLength h = word_of_nat (batch_payload ms)" "c = word_of_nat (length ms)"
    using size c by simp_all
  moreover have "bytes_at f 0 (headerBytes LogBatch (payloadLength h) @ be_bytes 4 c
      @ concat (map recordBytes ms))"
    using h c r by (simp add: bytes_at_append)
  ultimately show "valid_batch ms \<and> f = batchFrame ms"
    using len by (simp add: bytes_at_whole batchFrame_def)
next
  assume "valid_batch ms \<and> f = batchFrame ms"
  then have v: "valid_batch ms" and f: "f = batchFrame ms" by auto
  let ?n = "word_of_nat (batch_payload ms) :: u32" and ?c = "word_of_nat (length ms) :: u32"
  have n: "unat ?n = batch_payload ms" and c: "unat ?c = length ms"
    using v by (simp_all add: valid_batch_def of_nat_u32_payload of_nat_u32_count)
  have "parseFrameHeader f = Inr \<lparr>version = Version, msgType = LogBatch, payloadLength = ?n\<rparr>"
    using v n by (simp add: parseFrameHeader_iff f batchFrame_def valid_batch_def)
  moreover have "readUint32 f FrameHeaderSize = Inr (?c, FrameHeaderSize + 4)"
    by (simp add: readUint32_iff f batchFrame_def bytes_at_def)
  moreover have "readLogRecords (length ms) f (FrameHeaderSize + 4) = Inr (ms, length f)"
    using v by (subst readLogRecords_iff)
      (simp_all add: f batchFrame_def bytes_at_def valid_batch_def batch_payload_def BatchPrefixSize_def)
  moreover have "checkBatchOrder (clientId (hd ms)) (hd ms) (tl ms) = Inr ()"
    using v by (cases ms) (auto simp: checkBatchOrder_iff valid_batch_def one_client_def)
  moreover have "?c \<noteq> 0" "length ms \<le> MaxBatchMessageCount"
    using v c by (auto simp: valid_batch_def)
  ultimately show "deserializeLogBatch f = Inr ms"
    by (simp add: deserializeLogBatch_def requireFrameSize_def n c f)
qed


section \<open>Acknowledgement frames\<close>

definition ackFrame :: "u64 \<Rightarrow> ByteBuffer" where
  "ackFrame i = headerBytes Ack AckPayloadSize @ be_bytes 8 i"

lemma length_ackFrame [simp]: "length (ackFrame i) = FrameHeaderSize + 8"
  by (simp add: ackFrame_def)

lemma serializeAck_eq: "serializeAck i = ackFrame i"
  by (simp add: serializeAck_def appendFrameHeader_eq appendUint64_eq ackFrame_def)

lemma deserializeAck_iff:
  "deserializeAck f = Inr a \<longleftrightarrow> f = ackFrame (confirmedId a)"
proof
  assume "deserializeAck f = Inr a"
  then obtain h where "parseFrameHeader f = Inr h" "msgType h = Ack" "requireFrameSize f h = Inr ()"
    "payloadLength h = AckPayloadSize"
    "readUint64 f FrameHeaderSize = Inr (confirmedId a, FrameHeaderSize + 8)"
    by (auto simp: deserializeAck_def bindR_eq_Inr_iff readUint64_iff split: if_splits)
  then have "bytes_at f 0 (headerBytes Ack AckPayloadSize @ be_bytes 8 (confirmedId a))"
    "length f = FrameHeaderSize + 8"
    by (auto simp: wire_simps parseFrameHeader_iff requireFrameSize_iff AckPayloadSize_def)
  then show "f = ackFrame (confirmedId a)"
    by (simp add: bytes_at_whole ackFrame_def)
next
  assume f: "f = ackFrame (confirmedId a)"
  have "parseFrameHeader f = Inr \<lparr>version = Version, msgType = Ack, payloadLength = AckPayloadSize\<rparr>"
    by (simp add: parseFrameHeader_iff f ackFrame_def AckPayloadSize_def MaxFramePayloadLength_def)
  moreover have "readUint64 f FrameHeaderSize = Inr (confirmedId a, FrameHeaderSize + 8)"
    by (simp add: readUint64_iff f ackFrame_def bytes_at_def)
  ultimately show "deserializeAck f = Inr a"
    by (simp add: deserializeAck_def requireFrameSize_def f AckPayloadSize_def)
qed

end
