(* ===== verification/Frames.thy ===== *)
theory Frames
  imports Codec
begin

text \<open>
  The contract every frame codec of the protocol keeps, as a locale, its consequences for byte
  streams, and the three interpretations: single messages, batches and acknowledgements. The
  write-ahead log, the socket layer and both endpoints rely on these consequences only.
\<close>

section \<open>The codec interface\<close>

locale frame_codec =
  fixes ser :: "'a \<Rightarrow> ByteBuffer result"
    and des :: "ByteBuffer \<Rightarrow> 'a result"
    and kind :: MessageType
  assumes des_iff_ser: "des f = Inr x \<longleftrightarrow> ser x = Inr f"
    and ser_frame: "ser x = Inr f \<Longrightarrow> \<exists>n body. unat n \<le> MaxFramePayloadLength
          \<and> f = headerBytes kind n @ body \<and> length body = unat n"
begin

lemma ser_inj: "ser x = Inr f \<Longrightarrow> ser y = Inr f \<Longrightarrow> x = y"
  using des_iff_ser by (metis sum.inject(2))

text \<open>A frame's first \<open>FrameHeaderSize\<close> bytes tell its kind and its length.\<close>

lemma header_of_frame:
  assumes "ser x = Inr f" and "FrameHeaderSize \<le> n"
  shows "\<exists>h. parseFrameHeader (take n (f @ rest)) = Inr h \<and> msgType h = kind
           \<and> length f = FrameHeaderSize + unat (payloadLength h)"
proof -
  obtain k body where k: "unat k \<le> MaxFramePayloadLength" "f = headerBytes kind k @ body"
    "length body = unat k"
    using ser_frame [OF assms(1)] by blast
  let ?h = "\<lparr>version = Version, msgType = kind, payloadLength = k\<rparr>"
  have "parseFrameHeader (take n (f @ rest)) = Inr ?h"
    using k assms(2) by (simp add: parseFrameHeader_iff)
  then show ?thesis
    using k by (intro exI [where x = ?h]) simp
qed

lemma header_of_whole: "ser x = Inr f \<Longrightarrow> \<exists>h. parseFrameHeader f = Inr h \<and> msgType h = kind"
  using header_of_frame [of x f FrameHeaderSize "[]"] header_of_frame [of x f "length f" "[]"] by auto

lemma frame_nonempty: "ser x = Inr f \<Longrightarrow> f \<noteq> []"
  using header_of_frame [of x f FrameHeaderSize "[]"] by (auto simp: FrameHeaderSize_def)

lemma self_delimiting:
  assumes "ser x = Inr f" and "ser y = Inr g" and "f @ r = g @ s"
  shows "x = y" and "f = g" and "r = s"
proof -
  obtain h where h: "parseFrameHeader (take FrameHeaderSize (f @ r)) = Inr h"
    "length f = FrameHeaderSize + unat (payloadLength h)"
    using header_of_frame [OF assms(1) order_refl, of r] by blast
  obtain k where k: "parseFrameHeader (take FrameHeaderSize (g @ s)) = Inr k"
    "length g = FrameHeaderSize + unat (payloadLength k)"
    using header_of_frame [OF assms(2) order_refl, of s] by blast
  have "h = k"
    using h(1) k(1) unfolding assms(3) by simp
  then have "length f = length g"
    using h(2) k(2) by simp
  with assms(3) show "f = g" and "r = s" by simp_all
  with assms(1,2) show "x = y" using ser_inj by blast
qed

lemma truncated_rejected:
  assumes "ser x = Inr f" and "n < length f"
  shows "\<exists>e. des (take n f) = Inl e"
proof (cases "des (take n f)")
  case (Inr y)
  then have "ser y = Inr (take n f)" by (simp add: des_iff_ser)
  then have "f = take n f"
    using self_delimiting(2) [OF assms(1), of y "take n f" "[]" "drop n f"] by simp
  with assms(2) show ?thesis
    by (metis length_take less_irrefl min_less_iff_conj)
qed simp

text \<open>Unique decodability: a concatenation of frames has one reading.\<close>

lemma concat_frames_inj:
  assumes "list_all2 (\<lambda>x f. ser x = Inr f) xs fs" and "list_all2 (\<lambda>y g. ser y = Inr g) ys gs"
    and "concat fs = concat gs"
  shows "xs = ys"
  using assms
proof (induction xs fs arbitrary: ys gs rule: list_all2_induct)
  case Nil
  then have "gs = []"
    by (cases gs) (auto simp: list_all2_Cons2 dest: frame_nonempty)
  then show ?case using Nil by simp
next
  case (Cons x xs f fs)
  then have "gs \<noteq> []"
    using frame_nonempty by auto
  then obtain y ys' g gs' where ys: "ys = y # ys'" and gs: "gs = g # gs'"
    and y: "ser y = Inr g"
    using Cons.prems(1) by (cases gs) (auto simp: list_all2_Cons2)
  with Cons.prems have eq: "f @ concat fs = g @ concat gs'" by simp
  have "x = y" "concat fs = concat gs'"
    using self_delimiting [OF Cons.hyps(1) y eq] by simp_all
  then show ?case using Cons.IH [of ys' gs'] Cons.prems ys gs by simp
qed

end


section \<open>The three codecs of the code\<close>

lemma logFrame_shape:
  assumes "serializeLogMessage m = Inr f"
  shows "\<exists>n body. unat n \<le> MaxFramePayloadLength \<and> f = headerBytes Log n @ body \<and> length body = unat n"
proof -
  have v: "valid_message m" and f: "f = logFrame m"
    using assms by (simp_all add: serializeLogMessage_iff)
  have "message_size m \<le> MaxFramePayloadLength"
    using message_size_bounds(2) [OF v] by (simp add: limit_defs)
  then show ?thesis
    using unat_message_size [OF v] unfolding f logFrame_def by (metis length_recordBytes)
qed

lemma batchFrame_shape:
  assumes "serializeLogBatch ms = Inr f"
  shows "\<exists>n body. unat n \<le> MaxFramePayloadLength \<and> f = headerBytes LogBatch n @ body
           \<and> length body = unat n"
proof -
  have v: "batch_payload ms \<le> MaxFramePayloadLength" and f: "f = batchFrame ms"
    using assms by (simp_all add: serializeLogBatch_iff valid_batch_def)
  let ?n = "word_of_nat (batch_payload ms) :: u32"
  let ?body = "be_bytes 4 (word_of_nat (length ms) :: u32) @ concat (map recordBytes ms)"
  have "unat ?n = batch_payload ms"
    by (rule of_nat_u32_payload [OF v])
  then show ?thesis
    using v f by (intro exI [where x = ?n] exI [where x = ?body])
      (simp add: batchFrame_def batch_payload_def BatchPrefixSize_def)
qed

interpretation log_codec: frame_codec serializeLogMessage deserializeLogMessage Log
  by (unfold_locales, simp add: serializeLogMessage_iff deserializeLogMessage_iff,
      rule logFrame_shape)

interpretation batch_codec: frame_codec serializeLogBatch deserializeLogBatch LogBatch
  by (unfold_locales, simp add: serializeLogBatch_iff deserializeLogBatch_iff,
      rule batchFrame_shape)

interpretation ack_codec: frame_codec "\<lambda>a. Inr (serializeAck (confirmedId a))" deserializeAck Ack
  by unfold_locales
    (auto simp: deserializeAck_iff serializeAck_eq ackFrame_def AckPayloadSize_def
      MaxFramePayloadLength_def intro!: exI [where x = "8 :: u32"])


section \<open>Batches of the size the client sends\<close>

text \<open>
  Fifteen messages of the largest allowed size fit into one frame; the client never sends more
  than ten at a time, so none of its batches is ever refused for its size.
\<close>

lemma batch_payload_le:
  assumes "\<forall>m \<in> set ms. valid_message m"
  shows "batch_payload ms \<le> BatchPrefixSize
           + length ms * (LogRecordFixedSize + MaxClientIdLength + MaxSourceLength + MaxContentLength)"
proof -
  have "sum_list (map message_size ms)
      \<le> length ms * (LogRecordFixedSize + MaxClientIdLength + MaxSourceLength + MaxContentLength)"
    using assms by (induction ms) (auto dest: message_size_bounds(2))
  then show ?thesis by (simp add: batch_payload_def)
qed

lemma small_batch_valid:
  assumes "ms \<noteq> []" and "length ms \<le> 15" and "\<forall>m \<in> set ms. valid_message m"
    and "one_client ms" and "ids_increasing ms"
  shows "valid_batch ms"
proof -
  have "batch_payload ms \<le> MaxFramePayloadLength"
    using batch_payload_le [OF assms(3)] assms(2) by (simp add: limit_defs)
  then show ?thesis
    using assms by (simp add: valid_batch_def MaxBatchMessageCount_def)
qed


section \<open>Properties\<close>

definition sample_message :: "u64 \<Rightarrow> LogMessage" where
  "sample_message i =
     \<lparr>msgId = i, clientId = ''a1'', timestampMs = 7, source = ''app.log'', content = ''hello''\<rparr>"

lemma valid_sample_message [simp]: "valid_message (sample_message i) \<longleftrightarrow> i \<noteq> 0"
  by (simp add: sample_message_def valid_message_def limit_defs)

lemma sample_message_sel [simp]:
  "msgId (sample_message i) = i" "clientId (sample_message i) = ''a1''"
  "content (sample_message i) = ''hello''" "source (sample_message i) = ''app.log''"
  by (simp_all add: sample_message_def)

text \<open>
  Property C17. Single-message frames: for every message and every byte sequence, the deserializer
  returns the message exactly when the serializer produces those bytes for it, so decoding and
  encoding are inverse in both directions and an accepted frame has one reading; and the
  serializer refuses exactly the messages with a zero id, an empty or over-long client id, or an
  over-long source or content.
\<close>

theorem log_message_codec_exact:
  "(deserializeLogMessage f = Inr m \<longleftrightarrow> serializeLogMessage m = Inr f)
   \<and> ((\<exists>g. serializeLogMessage m = Inr g) \<longleftrightarrow>
        msgId m \<noteq> 0 \<and> clientId m \<noteq> [] \<and> length (clientId m) \<le> 128
        \<and> length (source m) \<le> 4096 \<and> length (content m) \<le> 1048576)"
  by (simp add: log_codec.des_iff_ser serializeLogMessage_iff valid_message_def limit_defs)

text \<open>
  Property C16. Batch frames: decoding and encoding are inverse in both directions, and a list of
  messages is serialized exactly when it is a non-empty list of at most 100 valid messages of one
  client with strictly increasing ids whose records fit the 16 MiB payload.
\<close>

theorem log_batch_codec_exact:
  "(deserializeLogBatch f = Inr ms \<longleftrightarrow> serializeLogBatch ms = Inr f)
   \<and> ((\<exists>g. serializeLogBatch ms = Inr g) \<longleftrightarrow> valid_batch ms)"
  by (simp add: batch_codec.des_iff_ser serializeLogBatch_iff)

text \<open>
  Acknowledgement frames: a byte sequence decodes to an acknowledgement exactly when
  it is the frame the server sends for its id, for every 64-bit id.
\<close>

lemma ack_codec_exact:
  "deserializeAck f = Inr a \<longleftrightarrow> serializeAck (confirmedId a) = f"
  using ack_codec.des_iff_ser [of f a] by simp

text \<open>
  Property C36. Damaged batch frames are refused: cutting any number of bytes off the end of a
  valid batch frame, or appending any bytes to it, makes the deserializer throw.
\<close>

theorem damaged_batch_rejected:
  assumes "serializeLogBatch ms = Inr f" and "n < length f"
  shows "(\<exists>e. deserializeLogBatch (take n f) = Inl e)
         \<and> (\<forall>b bs. \<exists>e. deserializeLogBatch (f @ b # bs) = Inl e)"
proof -
  have "\<exists>e. deserializeLogBatch (f @ b # bs) = Inl e" for b bs
  proof (cases "deserializeLogBatch (f @ b # bs)")
    case (Inr xs)
    then have "serializeLogBatch xs = Inr (f @ b # bs)"
      by (simp add: batch_codec.des_iff_ser)
    then show ?thesis
      using batch_codec.self_delimiting(3) [OF assms(1), of xs "f @ b # bs" "b # bs" "[]"] by simp
  qed simp
  then show ?thesis
    using batch_codec.truncated_rejected [OF assms] by blast
qed

theorem damaged_batch_rejected_witness:
  "\<exists>f. serializeLogBatch [sample_message 1, sample_message 2] = Inr f \<and> 5 < length f
     \<and> (\<exists>e. deserializeLogBatch (take 5 f) = Inl e)"
proof -
  let ?ms = "[sample_message 1, sample_message 2]"
  have v: "valid_batch ?ms"
    by (rule small_batch_valid) (simp_all add: one_client_def ids_increasing_def)
  then have s: "serializeLogBatch ?ms = Inr (batchFrame ?ms)"
    by (simp add: serializeLogBatch_iff)
  have "5 < length (batchFrame ?ms)"
    by (simp add: FrameHeaderSize_def)
  with s show ?thesis
    using damaged_batch_rejected [OF s, of 5] by blast
qed

text \<open>
  Property C35. The frame header bounds what a receiver allocates and reads: a header that is
  accepted announces at most 16 MiB, its reading depends on the first 12 bytes only, and a frame
  of one kind is refused by the deserializers of the other two.
\<close>

theorem frame_header_safe:
  assumes "parseFrameHeader bs = Inr h"
  shows "unat (payloadLength h) \<le> 16777216 \<and> 12 \<le> length bs
         \<and> parseFrameHeader (take 12 bs) = Inr h
         \<and> (msgType h \<noteq> Log \<longrightarrow> deserializeLogMessage bs = Inl (ProtocolError ''frame is not a log message''))
         \<and> (msgType h \<noteq> LogBatch \<longrightarrow> deserializeLogBatch bs = Inl (ProtocolError ''frame is not a log batch''))
         \<and> (msgType h \<noteq> Ack \<longrightarrow> deserializeAck bs = Inl (ProtocolError ''frame is not an ack message''))"
proof (intro conjI)
  show "unat (payloadLength h) \<le> 16777216" "12 \<le> length bs" "parseFrameHeader (take 12 bs) = Inr h"
    using assms by (auto simp: parseFrameHeader_iff MaxFramePayloadLength_def bytes_at_def
        FrameHeaderSize_def)
qed (simp_all add: assms deserializeLogMessage_def deserializeLogBatch_def deserializeAck_def)

theorem frame_header_safe_witness:
  "\<exists>h. parseFrameHeader (serializeAck 9) = Inr h \<and> unat (payloadLength h) \<le> 16777216
     \<and> deserializeLogBatch (serializeAck 9) = Inl (ProtocolError ''frame is not a log batch'')"
proof -
  let ?h = "\<lparr>version = Version, msgType = Ack, payloadLength = AckPayloadSize\<rparr>"
  have "parseFrameHeader (serializeAck 9) = Inr ?h"
    by (simp add: parseFrameHeader_iff serializeAck_eq ackFrame_def AckPayloadSize_def
        MaxFramePayloadLength_def)
  from this frame_header_safe [OF this] show ?thesis by auto
qed

end
