(* ===== verification/WriteAheadLog.thy ===== *)
theory WriteAheadLog
  imports Frames Durability
begin

text \<open>
  \<^verbatim>\<open>src/src/WriteAheadLog.cpp\<close>: the messages without an acknowledgement, as frames one after the
  other in \<^verbatim>\<open>pending.wal\<close>. Loading a log that was cut anywhere inside its last record gives the
  complete records, and every operation keeps the file in that form.
\<close>

section \<open>The code\<close>

record WriteAheadLog =
  walPath :: path
  pendingMsgs :: "LogMessage list"

text \<open>The loop of \<open>load\<close>; the result is the records read and \<^verbatim>\<open>hasTruncatedTail\<close>.\<close>

function scanLog :: "ByteBuffer \<Rightarrow> nat \<Rightarrow> LogMessage list \<Rightarrow> (LogMessage list \<times> bool) result" where
  "scanLog bs offset pending =
     (if offset < length bs then
        (let remaining = length bs - offset
         in if remaining < FrameHeaderSize then Inr (pending, True)
            else bindR (parseFrameHeader (drop offset bs)) (\<lambda>header.
              if msgType header \<noteq> Log then Inl (RuntimeError ''WAL contains a non-log frame'')
              else
                (let frameSize = FrameHeaderSize + unat (payloadLength header)
                 in if remaining < frameSize then Inr (pending, True)
                    else bindR (deserializeLogMessage (take frameSize (drop offset bs))) (\<lambda>m.
                      if pending \<noteq> [] \<and> msgId m \<le> msgId (last pending)
                      then Inl (RuntimeError ''WAL message IDs are not increasing'')
                      else if pending \<noteq> [] \<and> clientId m \<noteq> clientId (hd pending)
                      then Inl (RuntimeError ''WAL contains multiple client IDs'')
                      else scanLog bs (offset + frameSize) (pending @ [m])))))
      else Inr (pending, False))"
  by pat_completeness auto
termination
  by (relation "measure (\<lambda>(bs, offset, _). length bs - offset)") (auto simp: FrameHeaderSize_def)

declare scanLog.simps [simp del]

definition rewriteLocked :: "WriteAheadLog \<Rightarrow> unit io" where
  "rewriteLocked wal =
     bindW (liftR (foldl (\<lambda>acc m. bindR acc (\<lambda>bs. bindR (serializeLogMessage m) (\<lambda>frame. Inr (bs @ frame))))
              (Inr []) (pendingMsgs wal)))
       (\<lambda>bs. writeAtomically (walPath wal) bs)"

definition openLog :: "path \<Rightarrow> WriteAheadLog io" where
  "openLog p =
     (if p = [] then throwW (InvalidArgument ''WAL path cannot be empty'')
      else bindW (readFile p) (\<lambda>bs.
           bindW (liftR (scanLog bs 0 [])) (\<lambda>(pending, hasTruncatedTail).
           (let wal = \<lparr>walPath = p, pendingMsgs = pending\<rparr>
            in if hasTruncatedTail then bindW (rewriteLocked wal) (\<lambda>_. doneW wal) else doneW wal))))"

definition appendLog :: "LogMessage \<Rightarrow> (WriteAheadLog, unit) meth" where
  "appendLog m wal w =
     (case serializeLogMessage m of
        Inl e \<Rightarrow> (Throw e, wal, w)
      | Inr frame \<Rightarrow>
          (case appendDurably (walPath wal) frame w of
             (Done _, w') \<Rightarrow> (Done (), wal\<lparr>pendingMsgs := pendingMsgs wal @ [m]\<rparr>, w')
           | (Throw e, w') \<Rightarrow> (Throw e, wal, w')
           | (Crash, w') \<Rightarrow> (Crash, wal, w')))"

definition confirmLog :: "u64 \<Rightarrow> (WriteAheadLog, unit) meth" where
  "confirmLog ackId wal w =
     (let remaining = filter (\<lambda>m. \<not> msgId m \<le> ackId) (pendingMsgs wal)
      in if length remaining = length (pendingMsgs wal) then (Done (), wal, w)
         else
           (let wal1 = wal\<lparr>pendingMsgs := remaining\<rparr>
            in case rewriteLocked wal1 w of (r, w') \<Rightarrow> (r, wal1, w')))"

definition maxMessageId :: "WriteAheadLog \<Rightarrow> u64" where
  "maxMessageId wal = foldl (\<lambda>maximum m. max maximum (msgId m)) 0 (pendingMsgs wal)"

definition pendingCount :: "WriteAheadLog \<Rightarrow> nat" where
  "pendingCount wal = length (pendingMsgs wal)"


section \<open>Logs and their bytes\<close>

definition valid_log :: "string \<Rightarrow> LogMessage list \<Rightarrow> bool" where
  "valid_log c ms \<longleftrightarrow> (\<forall>m \<in> set ms. valid_message m \<and> clientId m = c) \<and> sorted_wrt (<) (map msgId ms)"

definition logBytes :: "LogMessage list \<Rightarrow> ByteBuffer" where
  "logBytes ms = concat (map logFrame ms)"

text \<open>What a crash leaves of the record that was being written.\<close>

definition torn :: "ByteBuffer \<Rightarrow> bool" where
  "torn tail \<longleftrightarrow> tail = [] \<or> (\<exists>m. valid_message m \<and> strict_prefix tail (logFrame m))"

lemma logBytes_simps [simp]:
  "logBytes [] = []" "logBytes (m # ms) = logFrame m @ logBytes ms"
  "logBytes (ms @ ns) = logBytes ms @ logBytes ns"
  by (simp_all add: logBytes_def)

lemma logFrame_nonempty [simp]: "logFrame m \<noteq> []"
  by (simp add: logFrame_def headerBytes_def be_bytes_eq_Nil appendUint32_def flip: length_0_conv)

lemma valid_log_simps [simp]:
  "valid_log c []"
  "valid_log c (ms @ [m]) \<longleftrightarrow> valid_log c ms \<and> valid_message m \<and> clientId m = c
     \<and> (\<forall>k \<in> set ms. msgId k < msgId m)"
  by (auto simp: valid_log_def sorted_wrt_append)

lemma valid_log_filter: "valid_log c ms \<Longrightarrow> valid_log c (filter P ms)"
  by (auto simp: valid_log_def sorted_wrt_map sorted_wrt_filter)

lemma logFrame_header:
  assumes "valid_message m"
  obtains h where "parseFrameHeader (logFrame m @ bs) = Inr h" and "msgType h = Log"
    and "FrameHeaderSize + unat (payloadLength h) = length (logFrame m)"
  using log_codec.header_of_frame [of m "logFrame m" "length (logFrame m @ bs)" bs] assms
  by (auto simp: serializeLogMessage_iff)

lemma torn_header:
  assumes "valid_message m" and "strict_prefix tail (logFrame m)" and "FrameHeaderSize \<le> length tail"
  obtains h where "parseFrameHeader tail = Inr h" and "msgType h = Log"
    and "length tail < FrameHeaderSize + unat (payloadLength h)"
proof -
  have "tail = take (length tail) (logFrame m @ [])" "length tail < length (logFrame m)"
    using prefix_length_less [OF assms(2)] assms(2) by (auto simp: strict_prefix_def prefix_def)
  then show ?thesis
    using log_codec.header_of_frame [of m "logFrame m" "length tail" "[]"] assms(1,3) that
    by (metis serializeLogMessage_iff)
qed

lemma scanLog_torn:
  assumes "torn tail"
  shows "scanLog (pre @ tail) (length pre) pending = Inr (pending, tail \<noteq> [])"
proof (cases "tail = []")
  case True
  then show ?thesis by (subst scanLog.simps) simp
next
  case False
  then obtain m where m: "valid_message m" "strict_prefix tail (logFrame m)"
    using assms by (auto simp: torn_def)
  show ?thesis
  proof (cases "length tail < FrameHeaderSize")
    case True
    with False show ?thesis by (subst scanLog.simps) simp
  next
    case large: False
    then obtain h where "parseFrameHeader tail = Inr h" "msgType h = Log"
      "length tail < FrameHeaderSize + unat (payloadLength h)"
      using torn_header [OF m] by (metis not_less)
    with False large show ?thesis by (subst scanLog.simps) (simp add: Let_def)
  qed
qed

lemma scanLog_record:
  assumes "parseFrameHeader bs = Inr h" and "msgType h = Log"
    and "FrameHeaderSize + unat (payloadLength h) = n" and "n \<le> length bs"
    and "deserializeLogMessage (take n bs) = Inr m"
    and "pending = [] \<or> msgId (last pending) < msgId m \<and> clientId m = clientId (hd pending)"
  shows "scanLog (pre @ bs) (length pre) pending = scanLog (pre @ bs) (length pre + n) (pending @ [m])"
proof -
  have "length pre < length (pre @ bs)" using assms(3,4) by (cases bs) (auto simp: FrameHeaderSize_def)
  moreover have "\<not> length bs < FrameHeaderSize" "\<not> length bs < n" using assms(3,4) by linarith+
  moreover have "\<not> (pending \<noteq> [] \<and> msgId m \<le> msgId (last pending))"
    "\<not> (pending \<noteq> [] \<and> clientId m \<noteq> clientId (hd pending))"
    using assms(6) by auto
  ultimately show ?thesis
    using assms(1,2,5) unfolding assms(3) [symmetric]
    by (subst scanLog.simps) (simp only: Let_def length_append drop_append diff_self_eq_0 drop_all
        append_Nil drop0 if_True if_False bindR_simps add_diff_cancel_left' order_refl refl not_True_eq_False)
qed

text \<open>The loader reads back exactly the complete records.\<close>

lemma scanLog_valid:
  assumes "valid_log c (done @ ms)" and "torn tail" and "pre = logBytes done"
  shows "scanLog (pre @ logBytes ms @ tail) (length pre) done = Inr (done @ ms, tail \<noteq> [])"
  using assms
proof (induction ms arbitrary: "done" pre)
  case Nil
  then show ?case using scanLog_torn by simp
next
  case (Cons m ms)
  then have v: "valid_message m" and done_m: "valid_log c ((done @ [m]) @ ms)"
    by (auto simp: valid_log_def)
  obtain h where h: "parseFrameHeader (logFrame m @ logBytes ms @ tail) = Inr h" "msgType h = Log"
    "FrameHeaderSize + unat (payloadLength h) = length (logFrame m)"
    by (rule logFrame_header [OF v])
  have "done = [] \<or> msgId (last done) < msgId m \<and> clientId m = clientId (hd done)"
    using Cons.prems(1) by (cases "done" rule: rev_cases) (auto simp: valid_log_def sorted_wrt_append hd_append)
  moreover have "deserializeLogMessage (take (length (logFrame m)) (logFrame m @ logBytes ms @ tail)) = Inr m"
    using v by (simp add: deserializeLogMessage_iff del: length_logFrame)
  ultimately have "scanLog (pre @ logFrame m @ logBytes ms @ tail) (length pre) done
    = scanLog (pre @ logFrame m @ logBytes ms @ tail) (length pre + length (logFrame m)) (done @ [m])"
    by (intro scanLog_record [OF h]) simp_all
  also have "\<dots> = Inr (done @ m # ms, tail \<noteq> [])"
    using Cons.IH [OF done_m Cons.prems(2), of "pre @ logFrame m"] Cons.prems(3) by simp
  finally show ?case by simp
qed

lemma foldl_serialize:
  "\<forall>m \<in> set ms. valid_message m \<Longrightarrow>
   foldl (\<lambda>acc m. bindR acc (\<lambda>bs. bindR (serializeLogMessage m) (\<lambda>frame. Inr (bs @ frame)))) (Inr out) ms
     = Inr (out @ logBytes ms)"
proof (induction ms arbitrary: out)
  case (Cons m ms)
  then have "serializeLogMessage m = Inr (logFrame m)" by (simp add: serializeLogMessage_iff)
  with Cons show ?case by simp
qed simp

lemma rewriteLocked_valid:
  "valid_log c (pendingMsgs wal) \<Longrightarrow>
   rewriteLocked wal = writeAtomically (walPath wal) (logBytes (pendingMsgs wal))"
  by (rule ext) (simp add: rewriteLocked_def foldl_serialize valid_log_def)

end
