(* ===== verification/WalSessions.thy ===== *)
theory WalSessions
  imports WriteAheadLog
begin

text \<open>
  The life of \<^verbatim>\<open>pending.wal\<close> over many runs of the client: records are appended and confirmed, calls
  fail, processes die and power is lost. A logged message stays in the log, in memory and on the
  disk, until its id has been confirmed, and a log can always be opened again.
\<close>

section \<open>What the file may hold\<close>

definition file_bytes :: "ByteBuffer option \<Rightarrow> ByteBuffer" where
  "file_bytes x = (case x of None \<Rightarrow> [] | Some bs \<Rightarrow> bs)"

definition wal_files :: "string \<Rightarrow> LogMessage list set \<Rightarrow> ByteBuffer option set" where
  "wal_files c L = {x. \<exists>ms \<in> L. \<exists>tail. valid_log c ms \<and> torn tail \<and> file_bytes x = logBytes ms @ tail}"

lemma file_bytes_simps [simp]: "file_bytes None = []" "file_bytes (Some bs) = bs"
  by (simp_all add: file_bytes_def)

lemma contents_file_bytes: "contents w p = file_bytes (fileAt w p)"
  by (simp add: contents_def file_bytes_def)

lemma wal_files_mono: "L \<subseteq> M \<Longrightarrow> wal_files c L \<subseteq> wal_files c M"
  unfolding wal_files_def by blast

lemma torn_Nil [simp]: "torn []"
  by (simp add: torn_def)

lemma wal_filesI: "ms \<in> L \<Longrightarrow> valid_log c ms \<Longrightarrow> torn tail \<Longrightarrow> Some (logBytes ms @ tail) \<in> wal_files c L"
  unfolding wal_files_def by auto

lemma wal_files_whole: "ms \<in> L \<Longrightarrow> valid_log c ms \<Longrightarrow> Some (logBytes ms) \<in> wal_files c L"
  using wal_filesI [of ms L c "[]"] by simp

text \<open>A part of the next record is torn, or it is the whole of it.\<close>

lemma part_of_frame:
  assumes "valid_message m"
  shows "take k (logFrame m) = logFrame m \<or> torn (take k (logFrame m))"
  using assms take_is_prefix [of k "logFrame m"] unfolding torn_def strict_prefix_def by blast

lemma replaced_fileAt:
  "replaced p bs w r w' \<Longrightarrow> fileAt w' p = fileAt w p \<or> fileAt w' p = Some bs"
  unfolding replaced_def using published_fileAt kept_reads(1) by blast

lemma replaced_done: "replaced p bs w (Done ()) w' \<Longrightarrow> fileAt w' p = Some bs"
  unfolding replaced_def using published_fileAt by blast


section \<open>One operation\<close>

lemma openLog_disk:
  assumes d: "disk_within p (wal_files c L) w" and run: "openLog p w = (r, w')"
  shows "disk_within p (wal_files c L) w'"
    and "r = Done st \<Longrightarrow> walPath st = p \<and> pendingMsgs st \<in> L \<and> valid_log c (pendingMsgs st)
           \<and> contents w' p = logBytes (pendingMsgs st)"
    and "r \<noteq> Throw (ProtocolError msg)" and "r \<noteq> Throw (RuntimeError ''WAL contains a non-log frame'')"
    and "r \<noteq> Throw (RuntimeError ''WAL message IDs are not increasing'')"
    and "r \<noteq> Throw (RuntimeError ''WAL contains multiple client IDs'')"
proof -
  have "disk_within p (wal_files c L) w' \<and>
    (\<forall>st. r = Done st \<longrightarrow> walPath st = p \<and> pendingMsgs st \<in> L \<and> valid_log c (pendingMsgs st)
           \<and> contents w' p = logBytes (pendingMsgs st)) \<and>
    (\<forall>e. r = Throw e \<longrightarrow> (\<forall>msg. e \<noteq> ProtocolError msg) \<and> e \<notin> RuntimeError ` {''WAL contains a non-log frame'',
       ''WAL message IDs are not increasing'', ''WAL contains multiple client IDs''})"
  proof (cases "p = []")
    case True
    with run d show ?thesis by (auto simp: openLog_def throwW_def)
  next
    case False
    obtain r0 w0 where r0: "readFile p w = (r0, w0)" by (rule prod.exhaust)
    have d0: "disk_within p (wal_files c L) w0" using readFile_disk [OF r0 d] .
    have run0: "(case r0 of Done bs \<Rightarrow> bindW (liftR (scanLog bs 0 [])) (\<lambda>(pending, hasTruncatedTail).
           (let wal = \<lparr>walPath = p, pendingMsgs = pending\<rparr>
            in if hasTruncatedTail then bindW (rewriteLocked wal) (\<lambda>_. doneW wal) else doneW wal)) w0
        | Throw e \<Rightarrow> (Throw e, w0) | Crash \<Rightarrow> (Crash, w0)) = (r, w')"
      using run False r0 by (simp add: openLog_def bindW_def)
    show ?thesis
    proof (cases r0)
      case (Done bs)
      have "fileAt w p \<in> wal_files c L" using d by (simp add: disk_within_def)
      moreover have bs: "bs = file_bytes (fileAt w p)"
        using readFile_result(2) [OF r0 Done] by (simp add: contents_file_bytes)
      ultimately obtain ms tail where ms: "ms \<in> L" "valid_log c ms" "torn tail" "bs = logBytes ms @ tail"
        unfolding wal_files_def by blast
      have scan: "scanLog bs 0 [] = Inr (ms, tail \<noteq> [])"
        using scanLog_valid [of c "[]" ms tail "[]"] ms by simp
      let ?wal = "\<lparr>walPath = p, pendingMsgs = ms\<rparr>"
      show ?thesis
      proof (cases "tail = []")
        case True
        then have "r = Done ?wal" "w' = w0" using run0 Done scan by (auto simp: doneW_def)
        moreover have "contents w0 p = contents w p"
          using readFile_result(1) [OF r0] fileAt_sched(2) [of "[]" w] fileAt_sched(2) [of "[]" w0] by metis
        moreover have "contents w p = logBytes ms"
          using bs ms(4) True by (simp add: contents_file_bytes)
        ultimately show ?thesis using d0 ms by simp
      next
        case False
        obtain r1 where w1: "writeAtomically p (logBytes ms) w0 = (r1, w')"
          and r: "r = (case r1 of Done _ \<Rightarrow> Done ?wal | Throw e \<Rightarrow> Throw e | Crash \<Rightarrow> Crash)"
          using run0 Done scan False rewriteLocked_valid [of c ?wal] ms(2)
          by (cases "writeAtomically p (logBytes ms) w0") (auto simp: bindW_def doneW_def split: outcome.splits)
        have rep: "replaced p (logBytes ms) w0 r1 w'"
          using runsD [OF runs_writeAtomically w1] d0 by simp
        have "disk_within p (wal_files c L) w'"
          using disk_within_replaced(1) [OF d0 rep] wal_files_whole [OF ms(1,2)]
          by (simp add: insert_absorb)
        moreover have "contents w' p = logBytes ms" if "r1 = Done ()"
          using replaced_done [of p "logBytes ms" w0 w'] rep that by (simp add: contents_file_bytes)
        moreover have "(\<forall>msg. e \<noteq> ProtocolError msg) \<and> (\<forall>msg. e \<noteq> RuntimeError msg)" if "r1 = Throw e" for e
          using writeAtomically_throws [OF w1 [unfolded that]] by auto
        ultimately show ?thesis using r ms by (auto split: outcome.splits)
      qed
    next
      case (Throw e)
      then show ?thesis using run0 d0 readFile_throws [OF r0 [unfolded Throw]] by auto
    next
      case Crash
      then show ?thesis using run0 d0 by auto
    qed
  qed
  then show "disk_within p (wal_files c L) w'"
    and "r = Done st \<Longrightarrow> walPath st = p \<and> pendingMsgs st \<in> L \<and> valid_log c (pendingMsgs st)
           \<and> contents w' p = logBytes (pendingMsgs st)"
    and "r \<noteq> Throw (ProtocolError msg)" and "r \<noteq> Throw (RuntimeError ''WAL contains a non-log frame'')"
    and "r \<noteq> Throw (RuntimeError ''WAL message IDs are not increasing'')"
    and "r \<noteq> Throw (RuntimeError ''WAL contains multiple client IDs'')"
    by auto
qed

text \<open>Appending to a file that ends with a complete record.\<close>

lemma appendLog_disk:
  assumes d: "disk_within (walPath st) (wal_files c L) w" and here: "contents w (walPath st) = logBytes vis"
    and vis: "valid_log c vis" and new: "valid_log c (vis @ [m])"
    and run: "appendLog m st w = (r, st', w')"
  shows "disk_within (walPath st) (wal_files c ({vis, vis @ [m]} \<union> L)) w'"
    and "r = Done () \<Longrightarrow> disk_within (walPath st) (wal_files c {vis @ [m]}) w'"
    and "r = Done () \<Longrightarrow> contents w' (walPath st) = logBytes (vis @ [m])"
    and "\<exists>vis' \<in> {vis, vis @ [m]}. \<exists>tail. torn tail \<and> contents w' (walPath st) = logBytes vis' @ tail"
    and "st' = (if r = Done () then st\<lparr>pendingMsgs := pendingMsgs st @ [m]\<rparr> else st)"
proof -
  let ?p = "walPath st"
  have v: "valid_message m" using new by simp
  then have "serializeLogMessage m = Inr (logFrame m)" by (simp add: serializeLogMessage_iff)
  then obtain r0 where a: "appendDurably ?p (logFrame m) w = (r0, w')" and r0: "r0 = r"
    and st': "st' = (if r = Done () then st\<lparr>pendingMsgs := pendingMsgs st @ [m]\<rparr> else st)"
    using run by (cases "appendDurably ?p (logFrame m) w") (auto simp: appendLog_def split: outcome.splits)
  show "st' = (if r = Done () then st\<lparr>pendingMsgs := pendingMsgs st @ [m]\<rparr> else st)" by (rule st')
  have app: "appended ?p (logFrame m) w r w'"
    using runsD [OF runs_appendDurably a] d r0 by simp
  have part: "\<exists>vis' \<in> {vis, vis @ [m]}. \<exists>tail. torn tail \<and> logBytes vis @ take k (logFrame m) = logBytes vis' @ tail" for k
    using part_of_frame [OF v, of k] torn_Nil by force
  have "Some (logBytes vis @ take k (logFrame m)) \<in> wal_files c {vis, vis @ [m]}" for k
    using part [of k] vis new unfolding wal_files_def by auto
  then have sub: "wal_files c L \<union> {Some (contents w ?p @ take k (logFrame m)) | k. True}
      \<subseteq> wal_files c ({vis, vis @ [m]} \<union> L)"
    using wal_files_mono [of L "{vis, vis @ [m]} \<union> L" c]
      wal_files_mono [of "{vis, vis @ [m]}" "{vis, vis @ [m]} \<union> L" c] here by auto
  show "disk_within ?p (wal_files c ({vis, vis @ [m]} \<union> L)) w'"
    using disk_within_mono [OF disk_within_appended(1) [OF d app] sub] .
  have whole: "logBytes vis @ logFrame m = logBytes (vis @ [m])" by simp
  show "disk_within ?p (wal_files c {vis @ [m]}) w'" if "r = Done ()"
    using disk_within_appended(2) [OF d app that] wal_files_whole [OF _ new, of "{vis @ [m]}"]
    by (simp add: here whole [symmetric] del: logBytes_simps(3)) (erule disk_within_mono, simp)
  obtain k where k: "contents w' ?p = logBytes vis @ take k (logFrame m)" "r = Done () \<longrightarrow> k = length (logFrame m)"
    using appended_part [OF app] here by auto
  show "contents w' ?p = logBytes (vis @ [m])" if "r = Done ()"
    using k that by simp
  show "\<exists>vis' \<in> {vis, vis @ [m]}. \<exists>tail. torn tail \<and> contents w' ?p = logBytes vis' @ tail"
    using part [of k] by (simp add: k(1))
qed

text \<open>Confirming: the memory first, then the file.\<close>

lemma confirmLog_disk:
  assumes d: "disk_within (walPath st) (wal_files c L) w" and v: "valid_log c (pendingMsgs st)"
    and run: "confirmLog k st w = (r, st', w')"
  defines "ms \<equiv> filter (\<lambda>m. \<not> msgId m \<le> k) (pendingMsgs st)"
  shows "disk_within (walPath st) (wal_files c (insert ms L)) w'"
    and "st' = st\<lparr>pendingMsgs := ms\<rparr>"
    and "contents w' (walPath st) = contents w (walPath st) \<or> contents w' (walPath st) = logBytes ms"
proof -
  have vm: "valid_log c ms" using valid_log_filter [OF v] by (simp add: ms_def)
  have sub: "insert (Some (logBytes ms)) (wal_files c L) \<subseteq> wal_files c (insert ms L)"
    using wal_files_whole [OF _ vm, of "insert ms L"] wal_files_mono [of L "insert ms L" c] by auto
  have "disk_within (walPath st) (wal_files c (insert ms L)) w' \<and> st' = st\<lparr>pendingMsgs := ms\<rparr> \<and>
    (contents w' (walPath st) = contents w (walPath st) \<or> contents w' (walPath st) = logBytes ms)"
  proof (cases "length ms = length (pendingMsgs st)")
    case True
    then have "ms = pendingMsgs st"
      unfolding ms_def using length_filter_less by (metis (no_types, lifting) filter_True less_irrefl)
    with True run have "w' = w" "st' = st" by (simp_all add: confirmLog_def Let_def ms_def)
    with \<open>ms = pendingMsgs st\<close> disk_within_mono [OF d] sub show ?thesis by simp
  next
    case False
    let ?st = "st\<lparr>pendingMsgs := ms\<rparr>"
    have w: "writeAtomically (walPath st) (logBytes ms) w = (r, w')" and "st' = ?st"
      using run False rewriteLocked_valid [of c ?st] vm
      by (simp_all add: confirmLog_def Let_def ms_def split: prod.splits)
    have rep: "replaced (walPath st) (logBytes ms) w r w'"
      using runsD [OF runs_writeAtomically w] d by simp
    show ?thesis
      using disk_within_mono [OF disk_within_replaced(1) [OF d rep] sub] \<open>st' = ?st\<close> replaced_fileAt [OF rep]
      by (auto simp: contents_file_bytes)
  qed
  then show "disk_within (walPath st) (wal_files c (insert ms L)) w'" and "st' = st\<lparr>pendingMsgs := ms\<rparr>"
    and "contents w' (walPath st) = contents w (walPath st) \<or> contents w' (walPath st) = logBytes ms"
    by blast+
qed


section \<open>Sessions\<close>

text \<open>
  \<open>attempted\<close> lists the messages given to \<^verbatim>\<open>append\<close>, \<open>logged\<close> those for which it returned, \<open>acked\<close>
  the ids given to \<^verbatim>\<open>confirm\<close>. The caller's side of the contract is in the guard of \<open>append\<close>: one
  client, increasing ids, and no append after a failed one (\<open>healthy\<close>), which is how the producer
  thread of \<^verbatim>\<open>src/src/main.cpp\<close> uses the log.
\<close>

record wal_session =
  attempted :: "LogMessage list"
  logged :: "LogMessage list"
  acked :: "u64 list"
  wal :: "WriteAheadLog option"
  healthy :: bool
  walDisk :: world

abbreviation wal_on_disk :: "wal_session \<Rightarrow> sysres list \<Rightarrow> world" where
  "wal_on_disk s rs \<equiv> (walDisk s)\<lparr>sched := rs\<rparr>"

definition unless_crashed :: "'a outcome \<Rightarrow> 's \<Rightarrow> 's option" where
  "unless_crashed r st = (if r = Crash then None else Some st)"

inductive wal_step :: "string \<Rightarrow> path \<Rightarrow> wal_session \<Rightarrow> wal_session \<Rightarrow> bool" for c p where
  open_log: "wal s = None \<Longrightarrow> openLog p (wal_on_disk s rs) = (r, w) \<Longrightarrow>
    wal_step c p s (s\<lparr>wal := (case r of Done st \<Rightarrow> Some st | _ \<Rightarrow> None), healthy := True, walDisk := w\<rparr>)"
| append: "wal s = Some st \<Longrightarrow> healthy s \<Longrightarrow> clientId m = c \<Longrightarrow>
    \<forall>k \<in> set (attempted s). msgId k < msgId m \<Longrightarrow>
    appendLog m st (wal_on_disk s rs) = (r, st', w) \<Longrightarrow>
    wal_step c p s (s\<lparr>attempted := attempted s @ [m],
      logged := logged s @ (if r = Done () then [m] else []),
      wal := unless_crashed r st', healthy := (r = Done ()), walDisk := w\<rparr>)"
| confirm: "wal s = Some st \<Longrightarrow> confirmLog k st (wal_on_disk s rs) = (r, st', w) \<Longrightarrow>
    wal_step c p s (s\<lparr>acked := acked s @ [k], wal := unless_crashed r st', walDisk := w\<rparr>)"
| stop: "wal_step c p s (s\<lparr>wal := None\<rparr>)"
| lose_power: "power_loss (walDisk s) w \<Longrightarrow> wal_step c p s (s\<lparr>wal := None, walDisk := w\<rparr>)"

abbreviation wal_reach :: "string \<Rightarrow> path \<Rightarrow> wal_session \<Rightarrow> wal_session \<Rightarrow> bool" where
  "wal_reach c p \<equiv> (wal_step c p)\<^sup>*\<^sup>*"

definition first_wal :: "path \<Rightarrow> wal_session \<Rightarrow> bool" where
  "first_wal p s \<longleftrightarrow> attempted s = [] \<and> logged s = [] \<and> acked s = [] \<and> wal s = None
     \<and> disk_within p {None} (walDisk s)"

text \<open>Logged and not yet confirmed.\<close>

definition outstanding :: "wal_session \<Rightarrow> LogMessage set" where
  "outstanding s = {m \<in> set (logged s). \<forall>k \<in> set (acked s). k < msgId m}"

definition covers :: "string \<Rightarrow> wal_session \<Rightarrow> LogMessage list \<Rightarrow> bool" where
  "covers c s ms \<longleftrightarrow> valid_log c ms \<and> set ms \<subseteq> set (attempted s) \<and> outstanding s \<subseteq> set ms"

definition wal_inv :: "string \<Rightarrow> path \<Rightarrow> wal_session \<Rightarrow> bool" where
  "wal_inv c p s \<longleftrightarrow>
     (\<exists>L. disk_within p (wal_files c L) (walDisk s) \<and> (\<forall>ms \<in> L. covers c s ms))
     \<and> (\<forall>st. wal s = Some st \<longrightarrow> walPath st = p \<and> covers c s (pendingMsgs st) \<and>
         (\<exists>vis tail. covers c s vis \<and> torn tail \<and> (healthy s \<longrightarrow> tail = [])
            \<and> contents (walDisk s) p = logBytes vis @ tail))"

lemma wal_invI:
  assumes "disk_within p (wal_files c L) (walDisk s)" and "\<And>ms. ms \<in> L \<Longrightarrow> covers c s ms"
    and "\<And>st. wal s = Some st \<Longrightarrow> walPath st = p \<and> covers c s (pendingMsgs st)"
    and "\<And>st. wal s = Some st \<Longrightarrow> \<exists>vis tail. covers c s vis \<and> torn tail \<and> (healthy s \<longrightarrow> tail = [])
            \<and> contents (walDisk s) p = logBytes vis @ tail"
  shows "wal_inv c p s"
  using assms unfolding wal_inv_def by blast

lemma wal_inv_liveI:
  assumes "disk_within p (wal_files c L) (walDisk s)" and "\<And>ms. ms \<in> L \<Longrightarrow> covers c s ms"
    and "\<And>st. wal s = Some st \<Longrightarrow> walPath st = p \<and> covers c s (pendingMsgs st)"
    and "covers c s vis" and "torn tail" and "healthy s \<Longrightarrow> tail = []"
    and "contents (walDisk s) p = logBytes vis @ tail"
  shows "wal_inv c p s"
  using assms unfolding wal_inv_def by blast

text \<open>What the steps do to the outstanding messages and to the lists that cover them.\<close>

lemma covers_weaken:
  "covers c s ms \<Longrightarrow> set (attempted s) \<subseteq> set (attempted t) \<Longrightarrow> outstanding t \<subseteq> outstanding s \<Longrightarrow> covers c t ms"
  unfolding covers_def by blast

lemma covers_snoc:
  assumes "covers c s ms" and "valid_message m" and "clientId m = c"
    and "\<forall>k \<in> set (attempted s). msgId k < msgId m"
    and "set (attempted t) = insert m (set (attempted s))" and "outstanding t \<subseteq> insert m (outstanding s)"
  shows "covers c t (ms @ [m])"
  using assms unfolding covers_def by fastforce

lemma covers_filter:
  assumes "covers c s ms" and "attempted t = attempted s"
    and "outstanding t = {m \<in> outstanding s. k < msgId m}"
  shows "covers c t (filter (\<lambda>m. \<not> msgId m \<le> k) ms)"
  using assms valid_log_filter [of c ms] unfolding covers_def by (auto simp: not_le)

lemma open_inv:
  assumes inv: "wal_inv c p s" and none: "wal s = None" and run: "openLog p (wal_on_disk s rs) = (r, w)"
  shows "wal_inv c p (s\<lparr>wal := (case r of Done st \<Rightarrow> Some st | _ \<Rightarrow> None), healthy := True, walDisk := w\<rparr>)"
    (is "wal_inv c p ?t")
proof -
  obtain L where d: "disk_within p (wal_files c L) (wal_on_disk s rs)" and L: "\<And>ms. ms \<in> L \<Longrightarrow> covers c s ms"
    using inv unfolding wal_inv_def by auto
  have same: "covers c ?t ms \<longleftrightarrow> covers c s ms" for ms
    by (simp add: covers_def outstanding_def)
  note D = openLog_disk [OF d run]
  show ?thesis
  proof (rule wal_invI [where L = L])
    fix st assume st: "wal ?t = Some st"
    then have "r = Done st" by (auto split: outcome.splits)
    note D2 = D(2) [OF this]
    then show "walPath st = p \<and> covers c ?t (pendingMsgs st)" using L same by blast
    show "\<exists>vis tail. covers c ?t vis \<and> torn tail \<and> (healthy ?t \<longrightarrow> tail = [])
            \<and> contents (walDisk ?t) p = logBytes vis @ tail"
      using D2 L same by (intro exI [of _ "pendingMsgs st"] exI [of _ "[]"]) simp
  qed (use D(1) L same in auto)
qed

lemma append_inv:
  assumes inv: "wal_inv c p s" and st: "wal s = Some st" and h: "healthy s"
    and m: "clientId m = c" "\<forall>k \<in> set (attempted s). msgId k < msgId m"
    and run: "appendLog m st (wal_on_disk s rs) = (r, st', w)"
  shows "wal_inv c p (s\<lparr>attempted := attempted s @ [m],
      logged := logged s @ (if r = Done () then [m] else []),
      wal := unless_crashed r st', healthy := (r = Done ()), walDisk := w\<rparr>)" (is "wal_inv c p ?t")
proof -
  obtain L where d: "disk_within p (wal_files c L) (wal_on_disk s rs)" and L: "\<And>ms. ms \<in> L \<Longrightarrow> covers c s ms"
    using inv unfolding wal_inv_def by auto
  have p: "walPath st = p" and pend: "covers c s (pendingMsgs st)"
    using inv st unfolding wal_inv_def by auto
  obtain vis where vis: "covers c s vis" "contents (wal_on_disk s rs) p = logBytes vis"
    using inv st h unfolding wal_inv_def by auto
  show ?thesis
  proof (cases "valid_message m")
    case False
    then have "\<exists>e. r = Throw e" "st' = st" "w = wal_on_disk s rs"
      using run by (auto simp: appendLog_def serializeLogMessage_iff split: sum.splits)
    moreover have "covers c ?t ms" if "covers c s ms" for ms
      using that calculation(1) by (intro covers_weaken [OF that]) (auto simp: outstanding_def)
    ultimately show ?thesis
      using d L p pend vis
      by (intro wal_inv_liveI [where L = L and vis = vis and tail = "[]"]) (auto simp: unless_crashed_def)
  next
    case v: True
    have old: "covers c ?t ms" if "covers c s ms" "r \<noteq> Done ()" for ms
      using that by (intro covers_weaken [OF that(1)]) (auto simp: outstanding_def)
    have new: "covers c ?t (ms @ [m])" if "covers c s ms" for ms
      by (rule covers_snoc [OF that v m]) (auto simp: outstanding_def)
    have "valid_log c (vis @ [m])" "valid_log c vis"
      using new [OF vis(1)] vis(1) by (auto simp: covers_def)
    note D = appendLog_disk [OF d [folded p] vis(2) [folded p] this(2,1) run, unfolded p]
    show ?thesis
    proof (cases "r = Done ()")
      case True
      have "covers c ?t (pendingMsgs st @ [m])" "covers c ?t (vis @ [m])"
        using new pend vis(1) by blast+
      with True D(2,3,5) p show ?thesis
        by (intro wal_inv_liveI [where L = "{vis @ [m]}" and vis = "vis @ [m]" and tail = "[]"])
          (auto simp: unless_crashed_def)
    next
      case False
      obtain vis' tail where "vis' \<in> {vis, vis @ [m]}" "torn tail" "contents w p = logBytes vis' @ tail"
        using D(4) by blast
      moreover from this have "covers c ?t vis'" using old new vis(1) False by blast
      ultimately show ?thesis
        using False D(1,5) p old [OF pend] old [OF vis(1)] new [OF vis(1)] old L
        by (intro wal_inv_liveI [where L = "{vis, vis @ [m]} \<union> L" and vis = vis' and tail = tail])
          (auto simp: unless_crashed_def split: if_splits)
    qed
  qed
qed

lemma confirm_inv:
  assumes inv: "wal_inv c p s" and st: "wal s = Some st"
    and run: "confirmLog k st (wal_on_disk s rs) = (r, st', w)"
  shows "wal_inv c p (s\<lparr>acked := acked s @ [k], wal := unless_crashed r st', walDisk := w\<rparr>)"
    (is "wal_inv c p ?t")
proof -
  obtain L where d: "disk_within p (wal_files c L) (wal_on_disk s rs)" and L: "\<And>ms. ms \<in> L \<Longrightarrow> covers c s ms"
    using inv unfolding wal_inv_def by auto
  have p: "walPath st = p" and pend: "covers c s (pendingMsgs st)"
    using inv st unfolding wal_inv_def by auto
  obtain vis tail where vis: "covers c s vis" "torn tail" "healthy s \<longrightarrow> tail = []"
    "contents (wal_on_disk s rs) p = logBytes vis @ tail"
    using inv st unfolding wal_inv_def by auto
  let ?ms = "filter (\<lambda>m. \<not> msgId m \<le> k) (pendingMsgs st)"
  have old: "covers c ?t ms" if "covers c s ms" for ms
    by (rule covers_weaken [OF that]) (auto simp: outstanding_def)
  have new: "covers c ?t ?ms"
    by (rule covers_filter [OF pend]) (auto simp: outstanding_def)
  have "valid_log c (pendingMsgs st)" using pend by (simp add: covers_def)
  note D = confirmLog_disk [OF d [folded p] this run, unfolded p]
  from D(3) obtain vis' tail' where "covers c ?t vis'" "torn tail'" "healthy s \<longrightarrow> tail' = []"
    "contents w p = logBytes vis' @ tail'"
    using vis old [OF vis(1)] new torn_Nil by (metis append_Nil2)
  then show ?thesis
    using D(1,2) p new old L
    by (intro wal_inv_liveI [where L = "insert ?ms L" and vis = vis' and tail = tail'])
      (auto simp: unless_crashed_def split: if_splits)
qed

lemma wal_step_inv:
  assumes inv: "wal_inv c p s" and "wal_step c p s t"
  shows "wal_inv c p t"
  using assms(2)
proof cases
  case stop
  have "covers c (s\<lparr>wal := None\<rparr>) ms \<longleftrightarrow> covers c s ms" for ms by (simp add: covers_def outstanding_def)
  with inv show ?thesis unfolding wal_inv_def stop by simp
next
  case (lose_power w)
  have "covers c (s\<lparr>wal := None, walDisk := w\<rparr>) ms \<longleftrightarrow> covers c s ms" for ms by (simp add: covers_def outstanding_def)
  with inv disk_within_power_loss [OF _ lose_power(2)] show ?thesis
    unfolding wal_inv_def lose_power(1) by auto
next
  case (open_log rs r w)
  with open_inv [OF inv] show ?thesis by simp
next
  case (append st m rs r st' w)
  show ?thesis unfolding append(1) by (rule append_inv [OF inv append(2-6)])
next
  case (confirm st k rs r st' w)
  show ?thesis unfolding confirm(1) by (rule confirm_inv [OF inv confirm(2,3)])
qed

interpretation wal_machine: state_machine "wal_step c p" "wal_inv c p" for c p
  by unfold_locales (rule wal_step_inv)

lemma first_wal_inv: "first_wal p s \<Longrightarrow> wal_inv c p s"
  by (rule wal_invI [where L = "{[]}"])
    (auto simp: first_wal_def covers_def outstanding_def wal_files_def elim!: disk_within_mono)

text \<open>When no call fails, a log opens, a message is appended and confirmed.\<close>

lemma append_completes:
  assumes "wal s = Some st" and "healthy s" and "valid_message m" and "clientId m = c"
    and "\<forall>k \<in> set (attempted s). msgId k < msgId m"
  shows "\<exists>w. wal_step c p s (s\<lparr>attempted := attempted s @ [m], logged := logged s @ [m],
     wal := Some (st\<lparr>pendingMsgs := pendingMsgs st @ [m]\<rparr>), healthy := True, walDisk := w\<rparr>)"
proof -
  let ?rs = "replicate (length (logFrame m) + 8) (Ok 1)"
  have "\<exists>x w'. appendDurably (walPath st) (logFrame m) (wal_on_disk s ?rs) = (Done x, w')"
    by (rule completesD [OF completes_appendDurably]) simp_all
  then obtain w where "appendLog m st (wal_on_disk s ?rs)
      = (Done (), st\<lparr>pendingMsgs := pendingMsgs st @ [m]\<rparr>, w)"
    using serializeLogMessage_iff [of m "logFrame m"] assms(3) by (auto simp: appendLog_def)
  from wal_step.append [OF assms(1,2,4,5) this, of p] assms(2) show ?thesis
    by (auto simp: unless_crashed_def)
qed

lemma confirm_log_completes:
  assumes "wal s = Some st" and "valid_log c (pendingMsgs st)"
  shows "\<exists>w. wal_step c p s (s\<lparr>acked := acked s @ [k],
     wal := Some (st\<lparr>pendingMsgs := filter (\<lambda>m. \<not> msgId m \<le> k) (pendingMsgs st)\<rparr>), walDisk := w\<rparr>)"
proof -
  let ?ms = "filter (\<lambda>m. \<not> msgId m \<le> k) (pendingMsgs st)"
  let ?rs = "replicate (length (logBytes ?ms) + 8) (Ok 1)"
  let ?st = "st\<lparr>pendingMsgs := ?ms\<rparr>"
  have "\<exists>x w'. writeAtomically (walPath st) (logBytes ?ms) (wal_on_disk s ?rs) = (Done x, w')"
    by (rule completesD [OF completes_writeAtomically]) simp_all
  then obtain w' where "rewriteLocked ?st (wal_on_disk s ?rs) = (Done (), w')"
    using rewriteLocked_valid [of c ?st] valid_log_filter [OF assms(2)] by auto
  moreover have "?st = st" if "length ?ms = length (pendingMsgs st)"
    using that length_filter_less by (metis (no_types, lifting) WriteAheadLog.surjective WriteAheadLog.update_convs(2) filter_True less_irrefl)
  ultimately obtain w where "confirmLog k st (wal_on_disk s ?rs) = (Done (), ?st, w)"
    by (cases "length ?ms = length (pendingMsgs st)") (auto simp: confirmLog_def Let_def)
  from wal_step.confirm [OF assms(1) this, of c p] show ?thesis
    by (auto simp: unless_crashed_def)
qed

lemma open_log_completes:
  assumes "first_wal p s" and "p \<noteq> []"
  shows "\<exists>w. wal_step c p s (s\<lparr>wal := Some \<lparr>walPath = p, pendingMsgs = []\<rparr>, healthy := True, walDisk := w\<rparr>)"
proof -
  have "fileAt (walDisk s) p = None" "wal s = None"
    using assms(1) by (simp_all add: first_wal_def disk_within_def)
  then have "openLog p (wal_on_disk s []) = (Done \<lparr>walPath = p, pendingMsgs = []\<rparr>, wal_on_disk s [])"
    using assms(2) scanLog_valid [of "[]" "[]" "[]" "[]" "[]"]
    by (simp add: openLog_def bindW_def readFile_def fileAt_def doneW_def)
  from wal_step.open_log [OF \<open>wal s = None\<close> this, of c] show ?thesis by auto
qed


section \<open>Properties\<close>

text \<open>
  Property C31. Loading the write-ahead log gives exactly the records that were written completely: for
  any log of one client with increasing ids, followed by any proper part of one more record, the
  records are those of the log, and the truncated tail is noticed when there is one.
\<close>

theorem wal_recovers_complete_records:
  assumes "\<forall>m \<in> set ms. valid_message m \<and> clientId m = c" and "sorted_wrt (<) (map msgId ms)"
    and "valid_message m" and "k < length (logFrame m)"
  shows "scanLog (concat (map logFrame ms) @ take k (logFrame m)) 0 [] = Inr (ms, k \<noteq> 0)"
proof -
  have "strict_prefix (take k (logFrame m)) (logFrame m)"
    using assms(4) take_is_prefix [of k "logFrame m"] unfolding strict_prefix_def
    by (metis length_take less_irrefl min_less_iff_conj)
  then have "torn (take k (logFrame m))" using assms(3) by (auto simp: torn_def)
  then show ?thesis
    using scanLog_valid [of c "[]" ms "take k (logFrame m)" "[]"] assms(1,2)
    by (simp add: valid_log_def logBytes_def)
qed

lemma wal_recovers_complete_records_witness:
  "scanLog (concat (map logFrame [sample_message 1, sample_message 5]) @ take 20 (logFrame (sample_message 9))) 0 []
    = Inr ([sample_message 1, sample_message 5], True)"
  using wal_recovers_complete_records [of "[sample_message 1, sample_message 5]" "clientId (sample_message 1)"
      "sample_message 9" 20]
  by (simp add: FrameHeaderSize_def message_size_def LogRecordFixedSize_def)

text \<open>
  Property C9. No logged message is lost before its confirmation: over all restarts, failed calls,
  crashes and power losses, a message for which \<^verbatim>\<open>append\<close> returned and whose id is above every
  confirmed id is among the pending messages of every running log, and of every log opened later,
  whatever a power loss leaves of the file. Nothing else than what was given to \<^verbatim>\<open>append\<close> is pending,
  and opening never finds the file malformed.
\<close>

theorem wal_never_loses:
  assumes "first_wal p s" and "wal_reach c p s t"
  shows "(\<forall>st. wal t = Some st \<longrightarrow> outstanding t \<subseteq> set (pendingMsgs st) \<and> set (pendingMsgs st) \<subseteq> set (attempted t))
    \<and> (\<forall>w0 rs r w. w0 = walDisk t \<or> power_loss (walDisk t) w0 \<longrightarrow> openLog p (w0\<lparr>sched := rs\<rparr>) = (r, w) \<longrightarrow>
         (\<forall>st. r = Done st \<longrightarrow> outstanding t \<subseteq> set (pendingMsgs st) \<and> set (pendingMsgs st) \<subseteq> set (attempted t))
         \<and> (\<forall>msg. r \<noteq> Throw (ProtocolError msg))
         \<and> r \<noteq> Throw (RuntimeError ''WAL contains a non-log frame'')
         \<and> r \<noteq> Throw (RuntimeError ''WAL message IDs are not increasing'')
         \<and> r \<noteq> Throw (RuntimeError ''WAL contains multiple client IDs''))"
proof -
  have inv: "wal_inv c p t"
    using wal_machine.invariant [OF assms(2) first_wal_inv [OF assms(1)]] .
  then obtain L where d: "disk_within p (wal_files c L) (walDisk t)" and L: "\<And>ms. ms \<in> L \<Longrightarrow> covers c t ms"
    unfolding wal_inv_def by blast
  have "disk_within p (wal_files c L) (w0\<lparr>sched := rs\<rparr>)" if "w0 = walDisk t \<or> power_loss (walDisk t) w0" for w0 rs
    using that d disk_within_power_loss [OF d] by auto
  note D = openLog_disk [OF this]
  have "outstanding t \<subseteq> set (pendingMsgs st) \<and> set (pendingMsgs st) \<subseteq> set (attempted t)" if "wal t = Some st" for st
    using inv that by (auto simp: wal_inv_def covers_def)
  moreover have "(\<forall>st. r = Done st \<longrightarrow> outstanding t \<subseteq> set (pendingMsgs st) \<and> set (pendingMsgs st) \<subseteq> set (attempted t))
         \<and> (\<forall>msg. r \<noteq> Throw (ProtocolError msg))
         \<and> r \<noteq> Throw (RuntimeError ''WAL contains a non-log frame'')
         \<and> r \<noteq> Throw (RuntimeError ''WAL message IDs are not increasing'')
         \<and> r \<noteq> Throw (RuntimeError ''WAL contains multiple client IDs'')"
    if "w0 = walDisk t \<or> power_loss (walDisk t) w0" "openLog p (w0\<lparr>sched := rs\<rparr>) = (r, w)" for w0 rs r w
  proof -
    have "covers c t (pendingMsgs st)" if "r = Done st" for st
      using D(2) [OF \<open>w0 = _ \<or> _\<close> \<open>openLog p _ = _\<close> that] L by blast
    with D(3-6) [OF that] show ?thesis by (simp add: covers_def)
  qed
  ultimately show ?thesis by simp
qed

lemma wal_never_loses_witness:
  "\<exists>s t. first_wal ''w'' s \<and> wal_reach ''a1'' ''w'' s t \<and> outstanding t = {sample_message 2}
    \<and> (\<forall>st. wal t = Some st \<longrightarrow> sample_message 2 \<in> set (pendingMsgs st)) \<and> wal t \<noteq> None"
proof -
  let ?m1 = "sample_message 1" and ?m2 = "sample_message 2"
  let ?d = "\<lparr>curDir = Map.empty, dirHist = [Map.empty], fileData = (\<lambda>_. []), fileSynced = (\<lambda>_. []),
     nextInode = 0, sched = []\<rparr>"
  let ?mk = "\<lambda>ms as pend d. \<lparr>attempted = ms, logged = ms, acked = as,
     wal = Some \<lparr>walPath = ''w'', pendingMsgs = pend\<rparr>, healthy = True, walDisk = d\<rparr>"
  let ?s = "\<lparr>attempted = [], logged = [], acked = [], wal = None, healthy = False, walDisk = ?d\<rparr>"
  have s: "first_wal ''w'' ?s"
    by (auto simp: first_wal_def disk_within_def owns_file_def wf_world_def inodesOf_def fileAt_def surviving_iff)
  obtain d1 where 1: "wal_step ''a1'' ''w'' ?s (?mk [] [] [] d1)"
    using open_log_completes [OF s, of "''a1''"] by auto
  obtain d2 where 2: "wal_step ''a1'' ''w'' (?mk [] [] [] d1) (?mk [?m1] [] [?m1] d2)"
    using append_completes [of "?mk [] [] [] d1" _ ?m1 "''a1''" "''w''"] by auto
  obtain d3 where 3: "wal_step ''a1'' ''w'' (?mk [?m1] [] [?m1] d2) (?mk [?m1, ?m2] [] [?m1, ?m2] d3)"
    using append_completes [of "?mk [?m1] [] [?m1] d2" _ ?m2 "''a1''" "''w''"] by auto
  have "valid_log ''a1'' [?m1, ?m2]" and ids: "\<not> (2 :: u64) \<le> 1"
    by (simp_all add: valid_log_def word_le_nat_alt)
  then obtain d4 where 4: "wal_step ''a1'' ''w'' (?mk [?m1, ?m2] [] [?m1, ?m2] d3) (?mk [?m1, ?m2] [1] [?m2] d4)"
    using confirm_log_completes [of "?mk [?m1, ?m2] [] [?m1, ?m2] d3" _ "''a1''" "''w''" 1] ids by auto
  have reach: "wal_reach ''a1'' ''w'' ?s (?mk [?m1, ?m2] [1] [?m2] d4)"
    using 1 2 3 4 by (meson reach_intros)
  have out: "outstanding (?mk [?m1, ?m2] [1] [?m2] d4) = {?m2}"
    by (auto simp: outstanding_def)
  show ?thesis
    using wal_never_loses [OF s reach] s reach out
    by (intro exI [of _ ?s] exI [of _ "?mk [?m1, ?m2] [1] [?m2] d4"]) simp
qed

end
