(* ===== verification/SocketIO.thy ===== *)
theory SocketIO
  imports Frames
begin

text \<open>
  \<^verbatim>\<open>src/src/SocketIO.cpp\<close>: whole frames over a byte stream. What \<^verbatim>\<open>recv\<close> and \<^verbatim>\<open>send\<close> do is given by
  lists of events: the kernel may cut the stream anywhere and interrupt any call. The theorems
  say that the cuts and interruptions cannot be seen: what is received depends on the bytes and
  on how the connection ends only, and what was sent as one frame is received as that frame.
\<close>

section \<open>The connection\<close>

text \<open>
  What the next calls of \<^verbatim>\<open>recv\<close> meet. A segment is handed out over several calls when it is longer
  than the buffer; an exhausted list is a peer that stays silent, on which a call does not return.
\<close>

datatype event = Segment ByteBuffer | PeerClosed | RecvFails errno

datatype 'a netout = Returned 'a | Failed exn | Waiting

fun recv :: "nat \<Rightarrow> event list \<Rightarrow> (ByteBuffer + errno) option \<times> event list" where
  "recv n [] = (None, [])"
| "recv n (Segment bs # evs) =
     (if bs = [] then recv n evs
      else (Some (Inl (take n bs)), if length bs \<le> n then evs else Segment (drop n bs) # evs))"
| "recv n (PeerClosed # evs) = (Some (Inl []), PeerClosed # evs)"
| "recv n (RecvFails e # evs) = (Some (Inr e), evs)"

fun event_size :: "event list \<Rightarrow> nat" where
  "event_size [] = 0"
| "event_size (Segment bs # evs) = Suc (length bs) + event_size evs"
| "event_size (e # evs) = Suc (event_size evs)"

lemma recv_progress:
  assumes "recv n evs = (Some (Inl bs), evs')" and "bs \<noteq> []"
  shows "event_size evs' < event_size evs"
  using assms
proof (induction evs)
  case (Cons e evs)
  then show ?case by (cases e) (auto split: if_splits)
qed simp

lemma recv_error_progress: "recv n evs = (Some (Inr e), evs') \<Longrightarrow> event_size evs' < event_size evs"
proof (induction evs)
  case (Cons e evs)
  then show ?case by (cases e) (auto split: if_splits)
qed simp


section \<open>The code\<close>

text \<open>
  \<^verbatim>\<open>receiveExact\<close>: \<open>None\<close> is the result false, \<open>Some bs\<close> the filled buffer.
\<close>

function receiveLoop :: "nat \<Rightarrow> ByteBuffer \<Rightarrow> event list \<Rightarrow> ByteBuffer option netout \<times> event list" where
  "receiveLoop need received evs =
     (if length received < need then
        (case recv (need - length received) evs of
           (None, evs') \<Rightarrow> (Waiting, evs')
         | (Some (Inl bs), evs') \<Rightarrow>
             if bs \<noteq> [] then receiveLoop need (received @ bs) evs'
             else if received = [] then (Returned None, evs')
             else (Failed (RuntimeError ''connection closed in the middle of a frame''), evs')
         | (Some (Inr e), evs') \<Rightarrow>
             if e = EINTR then receiveLoop need received evs'
             else (Failed (SystemError e ''cannot receive protocol data''), evs'))
      else (Returned (Some received), evs))"
  by pat_completeness auto
termination
  by (relation "measure (\<lambda>(_, _, evs). event_size evs)")
    (auto dest: recv_progress [OF sym] recv_error_progress [OF sym])

declare receiveLoop.simps [simp del]

definition receiveExact :: "nat \<Rightarrow> event list \<Rightarrow> ByteBuffer option netout \<times> event list" where
  "receiveExact need evs = receiveLoop need [] evs"

definition receiveFrame :: "event list \<Rightarrow> ByteBuffer option netout \<times> event list" where
  "receiveFrame evs =
     (case receiveExact FrameHeaderSize evs of
        (Returned None, evs1) \<Rightarrow> (Returned None, evs1)
      | (Returned (Some header), evs1) \<Rightarrow>
          (case parseFrameHeader header of
             Inl e \<Rightarrow> (Failed e, evs1)
           | Inr h \<Rightarrow>
               (case receiveExact (unat (payloadLength h)) evs1 of
                  (Returned None, evs2) \<Rightarrow>
                    (Failed (RuntimeError ''connection closed before the frame payload''), evs2)
                | (Returned (Some payload), evs2) \<Rightarrow> (Returned (Some (header @ payload)), evs2)
                | (Failed e, evs2) \<Rightarrow> (Failed e, evs2)
                | (Waiting, evs2) \<Rightarrow> (Waiting, evs2)))
      | (Failed e, evs1) \<Rightarrow> (Failed e, evs1)
      | (Waiting, evs1) \<Rightarrow> (Waiting, evs1))"

text \<open>
  \<^verbatim>\<open>sendAll\<close>: the results of \<^verbatim>\<open>send\<close> are a list, \<open>Inl n\<close> for \<open>n\<close> bytes taken. The second component is
  what has gone out.
\<close>

fun sendAll :: "(nat + errno) list \<Rightarrow> ByteBuffer \<Rightarrow> nat \<Rightarrow> unit netout \<times> ByteBuffer \<times> (nat + errno) list" where
  "sendAll [] bs sent = ((if sent < length bs then Waiting else Returned ()), take sent bs, [])"
| "sendAll (r # rs) bs sent =
     (if sent < length bs then
        (case r of
           Inl n \<Rightarrow>
             if n > 0 then sendAll rs bs (sent + min n (length bs - sent))
             else (Failed (SystemError EPIPE ''cannot send protocol data''), take sent bs, rs)
         | Inr e \<Rightarrow>
             if e = EINTR then sendAll rs bs sent
             else (Failed (SystemError e ''cannot send protocol data''), take sent bs, rs))
      else (Returned (), take sent bs, r # rs))"


section \<open>The byte stream of a connection\<close>

text \<open>
  What the peer sent, and how the stream ends: the cuts between segments and the interruptions
  are gone.
\<close>

datatype ending = Silent | Closed | Broken errno "event list"

fun stream_of :: "event list \<Rightarrow> ByteBuffer \<times> ending" where
  "stream_of [] = ([], Silent)"
| "stream_of (Segment bs # evs) = (case stream_of evs of (cs, x) \<Rightarrow> (bs @ cs, x))"
| "stream_of (PeerClosed # evs) = ([], Closed)"
| "stream_of (RecvFails e # evs) = (if e = EINTR then stream_of evs else ([], Broken e evs))"

definition bytes_of :: "event list \<Rightarrow> ByteBuffer" where
  "bytes_of evs = fst (stream_of evs)"

definition ending_of :: "event list \<Rightarrow> ending" where
  "ending_of evs = snd (stream_of evs)"

lemma stream_simps [simp]:
  "bytes_of [] = []" "bytes_of (Segment bs # evs) = bs @ bytes_of evs" "bytes_of (PeerClosed # evs) = []"
  "bytes_of (RecvFails e # evs) = (if e = EINTR then bytes_of evs else [])"
  "ending_of [] = Silent" "ending_of (Segment bs # evs) = ending_of evs"
  "ending_of (PeerClosed # evs) = Closed"
  "ending_of (RecvFails e # evs) = (if e = EINTR then ending_of evs else Broken e evs)"
  by (simp_all add: bytes_of_def ending_of_def split: prod.splits)

text \<open>The abstract receiver: what \<open>receiveExact\<close> returns, from the bytes and the ending.\<close>

fun ended :: "ByteBuffer \<Rightarrow> ending \<Rightarrow> ByteBuffer option netout" where
  "ended received Silent = Waiting"
| "ended received Closed =
     (if received = [] then Returned None
      else Failed (RuntimeError ''connection closed in the middle of a frame''))"
| "ended received (Broken e evs) = Failed (SystemError e ''cannot receive protocol data'')"

definition take_exact :: "nat \<Rightarrow> ByteBuffer \<Rightarrow> ending \<Rightarrow> ByteBuffer option netout" where
  "take_exact need bs x = (if need \<le> length bs then Returned (Some (take need bs)) else ended bs x)"

lemma recv_stream:
  assumes "recv n evs = (r, evs')" and "0 < n"
  shows "case r of
      None \<Rightarrow> bytes_of evs = [] \<and> ending_of evs = Silent
    | Some (Inl bs) \<Rightarrow>
        if bs = [] then bytes_of evs = [] \<and> ending_of evs = Closed
        else length bs \<le> n \<and> bytes_of evs = bs @ bytes_of evs' \<and> ending_of evs = ending_of evs'
    | Some (Inr e) \<Rightarrow>
        if e = EINTR then bytes_of evs = bytes_of evs' \<and> ending_of evs = ending_of evs'
        else bytes_of evs = [] \<and> ending_of evs = Broken e evs'"
  using assms
proof (induction evs)
  case Nil
  then show ?case by auto
next
  case (Cons ev evs)
  then show ?case
  proof (cases ev)
    case (Segment bs)
    show ?thesis
    proof (cases "bs = []")
      case True
      with Cons Segment show ?thesis by (simp split: option.splits sum.splits)
    next
      case False
      with Cons.prems Segment show ?thesis by (auto split: if_splits)
    qed
  qed (use Cons.prems in \<open>auto split: if_splits\<close>)
qed

lemma receiveLoop_stream:
  assumes "length received \<le> need"
  shows "fst (receiveLoop need received evs) = take_exact need (received @ bytes_of evs) (ending_of evs)
    \<and> (need \<le> length (received @ bytes_of evs) \<longrightarrow>
        bytes_of (snd (receiveLoop need received evs)) = drop (need - length received) (bytes_of evs)
        \<and> ending_of (snd (receiveLoop need received evs)) = ending_of evs)"
  using assms
proof (induction need received evs rule: receiveLoop.induct)
  case (1 need received evs)
  show ?case
  proof (cases "length received < need")
    case False
    with 1(3) show ?thesis by (subst receiveLoop.simps) (simp add: take_exact_def receiveLoop.simps [of need])
  next
    case True
    obtain r evs' where r: "recv (need - length received) evs = (r, evs')" by (rule prod.exhaust)
    note R = recv_stream [OF r]
    note step = receiveLoop.simps [of need received evs]
    show ?thesis
    proof (cases r)
      case None
      with R True r show ?thesis by (simp add: step take_exact_def)
    next
      case (Some y)
      show ?thesis
      proof (cases y)
        case (Inr e)
        show ?thesis
        proof (cases "e = EINTR")
          case True': True
          then have "receiveLoop need received evs = receiveLoop need received evs'"
            using step r Some Inr True by simp
          with 1(2) [OF True r [symmetric] Some Inr True'] R Some Inr True True' 1(3) show ?thesis
            by simp
        next
          case False
          with R True r Some Inr show ?thesis by (simp add: step take_exact_def)
        qed
      next
        case (Inl bs)
        show ?thesis
        proof (cases "bs = []")
          case True': True
          with R True r Some Inl show ?thesis by (simp add: step take_exact_def)
        next
          case False
          then have eq: "receiveLoop need received evs = receiveLoop need (received @ bs) evs'"
            using step r Some Inl True by simp
          have "length bs \<le> need - length received" "bytes_of evs = bs @ bytes_of evs'" "ending_of evs = ending_of evs'"
            using R Some Inl True False by simp_all
          with 1(1) [OF True r [symmetric] Some Inl False] 1(3) True show ?thesis
            unfolding eq by (simp add: drop_append)
        qed
      qed
    qed
  qed
qed

lemma receiveExact_stream:
  "fst (receiveExact need evs) = take_exact need (bytes_of evs) (ending_of evs)"
  "need \<le> length (bytes_of evs) \<Longrightarrow> bytes_of (snd (receiveExact need evs)) = drop need (bytes_of evs)"
  "need \<le> length (bytes_of evs) \<Longrightarrow> ending_of (snd (receiveExact need evs)) = ending_of evs"
  using receiveLoop_stream [of "[]" need evs] by (simp_all add: receiveExact_def)

lemma receiveExact_enough:
  assumes "need \<le> length (bytes_of evs)"
  obtains evs' where "receiveExact need evs = (Returned (Some (take need (bytes_of evs))), evs')"
    and "bytes_of evs' = drop need (bytes_of evs)" and "ending_of evs' = ending_of evs"
  using receiveExact_stream [of need evs] assms
  by (cases "receiveExact need evs") (auto simp: take_exact_def)

lemma receiveExact_short:
  assumes "length (bytes_of evs) < need"
  obtains evs' where "receiveExact need evs = (ended (bytes_of evs) (ending_of evs), evs')"
  using receiveExact_stream(1) [of need evs] assms
  by (cases "receiveExact need evs") (auto simp: take_exact_def)

lemma receiveExact_zero [simp]: "receiveExact 0 evs = (Returned (Some []), evs)"
  by (simp add: receiveExact_def receiveLoop.simps)


section \<open>Frames on the stream\<close>

text \<open>The abstract frame receiver.\<close>

definition frame_of :: "ByteBuffer \<Rightarrow> ending \<Rightarrow> ByteBuffer option netout" where
  "frame_of bs x =
     (if length bs < FrameHeaderSize then ended bs x
      else case parseFrameHeader (take FrameHeaderSize bs) of
        Inl e \<Rightarrow> Failed e
      | Inr h \<Rightarrow>
          (let n = FrameHeaderSize + unat (payloadLength h)
           in if n \<le> length bs then Returned (Some (take n bs))
              else case ended (drop FrameHeaderSize bs) x of
                Returned None \<Rightarrow> Failed (RuntimeError ''connection closed before the frame payload'')
              | r \<Rightarrow> r))"

lemma ended_neq [simp]: "ended bs x \<noteq> Returned (Some y)"
  by (cases x) auto

lemma receiveFrame_stream:
  "fst (receiveFrame evs) = frame_of (bytes_of evs) (ending_of evs)"
  "receiveFrame evs = (Returned (Some f), evs') \<Longrightarrow> bytes_of evs = f @ bytes_of evs' \<and> ending_of evs' = ending_of evs"
proof -
  have "fst (receiveFrame evs) = frame_of (bytes_of evs) (ending_of evs) \<and>
    (\<forall>f evs'. receiveFrame evs = (Returned (Some f), evs') \<longrightarrow> bytes_of evs = f @ bytes_of evs' \<and> ending_of evs' = ending_of evs)"
  proof (cases "length (bytes_of evs) < FrameHeaderSize")
    case True
    then obtain evs1 where "receiveExact FrameHeaderSize evs = (ended (bytes_of evs) (ending_of evs), evs1)"
      by (rule receiveExact_short)
    with True show ?thesis
      by (cases "ended (bytes_of evs) (ending_of evs)")
        (auto simp: receiveFrame_def frame_of_def ended_neq split: option.splits dest: sym)
  next
    case False
    then obtain evs1 where 1: "receiveExact FrameHeaderSize evs = (Returned (Some (take FrameHeaderSize (bytes_of evs))), evs1)"
      "bytes_of evs1 = drop FrameHeaderSize (bytes_of evs)" "ending_of evs1 = ending_of evs"
      by (metis not_less receiveExact_enough)
    show ?thesis
    proof (cases "parseFrameHeader (take FrameHeaderSize (bytes_of evs))")
      case (Inl e)
      with 1 False show ?thesis by (simp add: receiveFrame_def frame_of_def)
    next
      case (Inr h)
      let ?n = "unat (payloadLength h)"
      show ?thesis
      proof (cases "?n \<le> length (bytes_of evs1)")
        case True
        then obtain evs2 where 2: "receiveExact ?n evs1 = (Returned (Some (take ?n (bytes_of evs1))), evs2)"
          "bytes_of evs2 = drop ?n (bytes_of evs1)" "ending_of evs2 = ending_of evs1"
          by (rule receiveExact_enough)
        have n: "FrameHeaderSize + ?n \<le> length (bytes_of evs)" using True 1(2) False by simp
        have f: "take FrameHeaderSize (bytes_of evs) @ take ?n (drop FrameHeaderSize (bytes_of evs))
          = take (FrameHeaderSize + ?n) (bytes_of evs)"
          by (rule take_add [symmetric])
        have run: "receiveFrame evs = (Returned (Some (take (FrameHeaderSize + ?n) (bytes_of evs))), evs2)"
          using 1 2 Inr f by (simp add: receiveFrame_def)
        have "bytes_of evs = take (FrameHeaderSize + ?n) (bytes_of evs) @ bytes_of evs2"
          using 1 2 by (simp add: add.commute)
        with run n False Inr 1 2 show ?thesis by (simp add: frame_of_def Let_def)
      next
        case short: False
        then obtain evs2 where 2: "receiveExact ?n evs1 = (ended (bytes_of evs1) (ending_of evs1), evs2)"
          by (metis not_less receiveExact_short)
        have n: "\<not> FrameHeaderSize + ?n \<le> length (bytes_of evs)" using short 1(2) False by simp
        with 1 2 False Inr show ?thesis
          by (cases "ending_of evs") (auto simp: receiveFrame_def frame_of_def Let_def)
      qed
    qed
  qed
  then show "fst (receiveFrame evs) = frame_of (bytes_of evs) (ending_of evs)"
    "receiveFrame evs = (Returned (Some f), evs') \<Longrightarrow> bytes_of evs = f @ bytes_of evs' \<and> ending_of evs' = ending_of evs"
    by blast+
qed

text \<open>A byte sequence that starts with a frame of any of the codecs is received as that frame.\<close>

definition is_frame :: "ByteBuffer \<Rightarrow> bool" where
  "is_frame f \<longleftrightarrow> (\<exists>h. FrameHeaderSize \<le> length f \<and> parseFrameHeader (take FrameHeaderSize f) = Inr h
     \<and> length f = FrameHeaderSize + unat (payloadLength h))"

context frame_codec
begin

lemma is_frame_ser: "ser x = Inr f \<Longrightarrow> is_frame f"
  using header_of_frame [of x f FrameHeaderSize "[]"] by (auto simp: is_frame_def)

end

lemma frame_of_frame: "is_frame f \<Longrightarrow> frame_of (f @ bs) x = Returned (Some f)"
  by (auto simp: is_frame_def frame_of_def Let_def)

lemma frame_of_part:
  assumes "is_frame f" and "k < length f"
  shows "frame_of (take k f) x \<noteq> Returned (Some g)"
proof -
  obtain h where h: "FrameHeaderSize \<le> length f" "parseFrameHeader (take FrameHeaderSize f) = Inr h"
    "length f = FrameHeaderSize + unat (payloadLength h)"
    using assms(1) by (auto simp: is_frame_def)
  show ?thesis
  proof (cases "k < FrameHeaderSize")
    case False
    then have "take FrameHeaderSize (take k f) = take FrameHeaderSize f" by (simp add: min_def)
    with h assms(2) False show ?thesis
      by (cases x) (auto simp: frame_of_def Let_def)
  qed (use assms(2) in \<open>simp add: frame_of_def min_def\<close>)
qed

lemma receiveFrame_frame:
  assumes "is_frame f" and "bytes_of evs = f @ bs"
  obtains evs' where "receiveFrame evs = (Returned (Some f), evs')" and "bytes_of evs' = bs"
    and "ending_of evs' = ending_of evs"
proof -
  have "fst (receiveFrame evs) = Returned (Some f)"
    using receiveFrame_stream(1) [of evs] frame_of_frame [OF assms(1)] assms(2) by simp
  then obtain evs' where "receiveFrame evs = (Returned (Some f), evs')"
    by (cases "receiveFrame evs") auto
  moreover from receiveFrame_stream(2) [OF this] assms(2) have "bytes_of evs' = bs" "ending_of evs' = ending_of evs"
    by auto
  ultimately show ?thesis by (rule that)
qed

text \<open>Frame after frame.\<close>

fun receiveFrames :: "nat \<Rightarrow> event list \<Rightarrow> ByteBuffer list netout \<times> event list" where
  "receiveFrames 0 evs = (Returned [], evs)"
| "receiveFrames (Suc n) evs =
     (case receiveFrame evs of
        (Returned (Some f), evs1) \<Rightarrow>
          (case receiveFrames n evs1 of
             (Returned fs, evs2) \<Rightarrow> (Returned (f # fs), evs2)
           | (Failed e, evs2) \<Rightarrow> (Failed e, evs2)
           | (Waiting, evs2) \<Rightarrow> (Waiting, evs2))
      | (Returned None, evs1) \<Rightarrow> (Returned [], evs1)
      | (Failed e, evs1) \<Rightarrow> (Failed e, evs1)
      | (Waiting, evs1) \<Rightarrow> (Waiting, evs1))"

lemma receiveFrames_concat:
  assumes "\<forall>f \<in> set fs. is_frame f" and "bytes_of evs = concat fs @ bs"
  shows "\<exists>evs'. receiveFrames (length fs) evs = (Returned fs, evs') \<and> bytes_of evs' = bs
    \<and> ending_of evs' = ending_of evs"
  using assms
proof (induction fs arbitrary: evs)
  case (Cons f fs)
  obtain evs1 where 1: "receiveFrame evs = (Returned (Some f), evs1)" "bytes_of evs1 = concat fs @ bs"
    "ending_of evs1 = ending_of evs"
    using receiveFrame_frame [of f evs "concat fs @ bs"] Cons.prems by auto
  with Cons.IH [of evs1] Cons.prems show ?case by auto
qed simp


section \<open>Sending\<close>

lemma sendAll_result:
  assumes "sendAll rs bs n = (r, out, rs')" and "n \<le> length bs"
  shows "prefix out bs \<and> (r = Returned () \<longrightarrow> out = bs)"
  using assms
proof (induction rs bs n rule: sendAll.induct)
  case (2 r0 rs bs n)
  then show ?case by (cases r0) (auto split: if_splits simp: take_is_prefix)
qed (auto split: if_splits simp: take_is_prefix)

lemma sendAll_completes:
  assumes "\<forall>r \<in> set rs. \<exists>n. r = Inl (Suc n)" and "length bs - k \<le> length rs" and "k \<le> length bs"
  shows "\<exists>rs'. sendAll rs bs k = (Returned (), bs, rs')"
  using assms
proof (induction rs bs k rule: sendAll.induct)
  case (2 r rs bs k)
  then obtain n where "r = Inl (Suc n)" by auto
  with 2 show ?case by (cases "k < length bs") (auto simp: min_def)
qed auto


section \<open>Properties\<close>

text \<open>
  Property C21. What \<^verbatim>\<open>receiveFrame\<close> returns does not depend on how the stream was cut into segments or
  how often calls were interrupted: two connections with the same bytes and the same ending give
  the same result, and leave the same bytes when a frame was returned.
\<close>

theorem segmentation_invisible:
  assumes "bytes_of evs1 = bytes_of evs2" and "ending_of evs1 = ending_of evs2"
  shows "fst (receiveFrame evs1) = fst (receiveFrame evs2)
    \<and> (\<forall>f. fst (receiveFrame evs1) = Returned (Some f) \<longrightarrow>
         bytes_of (snd (receiveFrame evs1)) = bytes_of (snd (receiveFrame evs2)))"
proof -
  have same: "fst (receiveFrame evs1) = fst (receiveFrame evs2)"
    using assms by (simp add: receiveFrame_stream(1))
  moreover have "bytes_of (snd (receiveFrame evs1)) = bytes_of (snd (receiveFrame evs2))"
    if "fst (receiveFrame evs1) = Returned (Some f)" for f
    using receiveFrame_stream(2) [of evs1 f "snd (receiveFrame evs1)"]
      receiveFrame_stream(2) [of evs2 f "snd (receiveFrame evs2)"] same that assms(1)
    by (auto simp: prod_eq_iff)
  ultimately show ?thesis by blast
qed

lemma segmentation_invisible_witness:
  "fst (receiveFrame [Segment [76, 71], RecvFails EINTR, Segment [66], PeerClosed])
    = fst (receiveFrame [Segment [76, 71, 66], PeerClosed])"
  using segmentation_invisible [of "[Segment [76, 71], RecvFails EINTR, Segment [66], PeerClosed]"
      "[Segment [76, 71, 66], PeerClosed]"] by simp

text \<open>
  Frames are transferred whole: when the sender's \<^verbatim>\<open>sendAll\<close> of a batch returns and the
  network delivers what went out, in whatever pieces, followed by anything, the receiver gets the
  frame, it decodes to the batch, and the following bytes are left. When \<^verbatim>\<open>sendAll\<close> fails before the
  last byte and nothing follows, the receiver gets no frame, whatever way the connection ends.
\<close>

lemma batch_transferred_whole:
  assumes "serializeLogBatch ms = Inr f" and "sendAll rs f 0 = (r, out, rs')"
  shows "(r = Returned () \<longrightarrow> bytes_of evs = out @ later \<longrightarrow>
      (\<exists>evs'. receiveFrame evs = (Returned (Some f), evs') \<and> deserializeLogBatch f = Inr ms \<and> bytes_of evs' = later))
    \<and> (out \<noteq> f \<longrightarrow> bytes_of evs = out \<longrightarrow> (\<nexists>g. fst (receiveFrame evs) = Returned (Some g)))"
proof -
  have f: "is_frame f" using batch_codec.is_frame_ser [OF assms(1)] .
  have des: "deserializeLogBatch f = Inr ms" using assms(1) by (simp add: batch_codec.des_iff_ser)
  have k: "out = take (length out) f" "r = Returned () \<longrightarrow> out = f"
    using sendAll_result [OF assms(2)] by (auto simp: prefix_def)
  have "\<exists>evs'. receiveFrame evs = (Returned (Some f), evs') \<and> deserializeLogBatch f = Inr ms \<and> bytes_of evs' = later"
    if "r = Returned ()" "bytes_of evs = out @ later"
    using receiveFrame_frame [OF f, of evs later] k(2) that des by metis
  moreover have "fst (receiveFrame evs) \<noteq> Returned (Some g)" if "out \<noteq> f" "bytes_of evs = out" for g
  proof -
    have "length out < length f" using k(1) that(1) by (metis not_le take_all)
    from frame_of_part [OF f this] show ?thesis
      using k(1) that(2) by (simp add: receiveFrame_stream(1))
  qed
  ultimately show ?thesis by blast
qed

text \<open>
  A sequence of frames sent back to back is received frame by frame, in order and
  whatever the cuts, and each received frame has a header that announces its length, at most
  16 MiB of payload.
\<close>

lemma frames_received_in_order:
  assumes "\<forall>f \<in> set fs. (\<exists>m. serializeLogMessage m = Inr f) \<or> (\<exists>ms. serializeLogBatch ms = Inr f) \<or> (\<exists>i. f = serializeAck i)"
    and "bytes_of evs = concat fs"
  shows "fst (receiveFrames (length fs) evs) = Returned fs
    \<and> bytes_of (snd (receiveFrames (length fs) evs)) = []
    \<and> (\<forall>f \<in> set fs. FrameHeaderSize \<le> length f \<and> length f \<le> FrameHeaderSize + MaxFramePayloadLength)"
proof -
  have frames: "\<forall>f \<in> set fs. is_frame f"
    using assms(1) log_codec.is_frame_ser batch_codec.is_frame_ser
      ack_codec.is_frame_ser [of "\<lparr>confirmedId = i\<rparr>" for i] by fastforce
  have "length f \<le> FrameHeaderSize + MaxFramePayloadLength" if f: "is_frame f" for f
  proof -
    obtain h where "parseFrameHeader (take FrameHeaderSize f) = Inr h" "length f = FrameHeaderSize + unat (payloadLength h)"
      using f by (auto simp: is_frame_def)
    then show ?thesis by (simp add: parseFrameHeader_iff)
  qed
  then show ?thesis
    using receiveFrames_concat [OF frames, of evs "[]"] assms(2) frames by (auto simp: is_frame_def)
qed

end
