(* ===== verification/TcpClient.thy ===== *)
theory TcpClient
  imports SocketIO TextIO
begin

text \<open>
  \<^verbatim>\<open>src/src/TcpClient.cpp\<close>: connecting to the first address that answers, the socket timeouts, and
  sending a batch until its acknowledgement. Name resolution and the socket calls are parameters:
  lists of results. The descriptors of the process are a set, so that leaks can be seen.
\<close>

section \<open>The code\<close>

text \<open>
  One address of the list \<^verbatim>\<open>getaddrinfo\<close> returns: what \<^verbatim>\<open>socket\<close> does for it, and the successive
  results of \<^verbatim>\<open>connect\<close> (\<open>None\<close> is success).
\<close>

record candidate =
  socketResult :: "nat + errno"
  connectResults :: "errno option list"

text \<open>The \<^verbatim>\<open>do ... while\<close> loop around \<^verbatim>\<open>connect\<close>; no more results means a call that does not return.\<close>

fun connectLoop :: "errno option list \<Rightarrow> (unit + errno) option" where
  "connectLoop [] = None"
| "connectLoop (None # rs) = Some (Inl ())"
| "connectLoop (Some e # rs) = (if e = EINTR then connectLoop rs else Some (Inr e))"

fun tryCandidates :: "candidate list \<Rightarrow> errno \<Rightarrow> nat set \<Rightarrow> nat netout \<times> nat set" where
  "tryCandidates [] lastError fds = (Failed (SystemError lastError ''cannot connect to server''), fds)"
| "tryCandidates (c # cs) lastError fds =
     (case socketResult c of
        Inr e \<Rightarrow> tryCandidates cs e fds
      | Inl fd \<Rightarrow>
          (case connectLoop (connectResults c) of
             None \<Rightarrow> (Waiting, insert fd fds)
           | Some (Inl _) \<Rightarrow> (Returned fd, insert fd fds)
           | Some (Inr e) \<Rightarrow> tryCandidates cs e (insert fd fds - {fd})))"

definition connectToServer :: "(string + candidate list) \<Rightarrow> nat set \<Rightarrow> nat netout \<times> nat set" where
  "connectToServer resolved fds =
     (case resolved of
        Inl reason \<Rightarrow> (Failed (RuntimeError (''cannot resolve server address: '' @ reason)), fds)
      | Inr cs \<Rightarrow> tryCandidates cs ECONNREFUSED fds)"

record timeval =
  tv_sec :: int
  tv_usec :: int

text \<open>\<^verbatim>\<open>duration_cast\<close> truncates; it is only reached for a positive time.\<close>

definition timevalOf :: "int \<Rightarrow> timeval" where
  "timevalOf ms = \<lparr>tv_sec = ms div 1000, tv_usec = (ms - 1000 * (ms div 1000)) * 1000\<rparr>"

text \<open>The two \<^verbatim>\<open>setsockopt\<close> calls, the second one only when the first succeeds.\<close>

definition configureTimeout :: "int \<Rightarrow> errno option \<Rightarrow> errno option \<Rightarrow> timeval result" where
  "configureTimeout ms receiveOption sendOption =
     (if ms \<le> 0 then Inl (InvalidArgument ''socket timeout must be positive'')
      else case receiveOption of
        Some e \<Rightarrow> Inl (SystemError e ''cannot configure socket timeout'')
      | None \<Rightarrow>
          (case sendOption of
             Some e \<Rightarrow> Inl (SystemError e ''cannot configure socket timeout'')
           | None \<Rightarrow> Inr (timevalOf ms)))"

definition openTcpClient ::
  "(string + candidate list) \<Rightarrow> int \<Rightarrow> errno option \<Rightarrow> errno option \<Rightarrow> nat set \<Rightarrow> nat netout \<times> nat set" where
  "openTcpClient resolved ms receiveOption sendOption fds =
     (case connectToServer resolved fds of
        (Returned fd, fds1) \<Rightarrow>
          (case configureTimeout ms receiveOption sendOption of
             Inl e \<Rightarrow> (Failed e, fds1 - {fd})
           | Inr _ \<Rightarrow> (Returned fd, fds1))
      | r \<Rightarrow> r)"

definition closeTcpClient :: "nat \<Rightarrow> nat set \<Rightarrow> nat set" where
  "closeTcpClient fd fds = fds - {fd}"

definition sendLogMessage ::
  "LogMessage \<Rightarrow> (nat + errno) list \<Rightarrow> unit netout \<times> ByteBuffer \<times> (nat + errno) list" where
  "sendLogMessage m sends =
     (case serializeLogMessage m of
        Inl e \<Rightarrow> (Failed e, [], sends)
      | Inr frame \<Rightarrow> sendAll sends frame 0)"

definition sendLogBatch ::
  "LogMessage list \<Rightarrow> (nat + errno) list \<Rightarrow> unit netout \<times> ByteBuffer \<times> (nat + errno) list" where
  "sendLogBatch ms sends =
     (case serializeLogBatch ms of
        Inl e \<Rightarrow> (Failed e, [], sends)
      | Inr frame \<Rightarrow> sendAll sends frame 0)"

definition receiveAck :: "event list \<Rightarrow> u64 netout \<times> event list" where
  "receiveAck evs =
     (case receiveFrame evs of
        (Returned None, evs') \<Rightarrow>
          (Failed (RuntimeError ''server closed the connection before sending ack''), evs')
      | (Returned (Some frame), evs') \<Rightarrow>
          (case deserializeAck frame of Inl e \<Rightarrow> (Failed e, evs') | Inr a \<Rightarrow> (Returned (confirmedId a), evs'))
      | (Failed e, evs') \<Rightarrow> (Failed e, evs')
      | (Waiting, evs') \<Rightarrow> (Waiting, evs'))"

definition sendLogBatchAndWaitAck ::
  "LogMessage list \<Rightarrow> (nat + errno) list \<Rightarrow> event list \<Rightarrow> u64 netout \<times> ByteBuffer \<times> (nat + errno) list \<times> event list" where
  "sendLogBatchAndWaitAck ms sends evs =
     (case sendLogBatch ms sends of
        (Failed e, out, sends') \<Rightarrow> (Failed e, out, sends', evs)
      | (Waiting, out, sends') \<Rightarrow> (Waiting, out, sends', evs)
      | (Returned _, out, sends') \<Rightarrow>
          (let expectedId = msgId (last ms)
           in case receiveAck evs of
                (Failed e, evs') \<Rightarrow> (Failed e, out, sends', evs')
              | (Waiting, evs') \<Rightarrow> (Waiting, out, sends', evs')
              | (Returned k, evs') \<Rightarrow>
                  if k \<noteq> expectedId
                  then (Failed (RuntimeError (''ack id mismatch: expected '' @ decimal (unat expectedId)
                          @ '', received '' @ decimal (unat k))), out, sends', evs')
                  else (Returned k, out, sends', evs')))"


section \<open>Connecting\<close>

text \<open>\<^verbatim>\<open>socket\<close> returns a descriptor that is not in use; the earlier ones of the loop are closed again.\<close>

definition fresh_candidates :: "nat set \<Rightarrow> candidate list \<Rightarrow> bool" where
  "fresh_candidates fds cs \<longleftrightarrow> (\<forall>c \<in> set cs. \<forall>fd. socketResult c = Inl fd \<longrightarrow> fd \<notin> fds)"

lemma tryCandidates_descriptors:
  assumes "fresh_candidates fds cs" and "tryCandidates cs e0 fds = (r, fds')"
  shows "(\<forall>fd. r = Returned fd \<longrightarrow> fd \<notin> fds \<and> fds' = insert fd fds)
    \<and> (\<forall>e. r = Failed e \<longrightarrow> fds' = fds \<and> (\<exists>n. e = SystemError n ''cannot connect to server''))"
  using assms
proof (induction cs arbitrary: e0)
  case (Cons c cs)
  have fresh: "fresh_candidates fds cs" using Cons.prems(1) by (simp add: fresh_candidates_def)
  show ?case
  proof (cases "socketResult c")
    case (Inl fd)
    then have "fd \<notin> fds" using Cons.prems(1) by (simp add: fresh_candidates_def)
    then have "insert fd fds - {fd} = fds" by blast
    with Cons.prems(2) Inl \<open>fd \<notin> fds\<close> Cons.IH [OF fresh] show ?thesis
      by (auto split: option.splits sum.splits)
  qed (use Cons.prems(2) Cons.IH [OF fresh] in auto)
qed auto

text \<open>The first address that answers is used, and none after it is tried.\<close>

lemma tryCandidates_first:
  assumes "\<forall>c \<in> set before. (\<exists>e. socketResult c = Inr e) \<or> (\<exists>e. connectLoop (connectResults c) = Some (Inr e))"
    and "socketResult c = Inl fd" and "connectLoop (connectResults c) = Some (Inl ())"
    and "fresh_candidates fds (before @ [c])"
  shows "tryCandidates (before @ c # after) e0 fds = (Returned fd, insert fd fds)"
  using assms
proof (induction before arbitrary: e0)
  case (Cons d ds)
  have "fresh_candidates fds (ds @ [c])" using Cons.prems(4) by (simp add: fresh_candidates_def)
  moreover have "insert fd' fds - {fd'} = fds" if "socketResult d = Inl fd'" for fd'
    using Cons.prems(4) that by (auto simp: fresh_candidates_def)
  ultimately show ?case
    using Cons by (auto split: sum.splits option.splits)
qed simp

lemma connectToServer_descriptors:
  assumes "\<And>cs. resolved = Inr cs \<Longrightarrow> fresh_candidates fds cs" and "connectToServer resolved fds = (r, fds')"
  shows "(\<forall>fd. r = Returned fd \<longrightarrow> fd \<notin> fds \<and> fds' = insert fd fds) \<and> (\<forall>e. r = Failed e \<longrightarrow> fds' = fds)"
  using assms tryCandidates_descriptors by (fastforce simp: connectToServer_def split: sum.splits)


section \<open>Sending and waiting\<close>

lemma deserializeAck_serializeAck: "deserializeAck f = Inr a \<longleftrightarrow> f = serializeAck (confirmedId a)"
  using ack_codec.des_iff_ser [of f a] by auto

lemma receiveAck_frame:
  assumes "receiveAck evs = (Returned k, evs')"
  shows "receiveFrame evs = (Returned (Some (serializeAck k)), evs')"
proof -
  obtain r evs1 where r: "receiveFrame evs = (r, evs1)" by (rule prod.exhaust)
  show ?thesis
  proof (cases r)
    case (Returned x)
    then obtain frame a where "x = Some frame" "deserializeAck frame = Inr a" "k = confirmedId a" "evs' = evs1"
      using assms r by (auto simp: receiveAck_def split: option.splits sum.splits)
    with r Returned show ?thesis by (simp add: deserializeAck_serializeAck)
  qed (use assms r in \<open>auto simp: receiveAck_def\<close>)
qed

lemma sendLogBatch_returned:
  assumes "sendLogBatch ms sends = (Returned u, out, sends')"
  shows "serializeLogBatch ms = Inr out"
  using assms sendAll_result [of sends _ 0 "Returned ()" out sends']
  by (auto simp: sendLogBatch_def split: sum.splits)

lemma sendLogBatchAndWaitAck_returned:
  assumes "sendLogBatchAndWaitAck ms sends evs = (Returned k, out, sends', evs')"
  shows "serializeLogBatch ms = Inr out \<and> k = msgId (last ms) \<and> bytes_of evs = serializeAck k @ bytes_of evs'"
proof -
  obtain u where send: "sendLogBatch ms sends = (Returned u, out, sends')"
    and ack: "receiveAck evs = (Returned k, evs')" and k: "k = msgId (last ms)"
    using assms by (auto simp: sendLogBatchAndWaitAck_def Let_def split: netout.splits prod.splits if_splits)
  have "receiveFrame evs = (Returned (Some (serializeAck k)), evs')"
    using ack by (rule receiveAck_frame)
  then show ?thesis
    using sendLogBatch_returned [OF send] receiveFrame_stream(2) k by blast
qed


lemma sendLogBatchAndWaitAck_completes:
  assumes "serializeLogBatch ms = Inr f" and "bytes_of evs = serializeAck (msgId (last ms)) @ bs"
  shows "\<exists>sends' evs'. sendLogBatchAndWaitAck ms (replicate (length f) (Inl 1)) evs
    = (Returned (msgId (last ms)), f, sends', evs') \<and> bytes_of evs' = bs"
proof -
  obtain rs' where "sendAll (replicate (length f) (Inl (Suc 0))) f 0 = (Returned (), f, rs')"
    using sendAll_completes [of "replicate (length f) (Inl (Suc 0))" f 0] by auto
  then have "sendLogBatch ms (replicate (length f) (Inl 1)) = (Returned (), f, rs')"
    using assms(1) by (simp add: sendLogBatch_def)
  moreover have "is_frame (serializeAck i)" for i
    using ack_codec.is_frame_ser [of "\<lparr>confirmedId = i\<rparr>"] by simp
  then obtain evs' where "receiveFrame evs = (Returned (Some (serializeAck (msgId (last ms)))), evs')" "bytes_of evs' = bs"
    using receiveFrame_frame [OF _ assms(2)] by metis
  moreover have "deserializeAck (serializeAck i) = Inr \<lparr>confirmedId = i\<rparr>" for i
    by (simp add: deserializeAck_serializeAck)
  ultimately show ?thesis
    by (simp add: sendLogBatchAndWaitAck_def receiveAck_def Let_def)
qed


section \<open>Properties\<close>

text \<open>
  Property C37. A client never leaks a descriptor: opening one either fails and leaves the open
  descriptors as they were, or returns the one new descriptor, which closing the client releases.
\<close>

theorem client_sockets_not_leaked:
  assumes "\<forall>cs. resolved = Inr cs \<longrightarrow> (\<forall>c \<in> set cs. \<forall>fd. socketResult c = Inl fd \<longrightarrow> fd \<notin> fds)"
    and "openTcpClient resolved ms o1 o2 fds = (r, fds')"
  shows "(\<forall>e. r = Failed e \<longrightarrow> fds' = fds)
    \<and> (\<forall>fd. r = Returned fd \<longrightarrow> fd \<notin> fds \<and> fds' = insert fd fds \<and> closeTcpClient fd fds' = fds)"
proof -
  obtain r1 fds1 where c: "connectToServer resolved fds = (r1, fds1)" by (rule prod.exhaust)
  have "(\<forall>fd. r1 = Returned fd \<longrightarrow> fd \<notin> fds \<and> fds1 = insert fd fds) \<and> (\<forall>e. r1 = Failed e \<longrightarrow> fds1 = fds)"
    using connectToServer_descriptors [OF _ c] assms(1) by (auto simp: fresh_candidates_def)
  then show ?thesis
    using assms(2) c by (cases r1) (auto simp: openTcpClient_def closeTcpClient_def split: sum.splits)
qed

lemma client_sockets_not_leaked_witness:
  "openTcpClient (Inr [\<lparr>socketResult = Inl 5, connectResults = [Some ECONNREFUSED]\<rparr>,
       \<lparr>socketResult = Inl 5, connectResults = [Some EINTR, None]\<rparr>]) 3000 None None {0, 1} = (Returned 5, {0, 1, 5})
   \<and> closeTcpClient 5 {0, 1, 5} = {0, 1}"
proof -
  let ?cs = "[\<lparr>socketResult = Inl 5, connectResults = [Some ECONNREFUSED]\<rparr>,
       \<lparr>socketResult = Inl 5, connectResults = [Some EINTR, None]\<rparr>]"
  have run: "openTcpClient (Inr ?cs) 3000 None None {0, 1} = (Returned 5, {0, 1, 5})"
    by (simp add: openTcpClient_def connectToServer_def configureTimeout_def insert_commute insert_Diff_if)
  from client_sockets_not_leaked [OF _ this] show ?thesis using run by (simp add: insert_commute)
qed

text \<open>
  Property C22. \<^verbatim>\<open>sendLogBatchAndWaitAck\<close> returns only after the whole frame of the batch went out and
  the peer's next bytes were the acknowledgement of the batch's last id; it then returns that id.
\<close>

theorem ack_means_whole_batch:
  assumes "sendLogBatchAndWaitAck ms sends evs = (Returned k, out, sends', evs')"
  shows "deserializeLogBatch out = Inr ms \<and> k = msgId (last ms) \<and> (\<forall>m \<in> set ms. msgId m \<le> k)
    \<and> bytes_of evs = serializeAck k @ bytes_of evs'"
proof -
  have s: "serializeLogBatch ms = Inr out" and k: "k = msgId (last ms)"
    and b: "bytes_of evs = serializeAck k @ bytes_of evs'"
    using sendLogBatchAndWaitAck_returned [OF assms] by auto
  have "valid_batch ms" using s by (simp add: serializeLogBatch_iff)
  then have "ms \<noteq> []" "sorted_wrt (<) (map msgId ms)"
    by (auto simp: valid_batch_def ids_increasing_def sorted_wrt_map)
  then have "\<forall>m \<in> set ms. msgId m \<le> k"
    unfolding k by (cases ms rule: rev_cases) (auto simp: sorted_wrt_append less_imp_le)
  with s k b show ?thesis by (simp add: batch_codec.des_iff_ser)
qed

lemma ack_means_whole_batch_witness:
  "\<exists>f sends' evs'. sendLogBatchAndWaitAck [sample_message 3, sample_message 4] (replicate (length f) (Inl 1))
       [Segment (serializeAck 4)] = (Returned 4, f, sends', evs')
    \<and> deserializeLogBatch f = Inr [sample_message 3, sample_message 4]"
proof -
  let ?ms = "[sample_message 3, sample_message 4]"
  have "valid_batch ?ms"
    by (rule small_batch_valid) (simp_all add: one_client_def ids_increasing_def)
  then obtain f where "serializeLogBatch ?ms = Inr f" by (simp add: serializeLogBatch_iff)
  then obtain sends' evs' where run: "sendLogBatchAndWaitAck ?ms (replicate (length f) (Inl 1)) [Segment (serializeAck 4)]
      = (Returned 4, f, sends', evs')"
    using sendLogBatchAndWaitAck_completes [of ?ms f "[Segment (serializeAck 4)]" "[]"] by auto
  from ack_means_whole_batch [OF this] run show ?thesis by blast
qed

text \<open>
  The timeout given to the kernel is the requested one, split into whole seconds and
  less than a million microseconds; a time that is not positive is refused.
\<close>

lemma timeout_exact:
  "configureTimeout ms None None =
     (if ms \<le> 0 then Inl (InvalidArgument ''socket timeout must be positive'')
      else Inr (timevalOf ms))
   \<and> tv_sec (timevalOf ms) * 1000000 + tv_usec (timevalOf ms) = ms * 1000
   \<and> 0 \<le> tv_usec (timevalOf ms) \<and> tv_usec (timevalOf ms) < 1000000"
proof -
  define q where "q = ms div 1000"
  have "1000 * q \<le> ms" "ms < 1000 * q + 1000" unfolding q_def by linarith+
  then show ?thesis
    unfolding timevalOf_def timeval.simps q_def [symmetric]
    by (auto simp: configureTimeout_def timevalOf_def q_def)
qed

end
