(* ===== verification/BoundedQueue.thy ===== *)
theory BoundedQueue
  imports Prelude
begin

text \<open>
  \<^verbatim>\<open>src/include/BoundedBlockingQueue.h\<close>: the bounded queue between the reader and the sender thread.
  What a thread does while it holds the mutex is one function; where it waits on a condition
  variable, the function has no result until the predicate of the wait holds. \<^verbatim>\<open>popBatch\<close> may wait in
  the middle of a batch, so it is two functions around the batch it has so far.
\<close>

section \<open>The code\<close>

record 'a BoundedBlockingQueue =
  capacity :: nat
  queue :: "'a list"
  closed :: bool

definition newQueue :: "nat \<Rightarrow> 'a BoundedBlockingQueue result" where
  "newQueue n =
     (if n = 0 then Inl (InvalidArgument ''BoundedBlockingQueue capacity must be greater than zero'')
      else Inr \<lparr>capacity = n, queue = [], closed = False\<rparr>)"

definition push :: "'a \<Rightarrow> 'a BoundedBlockingQueue \<Rightarrow> (bool \<times> 'a BoundedBlockingQueue) option" where
  "push v q =
     (if \<not> (length (queue q) < capacity q \<or> closed q) then None
      else if closed q then Some (False, q)
      else Some (True, q\<lparr>queue := queue q @ [v]\<rparr>))"

definition pop :: "'a BoundedBlockingQueue \<Rightarrow> ('a option \<times> 'a BoundedBlockingQueue) option" where
  "pop q =
     (if \<not> (queue q \<noteq> [] \<or> closed q) then None
      else if queue q = [] then Some (None, q)
      else Some (Some (hd (queue q)), q\<lparr>queue := tl (queue q)\<rparr>))"

text \<open>
  The loop of \<^verbatim>\<open>popBatch\<close> up to its end or to \<^verbatim>\<open>wait_until\<close>; the flag says that it waits.
\<close>

function batchLoop :: "nat \<Rightarrow> 'a list \<Rightarrow> 'a BoundedBlockingQueue \<Rightarrow> bool \<times> 'a list \<times> 'a BoundedBlockingQueue" where
  "batchLoop maxItems batch q =
     (if length batch < maxItems then
        (if queue q = [] \<and> \<not> closed q then (True, batch, q)
         else if queue q = [] then (False, batch, q)
         else batchLoop maxItems (batch @ [hd (queue q)]) (q\<lparr>queue := tl (queue q)\<rparr>))
      else (False, batch, q))"
  by pat_completeness auto
termination
  by (relation "measure (\<lambda>(n, batch, _). n - length batch)") auto

declare batchLoop.simps [simp del]

text \<open>Entering \<^verbatim>\<open>popBatch\<close>; \<open>maxWait\<close> only decides when a wait times out.\<close>

definition popBatch ::
  "nat \<Rightarrow> int \<Rightarrow> 'a BoundedBlockingQueue \<Rightarrow> (bool \<times> 'a list \<times> 'a BoundedBlockingQueue) result option" where
  "popBatch maxItems maxWait q =
     (if maxItems = 0 then Some (Inl (InvalidArgument ''batch size must be greater than zero''))
      else if maxWait < 0 then Some (Inl (InvalidArgument ''batch wait time cannot be negative''))
      else if \<not> (queue q \<noteq> [] \<or> closed q) then None
      else if queue q = [] then Some (Inr (False, [], q))
      else Some (Inr (batchLoop maxItems [hd (queue q)] (q\<lparr>queue := tl (queue q)\<rparr>))))"

text \<open>Leaving the wait with \<^verbatim>\<open>ready\<close>, and by the deadline.\<close>

definition resumeBatch ::
  "nat \<Rightarrow> 'a list \<Rightarrow> 'a BoundedBlockingQueue \<Rightarrow> (bool \<times> 'a list \<times> 'a BoundedBlockingQueue) option" where
  "resumeBatch maxItems batch q =
     (if \<not> (queue q \<noteq> [] \<or> closed q) then None else Some (batchLoop maxItems batch q))"

definition expireBatch ::
  "'a list \<Rightarrow> 'a BoundedBlockingQueue \<Rightarrow> (bool \<times> 'a list \<times> 'a BoundedBlockingQueue) option" where
  "expireBatch batch q = (if queue q \<noteq> [] \<or> closed q then None else Some (False, batch, q))"

definition closeQueue :: "'a BoundedBlockingQueue \<Rightarrow> 'a BoundedBlockingQueue" where
  "closeQueue q = (if closed q then q else q\<lparr>closed := True\<rparr>)"

definition queueSize :: "'a BoundedBlockingQueue \<Rightarrow> nat" where
  "queueSize q = length (queue q)"


section \<open>The channel interface\<close>

text \<open>
  What the two threads rely on: a channel holds items, \<open>put\<close> adds one at the end or refuses, \<open>get\<close>
  takes some from the front. Whatever the interleaving, what comes out is what went in, in order.
\<close>

datatype 'a channel_op = Put 'a | Get

fun run_channel ::
  "('a \<Rightarrow> 'q \<Rightarrow> (bool \<times> 'q) option) \<Rightarrow> ('q \<Rightarrow> ('a list \<times> 'q) option) \<Rightarrow> 'a channel_op list \<Rightarrow> 'q \<Rightarrow>
   ('a list \<times> 'a list \<times> 'q) option" where
  "run_channel put get [] q = Some ([], [], q)"
| "run_channel put get (Put x # ops) q =
     (case put x q of None \<Rightarrow> None
      | Some (b, q1) \<Rightarrow>
          (case run_channel put get ops q1 of None \<Rightarrow> None
           | Some (xs, ys, q2) \<Rightarrow> Some ((if b then x # xs else xs), ys, q2)))"
| "run_channel put get (Get # ops) q =
     (case get q of None \<Rightarrow> None
      | Some (out, q1) \<Rightarrow>
          (case run_channel put get ops q1 of None \<Rightarrow> None
           | Some (xs, ys, q2) \<Rightarrow> Some (xs, out @ ys, q2)))"

locale fifo_channel =
  fixes items :: "'q \<Rightarrow> 'a list"
    and put :: "'a \<Rightarrow> 'q \<Rightarrow> (bool \<times> 'q) option"
    and get :: "'q \<Rightarrow> ('a list \<times> 'q) option"
  assumes put_items: "put x q = Some (b, q') \<Longrightarrow> items q' = (if b then items q @ [x] else items q)"
    and get_items: "get q = Some (out, q') \<Longrightarrow> items q = out @ items q'"
begin

lemma transfer:
  "run_channel put get ops q = Some (xs, ys, q') \<Longrightarrow> items q @ xs = ys @ items q'"
proof (induction ops arbitrary: q xs ys)
  case (Cons op ops)
  show ?case
  proof (cases op)
    case (Put x)
    then obtain b q1 xs1 where "put x q = Some (b, q1)" "run_channel put get ops q1 = Some (xs1, ys, q')"
      "xs = (if b then x # xs1 else xs1)"
      using Cons.prems by (auto split: option.splits)
    then show ?thesis using Cons.IH put_items by fastforce
  next
    case Get
    then obtain out q1 ys1 where "get q = Some (out, q1)" "run_channel put get ops q1 = Some (xs, ys1, q')"
      "ys = out @ ys1"
      using Cons.prems by (auto split: option.splits)
    then show ?thesis using Cons.IH get_items by fastforce
  qed
qed simp

end

text \<open>What one stretch of the batch loop does, and when it waits.\<close>

definition batch_step :: "nat \<Rightarrow> 'a list \<Rightarrow> 'a BoundedBlockingQueue \<Rightarrow> bool \<times> 'a list \<times> 'a BoundedBlockingQueue \<Rightarrow> bool" where
  "batch_step n batch q res \<longleftrightarrow> (case res of (waits, batch', q') \<Rightarrow>
     batch @ queue q = batch' @ queue q' \<and> capacity q' = capacity q \<and> closed q' = closed q
     \<and> length batch \<le> length batch' \<and> length (queue q') \<le> length (queue q)
     \<and> (length batch \<le> n \<longrightarrow> length batch' \<le> n \<and>
          (if waits then length batch' < n \<and> queue q' = [] \<and> \<not> closed q'
           else length batch' = n \<or> queue q' = [] \<and> closed q')))"

lemma batchLoop_step: "batch_step n batch q (batchLoop n batch q)"
proof (induction n batch q rule: batchLoop.induct)
  case (1 n batch q)
  show ?case
  proof (cases "length batch < n \<and> queue q \<noteq> []")
    case True
    let ?q = "q\<lparr>queue := tl (queue q)\<rparr>" and ?b = "batch @ [hd (queue q)]"
    have "batch_step n ?b ?q (batchLoop n ?b ?q)" using 1 True by simp
    moreover have "batchLoop n batch q = batchLoop n ?b ?q"
      using True by (subst batchLoop.simps) simp
    ultimately show ?thesis using True by (auto simp: batch_step_def split: if_splits)
  next
    case False
    then show ?thesis by (subst batchLoop.simps) (auto simp: batch_step_def)
  qed
qed

lemma popBatch_step:
  assumes "popBatch n t q = Some (Inr res)"
  shows "batch_step n [] q res \<and> 0 < n \<and> (fst (snd res) = [] \<longrightarrow> queue q = [] \<and> closed q \<and> \<not> fst res)"
proof (cases "queue q = []")
  case True
  with assms show ?thesis by (auto simp: popBatch_def batch_step_def split: if_splits)
next
  case False
  then have res: "res = batchLoop n [hd (queue q)] (q\<lparr>queue := tl (queue q)\<rparr>)" and "0 < n"
    using assms by (auto simp: popBatch_def split: if_splits)
  have "batch_step n [hd (queue q)] (q\<lparr>queue := tl (queue q)\<rparr>) res"
    unfolding res by (rule batchLoop_step)
  with False \<open>0 < n\<close> show ?thesis by (auto simp: batch_step_def split: if_splits)
qed

interpretation single: fifo_channel queue push
  "\<lambda>q. map_option (\<lambda>(x, q'). (case x of None \<Rightarrow> [] | Some v \<Rightarrow> [v], q')) (pop q)"
  by unfold_locales (auto simp: push_def pop_def split: if_splits)

interpretation batched: fifo_channel queue push
  "\<lambda>q. case popBatch n t q of Some (Inr (False, batch, q')) \<Rightarrow> Some (batch, q') | _ \<Rightarrow> None" for n t
proof
  show "queue q' = (if b then queue q @ [x] else queue q)" if "push x q = Some (b, q')" for x :: 'a and q q' b
    using that by (auto simp: push_def split: if_splits)
  show "queue q = out @ queue q'"
    if "(case popBatch n t q of Some (Inr (False, batch, q')) \<Rightarrow> Some (batch, q') | _ \<Rightarrow> None) = Some (out, q')"
    for q out q' and n t
    using that popBatch_step [of n t q] by (auto simp: batch_step_def split: option.splits sum.splits bool.splits)
qed


section \<open>Threads\<close>

text \<open>
  Any number of producers and one consumer, as in \<^verbatim>\<open>src/src/main.cpp\<close>. \<open>accepted\<close> is what was pushed
  with the result true, \<open>delivered\<close> what the consumer's calls returned, \<open>building\<close> the batch of a
  \<^verbatim>\<open>popBatch\<close> that waits.
\<close>

record 'a threads =
  shared :: "'a BoundedBlockingQueue"
  building :: "'a list option"
  accepted :: "'a list"
  delivered :: "'a list"
  ended :: bool

definition settle :: "'a threads \<Rightarrow> bool \<times> 'a list \<times> 'a BoundedBlockingQueue \<Rightarrow> 'a threads" where
  "settle s res = (case res of (waits, batch, q) \<Rightarrow>
     s\<lparr>shared := q, building := (if waits then Some batch else None),
       delivered := delivered s @ (if waits then [] else batch),
       ended := (ended s \<or> (\<not> waits \<and> batch = []))\<rparr>)"

inductive queue_step :: "nat \<Rightarrow> 'a threads \<Rightarrow> 'a threads \<Rightarrow> bool" for n where
  push: "push v (shared s) = Some (b, q) \<Longrightarrow>
    queue_step n s (s\<lparr>shared := q, accepted := accepted s @ (if b then [v] else [])\<rparr>)"
| pop: "building s = None \<Longrightarrow> pop (shared s) = Some (x, q) \<Longrightarrow>
    queue_step n s (s\<lparr>shared := q, delivered := delivered s @ (case x of None \<Rightarrow> [] | Some v \<Rightarrow> [v]),
      ended := (ended s \<or> x = None)\<rparr>)"
| start_batch: "building s = None \<Longrightarrow> popBatch n t (shared s) = Some (Inr res) \<Longrightarrow> queue_step n s (settle s res)"
| resume: "building s = Some batch \<Longrightarrow> resumeBatch n batch (shared s) = Some res \<Longrightarrow> queue_step n s (settle s res)"
| expire: "building s = Some batch \<Longrightarrow> expireBatch batch (shared s) = Some res \<Longrightarrow> queue_step n s (settle s res)"
| close: "queue_step n s (s\<lparr>shared := closeQueue (shared s)\<rparr>)"

abbreviation queue_reach :: "nat \<Rightarrow> 'a threads \<Rightarrow> 'a threads \<Rightarrow> bool" where
  "queue_reach n \<equiv> (queue_step n)\<^sup>*\<^sup>*"

definition fresh_threads :: "nat \<Rightarrow> 'a threads" where
  "fresh_threads c = \<lparr>shared = \<lparr>capacity = c, queue = [], closed = False\<rparr>, building = None,
     accepted = [], delivered = [], ended = False\<rparr>"

text \<open>
  Nothing is lost, duplicated or reordered; the queue is never over its capacity; a batch that is
  being built is not empty and not full; and once the consumer was told that the queue is closed
  and empty, it stays so and everything accepted has been delivered.
\<close>

definition queue_inv :: "nat \<Rightarrow> nat \<Rightarrow> 'a threads \<Rightarrow> bool" where
  "queue_inv c n s \<longleftrightarrow>
     accepted s = delivered s @ (case building s of None \<Rightarrow> [] | Some b \<Rightarrow> b) @ queue (shared s)
     \<and> capacity (shared s) = c \<and> length (queue (shared s)) \<le> c
     \<and> (\<forall>b. building s = Some b \<longrightarrow> b \<noteq> [] \<and> length b < n)
     \<and> (ended s \<longrightarrow> closed (shared s) \<and> queue (shared s) = [] \<and> building s = None)"

lemma settle_inv:
  assumes "queue_inv c n s" and "batch_step n (case building s of None \<Rightarrow> [] | Some b \<Rightarrow> b) (shared s) res"
    and "0 < n" and "\<not> ended s \<or> \<not> fst res"
    and "fst (snd res) = [] \<Longrightarrow> queue (shared s) = [] \<and> closed (shared s) \<and> \<not> fst res"
  shows "queue_inv c n (settle s res)"
  using assms
  by (cases res; cases "building s")
    (auto simp: queue_inv_def settle_def batch_step_def less_imp_le split: if_splits)

lemma queue_step_inv:
  assumes inv: "queue_inv c n s" and "queue_step n s t"
  shows "queue_inv c n t"
  using assms(2)
proof cases
  case (push v b q)
  with inv show ?thesis by (auto simp: queue_inv_def push_def split: if_splits option.splits)
next
  case (pop x q)
  with inv show ?thesis by (auto simp: queue_inv_def pop_def split: if_splits)
next
  case (start_batch u res)
  note P = popBatch_step [OF start_batch(3)]
  show ?thesis
    unfolding start_batch(1) using P start_batch(2) inv
    by (intro settle_inv [OF inv]) (auto simp: batch_step_def queue_inv_def split: prod.splits if_splits)
next
  case (resume batch res)
  have b: "batch \<noteq> []" "length batch < n" "\<not> ended s" using inv resume(2) by (auto simp: queue_inv_def)
  have "res = batchLoop n batch (shared s)"
    using resume(3) by (auto simp: resumeBatch_def split: if_splits)
  then have "batch_step n batch (shared s) res" by (simp add: batchLoop_step)
  with b show ?thesis
    unfolding resume(1) using resume(2)
    by (intro settle_inv [OF inv]) (auto simp: batch_step_def split: prod.splits)
next
  case (expire batch res)
  have b: "batch \<noteq> []" "length batch < n" "\<not> ended s" using inv expire(2) by (auto simp: queue_inv_def)
  with inv expire show ?thesis
    by (auto simp: expireBatch_def settle_def queue_inv_def split: if_splits)
next
  case close
  with inv show ?thesis by (auto simp: queue_inv_def closeQueue_def)
qed

lemma fresh_threads_inv: "queue_inv c n (fresh_threads c)"
  by (simp add: queue_inv_def fresh_threads_def)

interpretation queue_machine: state_machine "queue_step n" "queue_inv c n" for n c
  by unfold_locales (rule queue_step_inv)

text \<open>A batch of a queue that has enough, or that is closed, is taken at once.\<close>

lemma batchLoop_take:
  assumes "length batch \<le> n" and "n - length batch \<le> length (queue q) \<or> closed q"
  shows "batchLoop n batch q = (False, batch @ take (n - length batch) (queue q),
     q\<lparr>queue := drop (n - length batch) (queue q)\<rparr>)"
  using assms
proof (induction n batch q rule: batchLoop.induct)
  case (1 n batch q)
  show ?case
  proof (cases "length batch < n \<and> queue q \<noteq> []")
    case True
    let ?q = "q\<lparr>queue := tl (queue q)\<rparr>" and ?b = "batch @ [hd (queue q)]"
    have step: "batchLoop n batch q = batchLoop n ?b ?q"
      using True by (subst batchLoop.simps) simp
    obtain k where k: "n - length batch = Suc k" "n - length ?b = k"
      using True by (metis Suc_diff_Suc diff_Suc_Suc length_append_singleton)
    have "batchLoop n ?b ?q = (False, ?b @ take (n - length ?b) (queue ?q), ?q\<lparr>queue := drop (n - length ?b) (queue ?q)\<rparr>)"
    proof (rule 1(1))
      show "n - length ?b \<le> length (queue ?q) \<or> closed ?q" using 1(3) k by auto
    qed (use 1(2) True in auto)
    then show ?thesis
      unfolding step k using True by (cases "queue q") auto
  next
    case False
    then show ?thesis
      using 1(3) by (subst batchLoop.simps) (cases q; auto)
  qed
qed


section \<open>Properties\<close>

text \<open>
  Property C18. Whatever the interleaving of the producers and the consumer, with single pops, batches,
  waits, timeouts and a close at any time: what the consumer received is a beginning of what was
  accepted, in order, without loss or repetition; the rest is in the queue or in the batch being
  built; the queue never exceeds its capacity; and a consumer that was told the queue has ended
  has received everything.
\<close>

theorem queue_delivers_in_order:
  assumes "queue_reach n (fresh_threads c) s"
  shows "accepted s = delivered s @ (case building s of None \<Rightarrow> [] | Some b \<Rightarrow> b) @ queue (shared s)
    \<and> queueSize (shared s) \<le> c
    \<and> (\<forall>b. building s = Some b \<longrightarrow> 0 < length b \<and> length b < n)
    \<and> (ended s \<longrightarrow> delivered s = accepted s \<and> closed (shared s))"
  using queue_machine.invariant [OF assms fresh_threads_inv] by (auto simp: queue_inv_def queueSize_def)

lemma queue_delivers_in_order_witness:
  "\<exists>s. queue_reach 10 (fresh_threads 2) s \<and> accepted s = [5, 6] \<and> ended s \<and> delivered s = [5, 6 :: nat]"
proof -
  let ?q = "\<lambda>(xs :: nat list) cl. \<lparr>capacity = 2, queue = xs, closed = cl\<rparr>"
  let ?s = "\<lambda>xs cl b acc del e. \<lparr>shared = ?q xs cl, building = b, accepted = acc, delivered = del, ended = e\<rparr>"
  have 1: "queue_step 10 (fresh_threads 2) (?s [5] False None [5] [] False)"
    using queue_step.push [of "5 :: nat" "fresh_threads 2 :: nat threads" True "?q [5] False" 10]
    by (simp add: fresh_threads_def push_def)
  have 2: "queue_step 10 (?s [5] False None [5] [] False) (?s [] False (Some [5]) [5] [] False)"
    using queue_step.start_batch [of "?s [5] False None [5] [] False" 10 100 "(True, [5], ?q [] False)"]
    by (simp add: popBatch_def batchLoop.simps settle_def)
  have 3: "queue_step 10 (?s [] False (Some [5]) [5] [] False) (?s [6] False (Some [5]) [5, 6] [] False)"
    using queue_step.push [of 6 "?s [] False (Some [5]) [5] [] False" True "?q [6] False" 10] by (simp add: push_def)
  have 4: "queue_step 10 (?s [6] False (Some [5]) [5, 6] [] False) (?s [6] True (Some [5]) [5, 6] [] False)"
    using queue_step.close [of 10 "?s [6] False (Some [5]) [5, 6] [] False"] by (simp add: closeQueue_def)
  have "batchLoop 10 [5] (?q [6] True) = (False, [5, 6], ?q [] True)"
    using batchLoop_take [of "[5]" 10 "?q [6] True"] by simp
  then have 5: "queue_step 10 (?s [6] True (Some [5]) [5, 6] [] False) (?s [] True None [5, 6] [5, 6] False)"
    using queue_step.resume [of "?s [6] True (Some [5]) [5, 6] [] False" "[5]" 10 "(False, [5, 6], ?q [] True)"]
    by (simp add: resumeBatch_def settle_def)
  have 6: "queue_step 10 (?s [] True None [5, 6] [5, 6] False) (?s [] True None [5, 6] [5, 6] True)"
    using queue_step.start_batch [of "?s [] True None [5, 6] [5, 6] False" 10 100 "(False, [], ?q [] True)"]
    by (simp add: popBatch_def settle_def)
  have "queue_reach 10 (fresh_threads 2) (?s [] True None [5, 6] [5, 6] True)"
    using 1 2 3 4 5 6 by (meson reach_intros)
  with queue_delivers_in_order [OF this] show ?thesis by fastforce
qed



end
