(* ===== verification/FileTailReader.thy ===== *)
theory FileTailReader
  imports Prelude
begin

text \<open>
  \<^verbatim>\<open>src/src/FileTailReader.cpp\<close>: following a log file that other programs append to, truncate or
  rotate. The results of the file system calls are parameters, together with the file's data at
  the time of the call. The theorems say that following a growing file in any pieces gives the
  lines of the whole, that the checkpoint is the end of the last complete line, and that a
  rotation loses nothing of the old file.
\<close>

section \<open>The code\<close>

text \<open>The fields of \<^verbatim>\<open>struct stat\<close> that the code uses.\<close>

record filestat =
  st_dev :: u64
  st_ino :: u64
  st_size :: int

record FileTailReader =
  rdPath :: string
  rdOpened :: bool
  rdOffset :: nat
  rdPending :: string
  rdDeviceId :: u64
  rdInode :: u64
  rdSwitchOnNextRead :: bool

definition closeCurrentFile :: "FileTailReader \<Rightarrow> FileTailReader" where
  "closeCurrentFile st = st\<lparr>rdOpened := False\<rparr>"

text \<open>
  \<open>opened\<close> is the result of \<^verbatim>\<open>open\<close> and, when it succeeds, of \<^verbatim>\<open>fstat\<close>. An exception comes with the state
  it leaves.
\<close>

definition openCurrentFile ::
  "u64 \<Rightarrow> u64 \<Rightarrow> u64 \<Rightarrow> errno + (errno + filestat) \<Rightarrow> FileTailReader \<Rightarrow> exn option \<times> FileTailReader" where
  "openCurrentFile initialOffset expectedDeviceId expectedInode opened st =
     (case opened of
        Inl e \<Rightarrow> (Some (SystemError e (''cannot open log file: '' @ rdPath st)), st\<lparr>rdOpened := False\<rparr>)
      | Inr (Inl e) \<Rightarrow> (Some (SystemError e ''cannot inspect open log file''), closeCurrentFile st)
      | Inr (Inr status) \<Rightarrow>
          if st_size status < 0
          then (Some (RuntimeError (''log file has an invalid size: '' @ rdPath st)), closeCurrentFile st)
          else
            (let device = st_dev status; inode = st_ino status;
                 identityMatches = (expectedDeviceId = 0 \<or> expectedInode = 0
                   \<or> (expectedDeviceId = device \<and> expectedInode = inode));
                 off = (if identityMatches then unat initialOffset else 0)
             in (None, st\<lparr>rdOpened := True, rdDeviceId := device, rdInode := inode,
                   rdOffset := (if int off > st_size status then 0 else off), rdPending := []\<rparr>)))"

text \<open>
  The \<^verbatim>\<open>pread\<close> loop: \<open>reads\<close> are the results of its first calls, \<open>Inl n\<close> for at most \<open>n\<close> bytes; when
  they are used up every call returns all it can. A call that returns nothing ends the loop.
\<close>

fun readLoop :: "(nat + errno) list \<Rightarrow> string \<Rightarrow> nat \<Rightarrow> nat \<Rightarrow> string \<Rightarrow> errno + string" where
  "readLoop [] inp off want chunk = Inr (chunk @ take (want - length chunk) (drop (off + length chunk) inp))"
| "readLoop (r # rs) inp off want chunk =
     (if length chunk < want then
        (case r of
           Inl n \<Rightarrow>
             (let got = take (min n (want - length chunk)) (drop (off + length chunk) inp)
              in if got \<noteq> [] then readLoop rs inp off want (chunk @ got) else Inr chunk)
         | Inr e \<Rightarrow> if e = EINTR then readLoop rs inp off want chunk else Inl e)
      else Inr chunk)"

definition dropCarriageReturn :: "string \<Rightarrow> string" where
  "dropCarriageReturn line = (if line \<noteq> [] \<and> last line = CHR 0x0D then butlast line else line)"

text \<open>The splitting loop: the complete lines and what remains pending.\<close>

function splitLines :: "string \<Rightarrow> string list \<times> string" where
  "splitLines inp =
     (let line = takeWhile (\<lambda>c. c \<noteq> CHR 0x0A) inp; after = dropWhile (\<lambda>c. c \<noteq> CHR 0x0A) inp
      in if after = [] then ([], inp)
         else (case splitLines (tl after) of (ls, p) \<Rightarrow> (dropCarriageReturn line # ls, p)))"
  by pat_completeness auto
termination
proof (relation "measure length", simp)
  fix inp :: string and x xa
  assume x: "xa = dropWhile (\<lambda>c. c \<noteq> CHR 0x0A) inp" and ne: "xa \<noteq> []"
  have "length xa \<le> length inp" unfolding x by (rule length_dropWhile_le)
  moreover have "length (tl xa) < length xa" using ne by (cases xa) auto
  ultimately show "(tl xa, inp) \<in> measure length" by simp
qed

declare splitLines.simps [simp del]

definition readFromOpenFile ::
  "errno + int \<Rightarrow> (nat + errno) list \<Rightarrow> string \<Rightarrow> FileTailReader \<Rightarrow> (exn + string list) \<times> FileTailReader" where
  "readFromOpenFile fstatSize reads inp st =
     (case fstatSize of
        Inl e \<Rightarrow> (Inl (SystemError e ''cannot inspect open log file''), st)
      | Inr n \<Rightarrow>
          if n < 0 then (Inl (RuntimeError (''log file has an invalid size: '' @ rdPath st)), st)
          else
            (let fileSize = nat n;
                 st1 = (if fileSize < rdOffset st then st\<lparr>rdOffset := 0, rdPending := []\<rparr> else st)
             in if fileSize = rdOffset st1 then (Inr [], st1)
                else
                  (case readLoop reads inp (rdOffset st1) (fileSize - rdOffset st1) [] of
                     Inl e \<Rightarrow> (Inl (SystemError e (''cannot read log file: '' @ rdPath st)), st1)
                   | Inr chunk \<Rightarrow>
                       (case splitLines (rdPending st1 @ chunk) of (ls, p) \<Rightarrow>
                          (Inr ls, st1\<lparr>rdOffset := rdOffset st1 + length chunk, rdPending := p\<rparr>)))))"

text \<open>
  The environment of one call of \<^verbatim>\<open>readNewLines\<close>: \<^verbatim>\<open>stat\<close> of the path, \<^verbatim>\<open>open\<close> and \<^verbatim>\<open>fstat\<close> of the file
  to switch to, and the size and data of the file that is then read.
\<close>

record tail_env =
  env_stat :: "errno + filestat"
  env_open :: "errno + (errno + filestat)"
  env_size :: "errno + int"
  env_reads :: "(nat + errno) list"
  env_text :: string

definition readOpen :: "tail_env \<Rightarrow> FileTailReader \<Rightarrow> (exn + string list) \<times> FileTailReader" where
  "readOpen env st = readFromOpenFile (env_size env) (env_reads env) (env_text env) st"

definition readNewLines :: "tail_env \<Rightarrow> FileTailReader \<Rightarrow> (exn + string list) \<times> FileTailReader" where
  "readNewLines env st =
     (if rdSwitchOnNextRead st then
        (case openCurrentFile 0 0 0 (env_open env) (closeCurrentFile st) of
           (Some e, st1) \<Rightarrow> (Inl e, st1)
         | (None, st1) \<Rightarrow> readOpen env (st1\<lparr>rdSwitchOnNextRead := False\<rparr>))
      else
        (case env_stat env of
           Inl e \<Rightarrow>
             if e \<noteq> ENOENT then (Inl (SystemError e ''cannot inspect log file''), st)
             else readOpen env st
         | Inr status \<Rightarrow>
             if rdDeviceId st \<noteq> st_dev status \<or> rdInode st \<noteq> st_ino status then
               (case readOpen env st of
                  (Inl e, st1) \<Rightarrow> (Inl e, st1)
                | (Inr ls, st1) \<Rightarrow>
                    (Inr (if rdPending st1 \<noteq> [] then ls @ [rdPending st1] else ls),
                     st1\<lparr>rdPending := [], rdSwitchOnNextRead := True\<rparr>))
             else readOpen env st))"

definition newFileTailReader ::
  "string \<Rightarrow> u64 \<Rightarrow> u64 \<Rightarrow> u64 \<Rightarrow> errno + (errno + filestat) \<Rightarrow> FileTailReader result" where
  "newFileTailReader p initialOffset expectedDeviceId expectedInode opened =
     (if p = [] then Inl (InvalidArgument ''log file path cannot be empty'')
      else case openCurrentFile initialOffset expectedDeviceId expectedInode opened
             \<lparr>rdPath = p, rdOpened = False, rdOffset = 0, rdPending = [], rdDeviceId = 0, rdInode = 0,
              rdSwitchOnNextRead = False\<rparr> of
        (Some e, _) \<Rightarrow> Inl e
      | (None, st) \<Rightarrow> Inr st)"

text \<open>The destructor.\<close>

definition deleteFileTailReader :: "FileTailReader \<Rightarrow> FileTailReader" where
  "deleteFileTailReader st = closeCurrentFile st"

definition committedOffset :: "FileTailReader \<Rightarrow> nat" where
  "committedOffset st = rdOffset st - length (rdPending st)"


section \<open>Lines\<close>

abbreviation lf :: char where "lf \<equiv> CHR 0x0A"

lemma splitLines_none: "lf \<notin> set inp \<Longrightarrow> splitLines inp = ([], inp)"
  by (subst splitLines.simps) (simp add: Let_def dropWhile_eq_Nil_conv)

lemma splitLines_line:
  assumes "lf \<notin> set line"
  shows "splitLines (line @ lf # inp) = (case splitLines inp of (ls, p) \<Rightarrow> (dropCarriageReturn line # ls, p))"
proof -
  have "takeWhile (\<lambda>c. c \<noteq> lf) (line @ lf # inp) = line" "dropWhile (\<lambda>c. c \<noteq> lf) (line @ lf # inp) = lf # inp"
    using assms by (auto simp: takeWhile_append dropWhile_append)
  then show ?thesis by (subst splitLines.simps) (simp add: Let_def)
qed

lemma first_line_cases [case_names none line]:
  assumes "lf \<notin> set inp \<Longrightarrow> P" and "\<And>line after. inp = line @ lf # after \<Longrightarrow> lf \<notin> set line \<Longrightarrow> P"
  shows P
  using assms split_list_first [of lf inp] by blast

text \<open>Splitting in pieces is splitting the whole.\<close>

lemma splitLines_append:
  "splitLines (xs @ ys) =
     (case splitLines xs of (ls, p) \<Rightarrow> case splitLines (p @ ys) of (ls', p') \<Rightarrow> (ls @ ls', p'))"
proof (induction xs rule: length_induct)
  case (1 xs)
  show ?case
  proof (cases xs rule: first_line_cases)
    case none
    then show ?thesis by (simp add: splitLines_none split: prod.splits)
  next
    case (line l after)
    then have "length after < length xs" by simp
    with 1 have "splitLines (after @ ys) =
       (case splitLines after of (ls, p) \<Rightarrow> case splitLines (p @ ys) of (ls', p') \<Rightarrow> (ls @ ls', p'))" by blast
    with line show ?thesis by (simp add: splitLines_line split: prod.splits)
  qed
qed

lemma splitLines_pending:
  "splitLines xs = (ls, p) \<Longrightarrow> lf \<notin> set p \<and> (\<exists>pre. xs = pre @ p \<and> (pre = [] \<or> last pre = lf))"
proof (induction xs arbitrary: ls rule: length_induct)
  case (1 xs)
  show ?case
  proof (cases xs rule: first_line_cases)
    case none
    with 1(2) show ?thesis by (simp add: splitLines_none)
  next
    case (line l after)
    obtain ls' where s: "splitLines after = (ls', p)"
      using 1(2) line by (auto simp: splitLines_line split: prod.splits)
    have "length after < length xs" using line by simp
    with 1(1) s obtain pre where "lf \<notin> set p" "after = pre @ p" "pre = [] \<or> last pre = lf" by blast
    with line show ?thesis by (intro conjI exI [of _ "l @ lf # pre"]) auto
  qed
qed


section \<open>Reading a growing file\<close>

lemma take_length_take: "c = take n xs \<Longrightarrow> c = take (length c) xs"
  by (cases "n \<le> length xs") simp_all

lemma readLoop_part:
  assumes "readLoop reads inp off want chunk = Inr c" and "chunk = take (length chunk) (drop off inp)"
    and "length chunk \<le> want"
  shows "c = take (length c) (drop off inp) \<and> length c \<le> want"
  using assms
proof (induction reads inp off want chunk rule: readLoop.induct)
  case (1 inp off want chunk)
  have "take (length chunk) (drop off inp) @ take (want - length chunk) (drop (off + length chunk) inp)
    = take want (drop off inp)"
    using take_add [of "length chunk" "want - length chunk" "drop off inp"] 1(3) by (simp add: add.commute)
  then have "c = take want (drop off inp)" using 1(1,2) by simp
  then show ?case using take_length_take [of c want "drop off inp"] by simp
next
  case (2 r rs inp off want chunk)
  show ?case
  proof (cases "length chunk < want")
    case False
    with 2 show ?thesis by simp
  next
    case True
    show ?thesis
    proof (cases r)
      case (Inr e)
      with 2 True show ?thesis by (auto split: if_splits)
    next
      case (Inl n)
      let ?got = "take (min n (want - length chunk)) (drop (off + length chunk) inp)"
      show ?thesis
      proof (cases "?got = []")
        case True': True
        with 2 Inl True show ?thesis by (simp add: Let_def)
      next
        case False
        have "chunk @ ?got = take (length chunk + min n (want - length chunk)) (drop off inp)"
          using take_add [of "length chunk" "min n (want - length chunk)" "drop off inp"] 2(4) by (simp add: add.commute)
        then have "chunk @ ?got = take (length (chunk @ ?got)) (drop off inp)" by (rule take_length_take)
        moreover have "length (chunk @ ?got) \<le> want" using True by simp
        moreover have "readLoop rs inp off want (chunk @ ?got) = Inr c"
          using 2(3) True Inl False by (simp add: Let_def)
        ultimately show ?thesis using 2(1) [OF True Inl refl False] by blast
      qed
    qed
  qed
qed

lemma readLoop_whole: "length inp = off + want \<Longrightarrow> readLoop [] inp off want [] = Inr (drop off inp)"
  by simp

text \<open>
  A reader that started at \<open>start\<close> and has given out the lines \<open>ls\<close> of the data before its offset.
\<close>

definition tailing :: "nat \<Rightarrow> string \<Rightarrow> string list \<Rightarrow> FileTailReader \<Rightarrow> bool" where
  "tailing start inp ls st \<longleftrightarrow> start \<le> rdOffset st \<and> rdOffset st \<le> length inp
     \<and> splitLines (take (rdOffset st - start) (drop start inp)) = (ls, rdPending st)"

lemma tailing_grow: "tailing start inp ls st \<Longrightarrow> tailing start (inp @ new) ls st"
  by (simp add: tailing_def)

lemma take_from:
  assumes "start \<le> a" and "chunk = take (length chunk) (drop a inp)"
  shows "take (a - start) (drop start inp) @ chunk = take (a + length chunk - start) (drop start inp)"
proof -
  have "take (a - start + length chunk) (drop start inp)
    = take (a - start) (drop start inp) @ take (length chunk) (drop (a - start) (drop start inp))"
    by (rule take_add)
  with assms show ?thesis by simp
qed

lemma readFromOpenFile_tailing:
  assumes t: "tailing start inp ls st" and run: "readFromOpenFile sz reads inp st = (r, st')"
    and sz: "\<And>n. sz = Inr n \<Longrightarrow> int (rdOffset st) \<le> n"
  shows "tailing start inp (ls @ (case r of Inl _ \<Rightarrow> [] | Inr ls' \<Rightarrow> ls')) st'"
    and "rdDeviceId st' = rdDeviceId st" "rdInode st' = rdInode st" "rdPath st' = rdPath st"
      "rdSwitchOnNextRead st' = rdSwitchOnNextRead st"
    and "r = Inr ls' \<Longrightarrow> sz = Inr (int (length inp)) \<Longrightarrow> reads = [] \<Longrightarrow> rdOffset st' = length inp"
proof -
  have "tailing start inp (ls @ (case r of Inl _ \<Rightarrow> [] | Inr ls' \<Rightarrow> ls')) st' \<and>
    rdDeviceId st' = rdDeviceId st \<and> rdInode st' = rdInode st \<and> rdPath st' = rdPath st \<and>
    rdSwitchOnNextRead st' = rdSwitchOnNextRead st \<and>
    ((\<exists>ls'. r = Inr ls') \<longrightarrow> sz = Inr (int (length inp)) \<longrightarrow> reads = [] \<longrightarrow> rdOffset st' = length inp)"
  proof (cases sz)
    case (Inl e)
    with run t show ?thesis by (auto simp: readFromOpenFile_def)
  next
    case (Inr n)
    then have n: "int (rdOffset st) \<le> n" using sz by simp
    then have n': "\<not> n < 0" "\<not> nat n < rdOffset st" by auto
    show ?thesis
    proof (cases "nat n = rdOffset st")
      case True
      with run t Inr n' show ?thesis by (auto simp: readFromOpenFile_def Let_def)
    next
      case False
      show ?thesis
      proof (cases "readLoop reads inp (rdOffset st) (nat n - rdOffset st) []")
        case (Inl e)
        with run t Inr n' False show ?thesis by (auto simp: readFromOpenFile_def Let_def)
      next
        case loop: (Inr chunk)
        then have c: "chunk = take (length chunk) (drop (rdOffset st) inp)"
          using readLoop_part [OF loop] by simp
        obtain ls' p where s: "splitLines (rdPending st @ chunk) = (ls', p)" by (rule prod.exhaust)
        then have r: "r = Inr ls'" "st' = st\<lparr>rdOffset := rdOffset st + length chunk, rdPending := p\<rparr>"
          using run Inr n' False loop by (auto simp: readFromOpenFile_def Let_def)
        have t': "start \<le> rdOffset st" "splitLines (take (rdOffset st - start) (drop start inp)) = (ls, rdPending st)"
          using t by (simp_all add: tailing_def)
        have "splitLines (take (rdOffset st - start) (drop start inp) @ chunk) = (ls @ ls', p)"
          using s t'(2) by (subst splitLines_append) simp
        then have "splitLines (take (rdOffset st + length chunk - start) (drop start inp)) = (ls @ ls', p)"
          using take_from [OF t'(1) c] by simp
        moreover have "rdOffset st + length chunk \<le> length inp"
        proof -
          have "length chunk \<le> length inp - rdOffset st" by (subst c) simp
          moreover have "rdOffset st \<le> length inp" using t by (simp add: tailing_def)
          ultimately show ?thesis by linarith
        qed
        moreover have "rdOffset st + length chunk = length inp" if eof: "n = int (length inp)" "reads = []"
        proof -
          have le: "rdOffset st \<le> length inp" using t by (simp add: tailing_def)
          then have "chunk = drop (rdOffset st) inp" using loop eof by simp
          then have "length chunk = length inp - rdOffset st" by simp
          with le show ?thesis by linarith
        qed
        ultimately show ?thesis using r t'(1) Inr by (auto simp: tailing_def)
      qed
    qed
  qed
  then show "tailing start inp (ls @ (case r of Inl _ \<Rightarrow> [] | Inr ls' \<Rightarrow> ls')) st'"
    and "rdDeviceId st' = rdDeviceId st" "rdInode st' = rdInode st" "rdPath st' = rdPath st"
      "rdSwitchOnNextRead st' = rdSwitchOnNextRead st"
    and "r = Inr ls' \<Longrightarrow> sz = Inr (int (length inp)) \<Longrightarrow> reads = [] \<Longrightarrow> rdOffset st' = length inp"
    by blast+
qed

text \<open>The checkpoint: what is before it has been given out, in complete lines.\<close>

lemma committed_lines:
  assumes "tailing start inp ls st"
  shows "start \<le> committedOffset st" "committedOffset st \<le> rdOffset st"
    and "splitLines (take (committedOffset st - start) (drop start inp)) = (ls, [])"
    and "drop (committedOffset st) (take (rdOffset st) inp) = rdPending st"
proof -
  let ?t = "take (rdOffset st - start) (drop start inp)"
  have s: "splitLines ?t = (ls, rdPending st)" and so: "start \<le> rdOffset st" "rdOffset st \<le> length inp"
    using assms by (auto simp: tailing_def)
  obtain pre where pre: "?t = pre @ rdPending st" "pre = [] \<or> last pre = lf" "lf \<notin> set (rdPending st)"
    using splitLines_pending [OF s] by blast
  have len: "rdOffset st - start = length pre + length (rdPending st)"
    using arg_cong [OF pre(1), of length] so by simp
  then have c: "committedOffset st = start + length pre"
    using so by (simp add: committedOffset_def)
  then show "start \<le> committedOffset st" "committedOffset st \<le> rdOffset st"
    using len so by auto
  have "take (length pre) ?t = pre" by (simp add: pre(1))
  then have pre': "take (committedOffset st - start) (drop start inp) = pre"
    using c len by (simp add: min_def)
  obtain ls1 p1 where s1: "splitLines pre = (ls1, p1)" by (rule prod.exhaust)
  then have p1: "lf \<notin> set p1" "\<exists>q. pre = q @ p1" using splitLines_pending by blast+
  have "p1 = []"
  proof (rule ccontr)
    assume "p1 \<noteq> []"
    then have "last pre = last p1" "pre \<noteq> []" using p1(2) by auto
    then show False using pre(2) p1(1) \<open>p1 \<noteq> []\<close> last_in_set by metis
  qed
  then have "splitLines ?t = (ls1, rdPending st)"
    unfolding pre(1) using s1 \<open>p1 = []\<close> pre(3) by (subst splitLines_append) (simp add: splitLines_none)
  with s s1 \<open>p1 = []\<close> show "splitLines (take (committedOffset st - start) (drop start inp)) = (ls, [])"
    by (simp add: pre')
  have "drop start (take (rdOffset st) inp) = pre @ rdPending st"
    using pre(1) by (simp add: drop_take)
  then have "drop (length pre) (drop start (take (rdOffset st) inp)) = rdPending st" by simp
  then show "drop (committedOffset st) (take (rdOffset st) inp) = rdPending st"
    by (simp add: c add.commute)
qed


section \<open>Runs over a growing file\<close>

text \<open>
  The file grows, the reader polls it with any short or failed reads, and the process stops at
  any time and starts again at its checkpoint. \<open>given\<close> lists the lines given out whose checkpoint
  was taken; \<open>since\<close> is the position of the last start.
\<close>

record tail_run =
  logText :: string
  reader :: FileTailReader
  since :: nat
  stored :: "string list"
  given :: "string list"

inductive tail_step :: "tail_run \<Rightarrow> tail_run \<Rightarrow> bool" where
  grow: "tail_step s (s\<lparr>logText := logText s @ new\<rparr>)"
| poll: "env_stat env = Inr status \<Longrightarrow> st_dev status = rdDeviceId (reader s) \<Longrightarrow> st_ino status = rdInode (reader s) \<Longrightarrow>
    env_text env = logText s \<Longrightarrow> (\<And>n. env_size env = Inr n \<Longrightarrow> int (rdOffset (reader s)) \<le> n) \<Longrightarrow>
    readNewLines env (reader s) = (r, st) \<Longrightarrow>
    tail_step s (s\<lparr>reader := st, given := given s @ (case r of Inl _ \<Rightarrow> [] | Inr ls \<Rightarrow> ls)\<rparr>)"
| restart: "committedOffset (reader s) < 2 ^ 64 \<Longrightarrow> int (length (logText s)) = st_size status \<Longrightarrow>
    st_dev status = rdDeviceId (reader s) \<Longrightarrow> st_ino status = rdInode (reader s) \<Longrightarrow>
    newFileTailReader (rdPath (reader s)) (of_nat (committedOffset (reader s))) (rdDeviceId (reader s))
      (rdInode (reader s)) (Inr (Inr status)) = Inr st \<Longrightarrow>
    tail_step s (s\<lparr>reader := st, since := committedOffset (reader s), stored := stored s @ given s, given := []\<rparr>)"

abbreviation tail_reach :: "tail_run \<Rightarrow> tail_run \<Rightarrow> bool" where
  "tail_reach \<equiv> tail_step\<^sup>*\<^sup>*"

definition tail_inv :: "nat \<Rightarrow> tail_run \<Rightarrow> bool" where
  "tail_inv start s \<longleftrightarrow> \<not> rdSwitchOnNextRead (reader s) \<and> start \<le> since s
     \<and> tailing (since s) (logText s) (given s) (reader s)
     \<and> splitLines (take (since s - start) (drop start (logText s))) = (stored s, [])"

lemma tail_step_inv:
  assumes inv: "tail_inv start s" and "tail_step s t"
  shows "tail_inv start t"
  using assms(2)
proof cases
  case (grow new)
  then have "since s \<le> length (logText s)" using inv by (auto simp: tail_inv_def tailing_def)
  with grow inv show ?thesis
    using tailing_grow [of "since s" "logText s" "given s" "reader s" new]
    by (simp add: tail_inv_def)
next
  case (poll env status r st)
  have sw: "\<not> rdSwitchOnNextRead (reader s)" using inv by (simp add: tail_inv_def)
  then have run: "readFromOpenFile (env_size env) (env_reads env) (logText s) (reader s) = (r, st)"
    using poll by (simp add: readNewLines_def readOpen_def)
  have "tailing (since s) (logText s) (given s) (reader s)" using inv by (simp add: tail_inv_def)
  from readFromOpenFile_tailing [OF this run poll(6)] show ?thesis
    using inv sw poll(1) by (simp add: tail_inv_def)
next
  case (restart status st)
  let ?c = "committedOffset (reader s)"
  have t: "tailing (since s) (logText s) (given s) (reader s)" using inv by (simp add: tail_inv_def)
  note C = committed_lines [OF t]
  have le: "?c \<le> length (logText s)" using C(2) t by (auto simp: tailing_def)
  have "unat (of_nat ?c :: u64) = ?c" using restart(2) by (simp add: unat_of_nat)
  then have st: "rdOffset st = ?c" "rdPending st = []" "\<not> rdSwitchOnNextRead st"
    using restart(3,6) le restart(4,5)
    by (auto simp: newFileTailReader_def openCurrentFile_def Let_def split: if_splits)
  have "take (?c - start) (drop start (logText s))
    = take (since s - start) (drop start (logText s)) @ take (?c - since s) (drop (since s) (logText s))"
    using take_add [of "since s - start" "?c - since s" "drop start (logText s)"] C(1) inv
    by (simp add: tail_inv_def)
  then have "splitLines (take (?c - start) (drop start (logText s))) = (stored s @ given s, [])"
    using inv C(3) by (simp add: tail_inv_def) (subst splitLines_append, simp)
  with restart(1) st le C(1) inv show ?thesis
    by (simp add: tail_inv_def tailing_def splitLines_none)
qed

interpretation tail_machine: state_machine tail_step "tail_inv start" for start
  by unfold_locales (rule tail_step_inv)

text \<open>One call that reads everything there is.\<close>

definition quiet :: "tail_env \<Rightarrow> bool" where
  "quiet env \<longleftrightarrow> env_reads env = [] \<and> env_size env = Inr (int (length (env_text env)))"

lemma readOpen_quiet:
  assumes "quiet env" and "rdOffset st \<le> length (env_text env)" and "lf \<notin> set (rdPending st)"
  shows "readOpen env st = (case splitLines (rdPending st @ drop (rdOffset st) (env_text env)) of
    (ls, p) \<Rightarrow> (Inr ls, st\<lparr>rdOffset := length (env_text env), rdPending := p\<rparr>))"
proof (cases "length (env_text env) = rdOffset st")
  case True
  with assms show ?thesis
    by (auto simp: readOpen_def readFromOpenFile_def quiet_def Let_def splitLines_none)
next
  case False
  with assms show ?thesis
    by (auto simp: readOpen_def readFromOpenFile_def quiet_def Let_def split: prod.splits)
qed

lemma readOpen_truncated:
  assumes "quiet env" and "length (env_text env) < rdOffset st"
  shows "readOpen env st = (case splitLines (env_text env) of
    (ls, p) \<Rightarrow> (Inr ls, st\<lparr>rdOffset := length (env_text env), rdPending := p\<rparr>))"
  using assms
  by (auto simp: readOpen_def readFromOpenFile_def quiet_def Let_def splitLines_none split: prod.splits)

lemma tailing_quiet:
  assumes t: "tailing start inp ls st" and q: "quiet env" "env_text env = inp"
    and s: "splitLines (drop start inp) = (all, p)"
  shows "\<exists>new. readOpen env st = (Inr new, st\<lparr>rdOffset := length inp, rdPending := p\<rparr>) \<and> all = ls @ new"
proof -
  have T: "start \<le> rdOffset st" "rdOffset st \<le> length inp"
    "splitLines (take (rdOffset st - start) (drop start inp)) = (ls, rdPending st)"
    using t by (auto simp: tailing_def)
  obtain new p' where n: "splitLines (rdPending st @ drop (rdOffset st) inp) = (new, p')" by (rule prod.exhaust)
  have "drop start inp = take (rdOffset st - start) (drop start inp) @ drop (rdOffset st - start) (drop start inp)"
    by (rule append_take_drop_id [symmetric])
  then have "drop start inp = take (rdOffset st - start) (drop start inp) @ drop (rdOffset st) inp"
    using T(1) by simp
  then have "splitLines (drop start inp) = (ls @ new, p')"
    using T(3) n by (metis (no_types, lifting) splitLines_append case_prod_conv)
  moreover have "lf \<notin> set (rdPending st)" using splitLines_pending [OF T(3)] by blast
  ultimately show ?thesis using readOpen_quiet [OF q(1), of st] T(2) q(2) n s by simp
qed


section \<open>Properties\<close>

definition fresh_run :: "string \<Rightarrow> FileTailReader \<Rightarrow> tail_run" where
  "fresh_run inp st = \<lparr>logText = inp, reader = st, since = 0, stored = [], given = []\<rparr>"

lemma fresh_run_inv:
  "newFileTailReader p 0 0 0 (Inr (Inr status)) = Inr st \<Longrightarrow> tail_inv 0 (fresh_run inp st)"
  by (auto simp: newFileTailReader_def openCurrentFile_def Let_def fresh_run_def tail_inv_def
      tailing_def splitLines_none split: if_splits)

text \<open>
  Property C20. Following a growing log file loses, repeats and invents nothing: whatever grows the
  file, however the reads are cut short or fail, and however often the process stops and starts
  again at its checkpoint, the lines handed out are exactly the lines of the part of the file that
  was read, the checkpoint is the end of the last of them, and the next undisturbed poll hands out
  exactly the lines that are still missing.
\<close>

theorem tail_follows_growing_file:
  assumes "newFileTailReader p 0 0 0 (Inr (Inr status)) = Inr st0" and "tail_reach (fresh_run inp st0) t"
    and "quiet env" and "env_text env = logText t" and "env_stat env = Inr now"
    and "st_dev now = rdDeviceId (reader t)" and "st_ino now = rdInode (reader t)"
  shows "splitLines (take (committedOffset (reader t)) (logText t)) = (stored t @ given t, [])
    \<and> (\<exists>new p. readNewLines env (reader t) = (Inr new, (reader t)\<lparr>rdOffset := length (logText t), rdPending := p\<rparr>)
         \<and> splitLines (logText t) = (stored t @ given t @ new, p))"
proof -
  have inv: "tail_inv 0 t" using tail_machine.invariant [OF assms(2) fresh_run_inv [OF assms(1)]] .
  then have tl: "tailing (since t) (logText t) (given t) (reader t)" and sw: "\<not> rdSwitchOnNextRead (reader t)"
    and st: "splitLines (take (since t) (logText t)) = (stored t, [])"
    by (auto simp: tail_inv_def)
  note C = committed_lines [OF tl]
  have glue: "splitLines (take (since t) (logText t) @ ys) = (case splitLines ys of (ls, p) \<Rightarrow> (stored t @ ls, p))" for ys
    using st by (subst splitLines_append) (simp split: prod.splits)
  have "take (committedOffset (reader t)) (logText t)
    = take (since t) (logText t) @ take (committedOffset (reader t) - since t) (drop (since t) (logText t))"
    using take_add [of "since t" "committedOffset (reader t) - since t" "logText t"] C(1) by simp
  then have c: "splitLines (take (committedOffset (reader t)) (logText t)) = (stored t @ given t, [])"
    using C(3) glue by simp
  obtain every p where e: "splitLines (drop (since t) (logText t)) = (every, p)" by (rule prod.exhaust)
  obtain new where n: "readOpen env (reader t) = (Inr new, (reader t)\<lparr>rdOffset := length (logText t), rdPending := p\<rparr>)"
    "every = given t @ new"
    using tailing_quiet [OF tl assms(3,4) e] by blast
  have "splitLines (logText t) = (stored t @ given t @ new, p)"
    using glue [of "drop (since t) (logText t)"] e n(2) by simp
  moreover have "readNewLines env (reader t) = readOpen env (reader t)"
    using sw assms(5-7) by (simp add: readNewLines_def)
  ultimately show ?thesis using c n(1) by simp
qed

text \<open>
  A concrete run: the file holds one line and a half, a read is cut short after one byte, an
  interrupted one is repeated, the file grows and the process starts again.
\<close>

definition sample_env :: "filestat \<Rightarrow> string \<Rightarrow> (nat + errno) list \<Rightarrow> tail_env" where
  "sample_env status inp reads = \<lparr>env_stat = Inr status, env_open = Inr (Inr status),
     env_size = Inr (int (length inp)), env_reads = reads, env_text = inp\<rparr>"

definition sample_stat :: "nat \<Rightarrow> nat \<Rightarrow> filestat" where
  "sample_stat node n = \<lparr>st_dev = 1, st_ino = of_nat node, st_size = int n\<rparr>"

definition sample_reader :: "nat \<Rightarrow> string \<Rightarrow> FileTailReader" where
  "sample_reader off p = \<lparr>rdPath = ''log'', rdOpened = True, rdOffset = off, rdPending = p, rdDeviceId = 1,
     rdInode = 7, rdSwitchOnNextRead = False\<rparr>"

lemmas sample_tail = sample_env_def sample_stat_def sample_reader_def fresh_run_def

lemma sample_sel [simp]:
  "env_stat (sample_env status inp reads) = Inr status" "env_open (sample_env status inp reads) = Inr (Inr status)"
  "env_reads (sample_env status inp reads) = reads" "env_text (sample_env status inp reads) = inp"
  "quiet (sample_env status inp [])"
  "st_dev (sample_stat node n) = 1" "st_ino (sample_stat node n) = of_nat node" "st_size (sample_stat node n) = int n"
  "rdOffset (sample_reader off p) = off" "rdPending (sample_reader off p) = p"
  "rdDeviceId (sample_reader off p) = 1" "rdInode (sample_reader off p) = 7"
  "\<not> rdSwitchOnNextRead (sample_reader off p)"
  by (simp_all add: sample_tail quiet_def)

lemma sample_lines:
  "splitLines [] = ([], [])" "splitLines [CHR ''d'', lf] = ([''d''], [])" "splitLines ''bc'' = ([], ''bc'')"
  by (simp_all add: splitLines.simps dropCarriageReturn_def)

lemma sample_start: "newFileTailReader ''log'' 0 0 0 (Inr (Inr (sample_stat 7 3))) = Inr (sample_reader 0 [])"
  by (simp add: newFileTailReader_def openCurrentFile_def sample_tail)

lemma sample_poll:
  "readNewLines (sample_env (sample_stat 7 4) (''a'' @ [lf] @ ''bc'') [Inl 1, Inr EINTR, Inl 2, Inl 0]) (sample_reader 0 [])
     = (Inr [''a''], sample_reader 3 ''b'')"
  by (simp add: readNewLines_def readOpen_def readFromOpenFile_def sample_tail splitLines.simps dropCarriageReturn_def)

lemma sample_run:
  "tail_reach (fresh_run (''a'' @ [lf] @ ''b'') (sample_reader 0 []))
     \<lparr>logText = ''a'' @ [lf] @ ''bc'', reader = sample_reader 2 [], since = 2, stored = [''a''], given = []\<rparr>"
proof -
  let ?s0 = "fresh_run (''a'' @ [lf] @ ''b'') (sample_reader 0 [])"
  let ?s1 = "fresh_run (''a'' @ [lf] @ ''bc'') (sample_reader 0 [])"
  let ?s2 = "\<lparr>logText = ''a'' @ [lf] @ ''bc'', reader = sample_reader 3 ''b'', since = 0, stored = [], given = [''a'']\<rparr>"
  let ?s3 = "\<lparr>logText = ''a'' @ [lf] @ ''bc'', reader = sample_reader 2 [], since = 2, stored = [''a''], given = []\<rparr>"
  have 1: "tail_step ?s0 ?s1"
    using tail_step.grow [of ?s0 "''c''"] by (simp add: fresh_run_def)
  have 2: "tail_step ?s1 ?s2"
    using tail_step.poll [of "sample_env (sample_stat 7 4) (''a'' @ [lf] @ ''bc'') [Inl 1, Inr EINTR, Inl 2, Inl 0]"
        "sample_stat 7 4" ?s1 "Inr [''a'']" "sample_reader 3 ''b''"] sample_poll
    by (simp add: sample_tail)
  have 3: "tail_step ?s2 ?s3"
    using tail_step.restart [of ?s2 "sample_stat 7 4" "sample_reader 2 []"]
    by (simp add: sample_tail committedOffset_def newFileTailReader_def openCurrentFile_def)
  show ?thesis using 1 2 3 by (meson reach_intros)
qed

lemma tail_follows_growing_file_witness:
  "splitLines (take (committedOffset (sample_reader 2 [])) (''a'' @ [lf] @ ''bc'')) = ([''a''], [])
    \<and> (\<exists>new p. readNewLines (sample_env (sample_stat 7 4) (''a'' @ [lf] @ ''bc'') []) (sample_reader 2 [])
           = (Inr new, (sample_reader 2 [])\<lparr>rdOffset := 4, rdPending := p\<rparr>)
         \<and> splitLines (''a'' @ [lf] @ ''bc'') = (''a'' # new, p))"
  using tail_follows_growing_file [OF sample_start sample_run,
      of "sample_env (sample_stat 7 4) (''a'' @ [lf] @ ''bc'') []" "sample_stat 7 4"]
  by (simp add: eval_nat_numeral)

text \<open>
  Property C34. A rotation loses no line of the old file: the first call that sees another file under
  the path hands out all that is left of the old one, its unterminated last line included, and the
  call after it opens the new file and hands out that file's lines from its beginning.
\<close>

theorem tail_rotation_loses_nothing:
  assumes t: "tailing start inp ls st" and "\<not> rdSwitchOnNextRead st"
    and "quiet env" and "env_text env = inp" and "env_stat env = Inr now"
    and "st_dev now \<noteq> rdDeviceId st \<or> st_ino now \<noteq> rdInode st"
    and "quiet env'" and "env_open env' = Inr (Inr opened)" and "0 \<le> st_size opened"
  shows "\<exists>rest st1. readNewLines env st = (Inr rest, st1) \<and> committedOffset st1 = length inp
    \<and> ls @ rest = (case splitLines (drop start inp) of (all, p) \<Rightarrow> if p = [] then all else all @ [p])
    \<and> (\<exists>st2. readNewLines env' st1 = (Inr (fst (splitLines (env_text env'))), st2)
         \<and> rdDeviceId st2 = st_dev opened \<and> rdInode st2 = st_ino opened \<and> \<not> rdSwitchOnNextRead st2
         \<and> tailing 0 (env_text env') (fst (splitLines (env_text env'))) st2)"
proof -
  obtain every p where e: "splitLines (drop start inp) = (every, p)" by (rule prod.exhaust)
  obtain new where n: "readOpen env st = (Inr new, st\<lparr>rdOffset := length inp, rdPending := p\<rparr>)" "every = ls @ new"
    using tailing_quiet [OF t assms(3,4) e] by blast
  let ?st1 = "st\<lparr>rdOffset := length inp, rdPending := [], rdSwitchOnNextRead := True\<rparr>"
  have 1: "readNewLines env st = (Inr (if p = [] then new else new @ [p]), ?st1)"
    using assms(2,5,6) n by (auto simp: readNewLines_def)
  obtain ls2 p2 where s: "splitLines (env_text env') = (ls2, p2)" by (rule prod.exhaust)
  let ?open = "?st1\<lparr>rdOpened := True, rdDeviceId := st_dev opened, rdInode := st_ino opened, rdOffset := 0,
    rdPending := [], rdSwitchOnNextRead := False\<rparr>"
  have "readNewLines env' ?st1 = readOpen env' ?open"
    using assms(8,9) by (simp add: readNewLines_def openCurrentFile_def closeCurrentFile_def Let_def)
  then have 2: "readNewLines env' ?st1 = (Inr ls2, ?open\<lparr>rdOffset := length (env_text env'), rdPending := p2\<rparr>)"
    using readOpen_quiet [OF assms(7), of ?open] s by simp
  show ?thesis using 1 2 n(2) e s by (auto simp: tailing_def committedOffset_def)
qed

lemma tail_rotation_loses_nothing_witness:
  "\<exists>rest st1. readNewLines (sample_env (sample_stat 8 0) (''a'' @ [lf] @ ''bc'') []) (sample_reader 2 []) = (Inr rest, st1)
    \<and> committedOffset st1 = 4 \<and> rest = [''bc'']
    \<and> (\<exists>st2. readNewLines (sample_env (sample_stat 8 2) (''d'' @ [lf]) []) st1 = (Inr [''d''], st2)
         \<and> rdDeviceId st2 = 1 \<and> rdInode st2 = 8 \<and> \<not> rdSwitchOnNextRead st2
         \<and> tailing 0 (''d'' @ [lf]) [''d''] st2)"
  using tail_rotation_loses_nothing [of 2 "''a'' @ [lf] @ ''bc''" "[]" "sample_reader 2 []"
      "sample_env (sample_stat 8 0) (''a'' @ [lf] @ ''bc'') []" "sample_stat 8 0"
      "sample_env (sample_stat 8 2) (''d'' @ [lf]) []" "sample_stat 8 2"]
  by (simp add: tailing_def sample_lines eval_nat_numeral)

text \<open>
  A file truncated in place below the offset is read again from its beginning, and what
  was pending of the old content is dropped.
\<close>

lemma tail_truncation_restarts:
  assumes "\<not> rdSwitchOnNextRead st" and "env_stat env = Inr now" and "st_dev now = rdDeviceId st"
    and "st_ino now = rdInode st" and "quiet env" and "length (env_text env) < rdOffset st"
  shows "\<exists>ls st'. readNewLines env st = (Inr ls, st') \<and> splitLines (env_text env) = (ls, rdPending st')
    \<and> tailing 0 (env_text env) ls st'"
proof -
  have "readNewLines env st = readOpen env st" using assms(1-4) by (simp add: readNewLines_def)
  with readOpen_truncated [OF assms(5,6)] show ?thesis by (auto simp: tailing_def split: prod.splits)
qed

end
