(* ===== verification/TcpServer.thy ===== *)
theory TcpServer
  imports SocketIO "HOL-Library.Multiset"
begin

text \<open>
  \<^verbatim>\<open>src/src/TcpServer.cpp\<close>: the listening socket, one client connection at a time, and a \<^verbatim>\<open>stop\<close> that
  another thread may call at any moment. The atomic operations of \<^verbatim>\<open>acceptClient\<close> and \<^verbatim>\<open>stop\<close> are the
  steps of a machine in which the two threads interleave freely; the receiving and sending methods
  are functions of the connection. Descriptors are integers, as in the code, and -1 is none.
\<close>

section \<open>The code\<close>

record TcpServer =
  listenFd :: int
  clientFd :: int
  stopped :: bool
  portNumber :: u16

text \<open>
  \<^verbatim>\<open>closeSocket\<close>: an atomic exchange, then, outside of it, \<^verbatim>\<open>shutdown\<close> and \<^verbatim>\<open>close\<close> of what it
  returned. \<open>fds\<close> are the open descriptors of the process, and the flag is raised when \<^verbatim>\<open>close\<close> is
  called for a descriptor that is not open.
\<close>

record kernel =
  fds :: "int set"
  badClose :: bool

definition exchangeClient :: "TcpServer \<Rightarrow> int \<times> TcpServer" where
  "exchangeClient s = (clientFd s, s\<lparr>clientFd := -1\<rparr>)"

definition exchangeListen :: "TcpServer \<Rightarrow> int \<times> TcpServer" where
  "exchangeListen s = (listenFd s, s\<lparr>listenFd := -1\<rparr>)"

definition shutAndClose :: "int \<Rightarrow> kernel \<Rightarrow> kernel" where
  "shutAndClose descriptor k =
     (if descriptor \<ge> 0 then \<lparr>fds = fds k - {descriptor}, badClose = (badClose k \<or> descriptor \<notin> fds k)\<rparr> else k)"

text \<open>
  The constructor. \<open>created\<close> is the result of \<^verbatim>\<open>socket\<close>, the options are the errors of
  \<^verbatim>\<open>setsockopt\<close>, \<^verbatim>\<open>bind\<close> and \<^verbatim>\<open>listen\<close>, and \<open>named\<close> is the port that \<^verbatim>\<open>getsockname\<close> gives.
\<close>

definition newTcpServer ::
  "nat + errno \<Rightarrow> errno option \<Rightarrow> errno option \<Rightarrow> errno option \<Rightarrow> u16 + errno \<Rightarrow> kernel \<Rightarrow> TcpServer result \<times> kernel" where
  "newTcpServer created reuse bound listening named k =
     (case created of
        Inr e \<Rightarrow> (Inl (SystemError e ''cannot create server socket''), k)
      | Inl fd \<Rightarrow>
          (let s = \<lparr>listenFd = int fd, clientFd = -1, stopped = False, portNumber = 0\<rparr>;
               k1 = k\<lparr>fds := insert (int fd) (fds k)\<rparr>;
               body =
                 (case reuse of
                    Some e \<Rightarrow> Inl (SystemError e ''cannot configure server socket'')
                  | None \<Rightarrow>
                      (case bound of
                         Some e \<Rightarrow> Inl (SystemError e ''cannot bind server socket'')
                       | None \<Rightarrow>
                           (case listening of
                              Some e \<Rightarrow> Inl (SystemError e ''cannot listen on socket'')
                            | None \<Rightarrow>
                                (case named of
                                   Inr e \<Rightarrow> Inl (SystemError e ''cannot read server port'')
                                 | Inl actual \<Rightarrow> Inr (s\<lparr>portNumber := actual\<rparr>)))))
           in case body of
                Inl e \<Rightarrow> (Inl e, shutAndClose (fst (exchangeListen s)) k1)
              | Inr s' \<Rightarrow> (Inr s', k1)))"

definition receiveLogMessage :: "TcpServer \<Rightarrow> event list \<Rightarrow> LogMessage option netout \<times> event list" where
  "receiveLogMessage s evs =
     (if clientFd s < 0 then (Failed (LogicError ''no client has been accepted''), evs)
      else case receiveFrame evs of
        (Returned None, evs') \<Rightarrow> (Returned None, evs')
      | (Returned (Some frame), evs') \<Rightarrow>
          (case deserializeLogMessage frame of Inl e \<Rightarrow> (Failed e, evs') | Inr m \<Rightarrow> (Returned (Some m), evs'))
      | (Failed e, evs') \<Rightarrow> (Failed e, evs')
      | (Waiting, evs') \<Rightarrow> (Waiting, evs'))"

text \<open>The decoding half of \<^verbatim>\<open>receiveLogBatch\<close>.\<close>

definition decodeLogFrame :: "ByteBuffer \<Rightarrow> LogMessage list result" where
  "decodeLogFrame frame =
     bindR (parseFrameHeader frame) (\<lambda>header.
       if msgType header = Log then bindR (deserializeLogMessage frame) (\<lambda>m. Inr [m])
       else if msgType header = LogBatch then deserializeLogBatch frame
       else Inl (ProtocolError ''expected log or log batch frame''))"

definition receiveLogBatch :: "TcpServer \<Rightarrow> event list \<Rightarrow> LogMessage list option netout \<times> event list" where
  "receiveLogBatch s evs =
     (if clientFd s < 0 then (Failed (LogicError ''no client has been accepted''), evs)
      else case receiveFrame evs of
        (Returned None, evs') \<Rightarrow> (Returned None, evs')
      | (Returned (Some frame), evs') \<Rightarrow>
          (case decodeLogFrame frame of Inl e \<Rightarrow> (Failed e, evs') | Inr ms \<Rightarrow> (Returned (Some ms), evs'))
      | (Failed e, evs') \<Rightarrow> (Failed e, evs')
      | (Waiting, evs') \<Rightarrow> (Waiting, evs'))"

definition sendAck :: "TcpServer \<Rightarrow> u64 \<Rightarrow> (nat + errno) list \<Rightarrow> unit netout \<times> ByteBuffer \<times> (nat + errno) list" where
  "sendAck s ackId sends =
     (if clientFd s < 0 then (Failed (LogicError ''no client has been accepted''), [], sends)
      else sendAll sends (serializeAck ackId) 0)"


section \<open>Accepting and stopping\<close>

text \<open>
  Where the accepting thread is inside \<^verbatim>\<open>acceptClient\<close>: after the exchange with the old client
  descriptor in hand, before the first test of \<^verbatim>\<open>stopped_\<close>, before the load of \<^verbatim>\<open>listenFd_\<close>, before
  \<^verbatim>\<open>accept\<close>, after a failed \<^verbatim>\<open>accept\<close> (loop condition, then the test after the loop), before the
  store of the new descriptor, before the last test, before the exchange on the way out, and after
  it. \<open>Outside\<close> holds how the last call ended.
\<close>

datatype accept_pc =
    Outside "(exn + bool) option"
  | HasOld int
  | TestStopped
  | LoadListen
  | CallAccept int
  | LoopTest int errno
  | AfterLoop errno
  | StoreClient int
  | TestAgain
  | ExchangeNew
  | HasNew int

text \<open>Where the stopping thread is inside \<^verbatim>\<open>stop\<close>.\<close>

datatype stop_pc = NotStopping | ExchangeC | HasClient int | ExchangeL | HasListen int

record threads_state =
  server :: TcpServer
  kern :: kernel
  acceptAt :: accept_pc
  stopAt :: stop_pc

inductive accept_step :: "threads_state \<Rightarrow> threads_state \<Rightarrow> bool" where
  enter: "acceptAt t = Outside r \<Longrightarrow> exchangeClient (server t) = (d, s) \<Longrightarrow>
    accept_step t (t\<lparr>server := s, acceptAt := HasOld d\<rparr>)"
| close_old: "acceptAt t = HasOld d \<Longrightarrow>
    accept_step t (t\<lparr>kern := shutAndClose d (kern t), acceptAt := TestStopped\<rparr>)"
| test_stopped: "acceptAt t = TestStopped \<Longrightarrow>
    accept_step t (t\<lparr>acceptAt := (if stopped (server t) then Outside (Some (Inr False)) else LoadListen)\<rparr>)"
| load_listen: "acceptAt t = LoadListen \<Longrightarrow>
    accept_step t (t\<lparr>acceptAt := CallAccept (listenFd (server t))\<rparr>)"
| accepts: "acceptAt t = CallAccept l \<Longrightarrow> fd \<ge> 0 \<Longrightarrow> fd \<notin> fds (kern t) \<Longrightarrow>
    accept_step t (t\<lparr>kern := (kern t)\<lparr>fds := insert fd (fds (kern t))\<rparr>, acceptAt := StoreClient fd\<rparr>)"
| accept_fails: "acceptAt t = CallAccept l \<Longrightarrow> accept_step t (t\<lparr>acceptAt := LoopTest l e\<rparr>)"
| loop_test: "acceptAt t = LoopTest l e \<Longrightarrow>
    accept_step t (t\<lparr>acceptAt := (if e = EINTR \<and> \<not> stopped (server t) then CallAccept l else AfterLoop e)\<rparr>)"
| after_loop: "acceptAt t = AfterLoop e \<Longrightarrow>
    accept_step t (t\<lparr>acceptAt := Outside (Some (if stopped (server t) then Inr False
      else Inl (SystemError e ''cannot accept client'')))\<rparr>)"
| store_client: "acceptAt t = StoreClient fd \<Longrightarrow>
    accept_step t (t\<lparr>server := (server t)\<lparr>clientFd := fd\<rparr>, acceptAt := TestAgain\<rparr>)"
| test_again: "acceptAt t = TestAgain \<Longrightarrow>
    accept_step t (t\<lparr>acceptAt := (if stopped (server t) then ExchangeNew else Outside (Some (Inr True)))\<rparr>)"
| exchange_new: "acceptAt t = ExchangeNew \<Longrightarrow> exchangeClient (server t) = (d, s) \<Longrightarrow>
    accept_step t (t\<lparr>server := s, acceptAt := HasNew d\<rparr>)"
| close_new: "acceptAt t = HasNew d \<Longrightarrow>
    accept_step t (t\<lparr>kern := shutAndClose d (kern t), acceptAt := Outside (Some (Inr False))\<rparr>)"

inductive stop_step :: "threads_state \<Rightarrow> threads_state \<Rightarrow> bool" where
  set_stopped: "stopAt t = NotStopping \<Longrightarrow>
    stop_step t (t\<lparr>server := (server t)\<lparr>stopped := True\<rparr>, stopAt := ExchangeC\<rparr>)"
| exchange_client: "stopAt t = ExchangeC \<Longrightarrow> exchangeClient (server t) = (d, s) \<Longrightarrow>
    stop_step t (t\<lparr>server := s, stopAt := HasClient d\<rparr>)"
| close_client: "stopAt t = HasClient d \<Longrightarrow>
    stop_step t (t\<lparr>kern := shutAndClose d (kern t), stopAt := ExchangeL\<rparr>)"
| exchange_listen: "stopAt t = ExchangeL \<Longrightarrow> exchangeListen (server t) = (d, s) \<Longrightarrow>
    stop_step t (t\<lparr>server := s, stopAt := HasListen d\<rparr>)"
| close_listen: "stopAt t = HasListen d \<Longrightarrow>
    stop_step t (t\<lparr>kern := shutAndClose d (kern t), stopAt := NotStopping\<rparr>)"

text \<open>The destructor calls \<^verbatim>\<open>stop\<close> when no other thread uses the server any more.\<close>

definition deleteTcpServer :: "TcpServer \<Rightarrow> kernel \<Rightarrow> TcpServer \<times> kernel" where
  "deleteTcpServer s k =
     (case exchangeClient (s\<lparr>stopped := True\<rparr>) of (client, s1) \<Rightarrow>
       (case exchangeListen s1 of (listen, s2) \<Rightarrow>
         (s2, shutAndClose listen (shutAndClose client k))))"

inductive_cases accept_stepE: "accept_step t u"
inductive_cases stop_stepE: "stop_step t u"

inductive server_step :: "threads_state \<Rightarrow> threads_state \<Rightarrow> bool" where
  accepting: "accept_step t u \<Longrightarrow> server_step t u"
| stopping: "stop_step t u \<Longrightarrow> server_step t u"

abbreviation server_reach :: "threads_state \<Rightarrow> threads_state \<Rightarrow> bool" where
  "server_reach \<equiv> server_step\<^sup>*\<^sup>*"

lemma accept_on: "server_reach t u \<Longrightarrow> accept_step u v \<Longrightarrow> server_reach t v"
  and stop_on: "server_reach t u \<Longrightarrow> stop_step u v \<Longrightarrow> server_reach t v"
  by (auto intro: reach_intros server_step.intros)


section \<open>Descriptors\<close>

text \<open>
  \<open>owned others H k\<close>: each descriptor of \<open>H\<close> that is not -1 is open and has one owner, and beside the
  \<open>others\<close> of the process nothing else is open.
\<close>

definition owned :: "int set \<Rightarrow> int multiset \<Rightarrow> kernel \<Rightarrow> bool" where
  "owned others H k \<longleftrightarrow> (\<forall>d \<ge> 0. count H d \<le> 1) \<and> fds k = others \<union> {d. d \<ge> 0 \<and> d \<in># H}
     \<and> (\<forall>d \<in> others. d \<ge> 0 \<longrightarrow> d \<notin># H) \<and> \<not> badClose k"

lemma owned_none [simp]: "owned others (add_mset (-1) H) k \<longleftrightarrow> owned others H k"
proof -
  have "{d. d \<ge> (0::int) \<and> (d = -1 \<or> d \<in># H)} = {d. d \<ge> 0 \<and> d \<in># H}" by auto
  then show ?thesis by (auto simp: owned_def)
qed

lemma owned_none_later [simp]:
  "owned others (add_mset d (add_mset (-1) H)) k \<longleftrightarrow> owned others (add_mset d H) k"
  by (subst add_mset_commute) simp

lemma owned_close:
  assumes "owned others (add_mset d H) k"
  shows "owned others H (shutAndClose d k)"
proof (cases "d \<ge> 0")
  case False
  then have "{x. x \<ge> 0 \<and> x \<in># add_mset d H} = {x. x \<ge> 0 \<and> x \<in># H}" by auto
  moreover have "(\<forall>x \<ge> 0. count H x \<le> 1) \<and> (\<forall>x \<in> others. x \<ge> 0 \<longrightarrow> x \<notin># H)"
    using assms False by (auto simp: owned_def split: if_splits)
  ultimately show ?thesis
    using assms False unfolding owned_def shutAndClose_def by simp
next
  case True
  have "count (add_mset d H) d \<le> 1" using assms True unfolding owned_def by blast
  then have d: "d \<notin># H" by (simp add: not_in_iff)
  have no: "d \<notin> others" using assms True by (auto simp: owned_def)
  have f: "fds k = others \<union> {x. x \<ge> 0 \<and> x \<in># add_mset d H}" and b: "\<not> badClose k"
    using assms by (auto simp: owned_def)
  have "fds k - {d} = others \<union> {x. x \<ge> 0 \<and> x \<in># H}" "d \<in> fds k" using f d no True by auto
  moreover have "count H x \<le> 1" if "x \<ge> 0" for x
  proof -
    have "count (add_mset d H) x \<le> 1" using assms that unfolding owned_def by blast
    then show ?thesis by (simp split: if_splits)
  qed
  moreover have "\<forall>x \<in> others. x \<ge> 0 \<longrightarrow> x \<notin># H" using assms by (auto simp: owned_def)
  ultimately show ?thesis using b True by (simp add: owned_def shutAndClose_def)
qed

lemma owned_open:
  assumes "owned others H k" and "fd \<ge> 0" and "fd \<notin> fds k"
  shows "owned others (add_mset fd H) (k\<lparr>fds := insert fd (fds k)\<rparr>)"
proof -
  have "fd \<notin># H" "fd \<notin> others" using assms by (auto simp: owned_def)
  then have "count (add_mset fd H) x \<le> 1" if "x \<ge> 0" for x
    using assms(1) that by (cases "x = fd") (auto simp: owned_def not_in_iff)
  with assms \<open>fd \<notin> others\<close> show ?thesis unfolding owned_def by auto
qed

fun in_hand :: "accept_pc \<Rightarrow> int multiset" where
  "in_hand (HasOld d) = {#d#}"
| "in_hand (StoreClient d) = {#d#}"
| "in_hand (HasNew d) = {#d#}"
| "in_hand _ = {#}"

fun in_stop :: "stop_pc \<Rightarrow> int multiset" where
  "in_stop (HasClient d) = {#d#}"
| "in_stop (HasListen d) = {#d#}"
| "in_stop _ = {#}"

text \<open>Who is responsible for which descriptor: the two fields, and what the threads have in hand.\<close>

definition holding :: "threads_state \<Rightarrow> int multiset" where
  "holding t = add_mset (listenFd (server t)) (add_mset (clientFd (server t)) (in_hand (acceptAt t) + in_stop (stopAt t)))"

fun client_stored :: "accept_pc \<Rightarrow> bool" where
  "client_stored (Outside r) = True"
| "client_stored TestAgain = True"
| "client_stored ExchangeNew = True"
| "client_stored _ = False"

lemma accept_step_owned:
  assumes "accept_step t u" and "owned others (holding t) (kern t)"
    and "\<not> client_stored (acceptAt t) \<Longrightarrow> clientFd (server t) = -1"
  shows "owned others (holding u) (kern u)"
  using assms(1)
proof (cases rule: accept_step.cases)
  case (close_old d)
  with assms owned_close [of others d "holding u" "kern t"] show ?thesis
    by (simp add: holding_def add_mset_commute)
next
  case (close_new d)
  with assms owned_close [of others d "holding u" "kern t"] show ?thesis
    by (simp add: holding_def add_mset_commute)
next
  case (accepts l fd)
  with assms owned_open [of others "holding t" "kern t" fd] show ?thesis
    by (simp add: holding_def add_mset_commute)
qed (use assms in \<open>auto simp: holding_def exchangeClient_def add_mset_commute\<close>)

lemma stop_step_owned:
  assumes "stop_step t u" and "owned others (holding t) (kern t)"
  shows "owned others (holding u) (kern u)"
  using assms(1)
proof (cases rule: stop_step.cases)
  case (close_client d)
  with assms owned_close [of others d "holding u" "kern t"] show ?thesis
    by (simp add: holding_def add_mset_commute)
next
  case (close_listen d)
  with assms owned_close [of others d "holding u" "kern t"] show ?thesis
    by (simp add: holding_def add_mset_commute)
qed (use assms in \<open>auto simp: holding_def exchangeClient_def exchangeListen_def add_mset_commute\<close>)

text \<open>After a stop the two fields are empty, up to a descriptor that is about to be tested again.\<close>

definition stop_clears :: "threads_state \<Rightarrow> bool" where
  "stop_clears t \<longleftrightarrow> (\<not> client_stored (acceptAt t) \<longrightarrow> clientFd (server t) = -1)
     \<and> (stopAt t \<noteq> NotStopping \<longrightarrow> stopped (server t))
     \<and> (stopped (server t) \<and> stopAt t \<noteq> ExchangeC \<longrightarrow>
          clientFd (server t) = -1 \<or> acceptAt t = TestAgain \<or> acceptAt t = ExchangeNew)
     \<and> (stopped (server t) \<and> stopAt t = NotStopping \<longrightarrow> listenFd (server t) = -1)
     \<and> (\<forall>d. stopAt t = HasListen d \<longrightarrow> listenFd (server t) = -1)"

lemma accept_step_clears: "accept_step t u \<Longrightarrow> stop_clears t \<Longrightarrow> stop_clears u"
  by (erule accept_stepE) (auto simp: stop_clears_def exchangeClient_def)

lemma stop_step_clears: "stop_step t u \<Longrightarrow> stop_clears t \<Longrightarrow> stop_clears u"
  by (erule stop_stepE) (auto simp: stop_clears_def exchangeClient_def exchangeListen_def)

definition server_inv :: "int set \<Rightarrow> threads_state \<Rightarrow> bool" where
  "server_inv others t \<longleftrightarrow> owned others (holding t) (kern t) \<and> stop_clears t"

interpretation server_machine: state_machine server_step "server_inv others" for others
proof
  show "server_inv others u" if "server_inv others t" "server_step t u" for t u
    using that(2) that(1) accept_step_owned accept_step_clears stop_step_owned stop_step_clears
    unfolding server_inv_def by (cases rule: server_step.cases) (metis stop_clears_def, metis)
qed


text \<open>The destructor is one run of \<^verbatim>\<open>stop\<close>; after it the server holds no descriptor.\<close>

lemma deleteTcpServer_stops:
  assumes "stopAt t = NotStopping" and "deleteTcpServer (server t) (kern t) = (s, k)"
  shows "server_reach t (t\<lparr>server := s, kern := k\<rparr>)"
proof -
  let ?s1 = "(server t)\<lparr>stopped := True\<rparr>" and ?s2 = "(server t)\<lparr>stopped := True, clientFd := -1\<rparr>"
  let ?k = "shutAndClose (clientFd (server t)) (kern t)"
  have d: "s = ?s2\<lparr>listenFd := -1\<rparr>" "k = shutAndClose (listenFd (server t)) ?k"
    using assms(2) by (simp_all add: deleteTcpServer_def exchangeClient_def exchangeListen_def)
  note run = stop_on
  have "server_reach t (t\<lparr>server := ?s1, stopAt := ExchangeC\<rparr>)"
    by (rule run [OF rtranclp.rtrancl_refl stop_step.set_stopped [OF assms(1)]])
  then have "server_reach t (t\<lparr>server := ?s2, stopAt := HasClient (clientFd (server t))\<rparr>)"
    by (rule run) (use stop_step.exchange_client [of "t\<lparr>server := ?s1, stopAt := ExchangeC\<rparr>"] in \<open>simp add: exchangeClient_def\<close>)
  then have "server_reach t (t\<lparr>server := ?s2, kern := ?k, stopAt := ExchangeL\<rparr>)"
    by (rule run) (use stop_step.close_client [of "t\<lparr>server := ?s2, stopAt := HasClient (clientFd (server t))\<rparr>"] in simp)
  then have "server_reach t (t\<lparr>server := s, kern := ?k, stopAt := HasListen (listenFd (server t))\<rparr>)"
    by (rule run) (use stop_step.exchange_listen [of "t\<lparr>server := ?s2, kern := ?k, stopAt := ExchangeL\<rparr>"] in \<open>cases t, simp add: exchangeListen_def d\<close>)
  then have "server_reach t (t\<lparr>server := s, kern := k, stopAt := NotStopping\<rparr>)"
    by (rule run) (use stop_step.close_listen [of "t\<lparr>server := s, kern := ?k, stopAt := HasListen (listenFd (server t))\<rparr>"] in \<open>cases t, simp add: d\<close>)
  moreover have "t\<lparr>server := s, kern := k, stopAt := NotStopping\<rparr> = t\<lparr>server := s, kern := k\<rparr>"
    using assms(1) by (cases t) simp
  ultimately show ?thesis by simp
qed

lemma deleteTcpServer_closes:
  assumes "server_inv others t" and "acceptAt t = Outside r" and "stopAt t = NotStopping"
    and "deleteTcpServer (server t) (kern t) = (s, k)"
  shows "fds k = others \<and> \<not> badClose k"
proof -
  let ?u = "t\<lparr>server := s, kern := k\<rparr>"
  have "owned others (holding ?u) k"
    using server_machine.invariant [OF deleteTcpServer_stops [OF assms(3,4)] assms(1)] by (simp add: server_inv_def)
  moreover have "clientFd s = -1" "listenFd s = -1"
    using assms(4) by (auto simp: deleteTcpServer_def exchangeClient_def exchangeListen_def)
  ultimately show ?thesis using assms(2,3) by (auto simp: holding_def owned_def)
qed


section \<open>Receiving\<close>

text \<open>A decoded frame is one of the two log frames, and each of them is decoded.\<close>

lemma decodeLogFrame_iff:
  "decodeLogFrame f = Inr ms \<longleftrightarrow> (\<exists>m. ms = [m] \<and> serializeLogMessage m = Inr f) \<or> serializeLogBatch ms = Inr f"
proof
  assume "decodeLogFrame f = Inr ms"
  then show "(\<exists>m. ms = [m] \<and> serializeLogMessage m = Inr f) \<or> serializeLogBatch ms = Inr f"
    by (auto simp: decodeLogFrame_def bind_simps log_codec.des_iff_ser batch_codec.des_iff_ser split: if_splits)
next
  assume "(\<exists>m. ms = [m] \<and> serializeLogMessage m = Inr f) \<or> serializeLogBatch ms = Inr f"
  then show "decodeLogFrame f = Inr ms"
  proof (elim disjE exE conjE)
    fix m assume m: "ms = [m]" "serializeLogMessage m = Inr f"
    with log_codec.header_of_whole [OF m(2)] show ?thesis
      by (auto simp: decodeLogFrame_def bind_simps log_codec.des_iff_ser)
  next
    assume b: "serializeLogBatch ms = Inr f"
    with batch_codec.header_of_whole [OF b] show ?thesis
      by (auto simp: decodeLogFrame_def bind_simps batch_codec.des_iff_ser)
  qed
qed

text \<open>What the server handles: never empty, one client, increasing ids, valid fields.\<close>

definition log_group :: "LogMessage list \<Rightarrow> bool" where
  "log_group ms \<longleftrightarrow> ms \<noteq> [] \<and> (\<forall>m \<in> set ms. valid_message m \<and> clientId m = clientId (hd ms))
     \<and> sorted_wrt (<) (map msgId ms)"

lemma decodeLogFrame_group: "decodeLogFrame f = Inr ms \<Longrightarrow> log_group ms"
  by (auto simp: decodeLogFrame_iff serializeLogMessage_iff serializeLogBatch_iff valid_batch_def
      log_group_def one_client_def ids_increasing_def)

lemma receiveLogBatch_decodes:
  assumes "receiveLogBatch s evs = (Returned (Some ms), evs')"
  shows "\<exists>f. decodeLogFrame f = Inr ms \<and> receiveFrame evs = (Returned (Some f), evs')"
  using assms by (auto simp: receiveLogBatch_def split: if_splits netout.splits option.splits sum.splits prod.splits)

lemma receiveLogBatch_group: "receiveLogBatch s evs = (Returned (Some ms), evs') \<Longrightarrow> log_group ms"
  using receiveLogBatch_decodes decodeLogFrame_group by blast

lemma receiveLogBatch_frame:
  assumes "clientFd s \<ge> 0" and "decodeLogFrame f = Inr ms" and "bytes_of evs = f @ later"
  shows "\<exists>evs'. receiveLogBatch s evs = (Returned (Some ms), evs') \<and> bytes_of evs' = later \<and> ending_of evs' = ending_of evs"
proof -
  have "is_frame f"
    using assms(2) log_codec.is_frame_ser batch_codec.is_frame_ser by (auto simp: decodeLogFrame_iff)
  then obtain evs' where "receiveFrame evs = (Returned (Some f), evs')" "bytes_of evs' = later" "ending_of evs' = ending_of evs"
    by (rule receiveFrame_frame [OF _ assms(3)])
  with assms(1,2) show ?thesis by (simp add: receiveLogBatch_def)
qed


section \<open>Properties\<close>

definition idle_threads :: "TcpServer \<Rightarrow> kernel \<Rightarrow> threads_state" where
  "idle_threads s k = \<lparr>server = s, kern = k, acceptAt = Outside None, stopAt = NotStopping\<rparr>"

lemma newTcpServer_inv:
  assumes "newTcpServer (Inl fd) r b l nm k = (Inr s, k')" and "int fd \<notin> fds k" and "\<not> badClose k"
  shows "server_inv (fds k) (idle_threads s k')"
proof -
  have s: "listenFd s = int fd" "clientFd s = -1" "\<not> stopped s" "k' = k\<lparr>fds := insert (int fd) (fds k)\<rparr>"
    using assms(1) by (auto simp: newTcpServer_def Let_def split: option.splits sum.splits)
  have "owned (fds k) {#} k" using assms(3) by (simp add: owned_def)
  from owned_open [OF this, of "int fd"] assms(2) s show ?thesis
    by (simp add: server_inv_def idle_threads_def holding_def stop_clears_def)
qed

text \<open>
  Property C19. Accepting and stopping may interleave in any way: no descriptor is ever closed twice or
  closed without being open, and when \<^verbatim>\<open>stop\<close> has returned and \<^verbatim>\<open>acceptClient\<close> is not running, every
  descriptor the server had opened is closed again. A constructor that throws leaves none open.
\<close>

theorem server_descriptors_safe:
  assumes "newTcpServer (Inl fd) r b l nm k = (made, k')" and "int fd \<notin> fds k" and "\<not> badClose k"
  shows "(\<forall>e. made = Inl e \<longrightarrow> fds k' = fds k \<and> \<not> badClose k')
    \<and> (\<forall>s t. made = Inr s \<longrightarrow> server_reach (idle_threads s k') t \<longrightarrow>
         \<not> badClose (kern t)
         \<and> (stopped (server t) \<and> stopAt t = NotStopping \<and> (\<exists>out. acceptAt t = Outside out) \<longrightarrow> fds (kern t) = fds k))"
proof -
  have "\<not> badClose (kern t) \<and> (stopped (server t) \<and> stopAt t = NotStopping \<and> (\<exists>out. acceptAt t = Outside out) \<longrightarrow>
      fds (kern t) = fds k)" if "made = Inr s" "server_reach (idle_threads s k') t" for s t
  proof -
    have "server_inv (fds k) t"
      using server_machine.invariant [OF that(2)] newTcpServer_inv assms that(1) by blast
    then show ?thesis
      by (auto simp: server_inv_def stop_clears_def holding_def owned_def)
  qed
  moreover have "fds k' = fds k \<and> \<not> badClose k'" if "made = Inl e" for e
    using assms that
    by (auto simp: newTcpServer_def Let_def shutAndClose_def exchangeListen_def split: option.splits sum.splits)
  ultimately show ?thesis by blast
qed

text \<open>A client is accepted while the other thread stops the server, which then closes it.\<close>

lemma server_descriptors_safe_witness:
  "\<exists>s k' t. newTcpServer (Inl 4) None None None (Inl 9000) \<lparr>fds = {0, 1, 2}, badClose = False\<rparr> = (Inr s, k')
    \<and> server_reach (idle_threads s k') t \<and> acceptAt t = Outside (Some (Inr False)) \<and> fds (kern t) = {0, 1, 2}
    \<and> \<not> badClose (kern t)"
proof -
  let ?k = "\<lparr>fds = {0, 1, 2}, badClose = False\<rparr>"
  let ?s = "\<lambda>l c st. \<lparr>listenFd = l, clientFd = c, stopped = st, portNumber = 9000\<rparr>"
  let ?t = "\<lambda>l c st F a p. \<lparr>server = ?s l c st, kern = \<lparr>fds = F, badClose = False\<rparr>, acceptAt = a, stopAt = p\<rparr>"
  have new: "newTcpServer (Inl 4) None None None (Inl 9000) ?k = (Inr (?s 4 (-1) False), \<lparr>fds = {4, 0, 1, 2}, badClose = False\<rparr>)"
    by (simp add: newTcpServer_def)
  have run: "server_reach (idle_threads (?s 4 (-1) False) \<lparr>fds = {4, 0, 1, 2}, badClose = False\<rparr>)
     (?t (-1) (-1) True {0, 1, 2} (Outside (Some (Inr False))) NotStopping)"
  proof -
    have a: "accept_step (?t 4 (-1) False {4,0,1,2} (Outside None) NotStopping) (?t 4 (-1) False {4,0,1,2} (HasOld (-1)) NotStopping)"
      "accept_step (?t 4 (-1) False {4,0,1,2} (HasOld (-1)) NotStopping) (?t 4 (-1) False {4,0,1,2} TestStopped NotStopping)"
      "accept_step (?t 4 (-1) False {4,0,1,2} TestStopped NotStopping) (?t 4 (-1) False {4,0,1,2} LoadListen NotStopping)"
      "accept_step (?t 4 (-1) False {4,0,1,2} LoadListen NotStopping) (?t 4 (-1) False {4,0,1,2} (CallAccept 4) NotStopping)"
      "accept_step (?t 4 (-1) False {4,0,1,2} (CallAccept 4) NotStopping) (?t 4 (-1) False {5,4,0,1,2} (StoreClient 5) NotStopping)"
      using accept_step.enter [of "?t 4 (-1) False {4,0,1,2} (Outside None) NotStopping"]
        accept_step.close_old [of "?t 4 (-1) False {4,0,1,2} (HasOld (-1)) NotStopping"]
        accept_step.test_stopped [of "?t 4 (-1) False {4,0,1,2} TestStopped NotStopping"]
        accept_step.load_listen [of "?t 4 (-1) False {4,0,1,2} LoadListen NotStopping"]
        accept_step.accepts [of "?t 4 (-1) False {4,0,1,2} (CallAccept 4) NotStopping" 4 5]
      by (simp_all add: exchangeClient_def shutAndClose_def)
    have s: "stop_step (?t 4 (-1) False {5,4,0,1,2} (StoreClient 5) NotStopping) (?t 4 (-1) True {5,4,0,1,2} (StoreClient 5) ExchangeC)"
      "stop_step (?t 4 (-1) True {5,4,0,1,2} (StoreClient 5) ExchangeC) (?t 4 (-1) True {5,4,0,1,2} (StoreClient 5) (HasClient (-1)))"
      "stop_step (?t 4 (-1) True {5,4,0,1,2} (StoreClient 5) (HasClient (-1))) (?t 4 (-1) True {5,4,0,1,2} (StoreClient 5) ExchangeL)"
      "stop_step (?t 4 (-1) True {5,4,0,1,2} (StoreClient 5) ExchangeL) (?t (-1) (-1) True {5,4,0,1,2} (StoreClient 5) (HasListen 4))"
      "stop_step (?t (-1) (-1) True {5,4,0,1,2} (StoreClient 5) (HasListen 4)) (?t (-1) (-1) True {5,0,1,2} (StoreClient 5) NotStopping)"
      using stop_step.set_stopped [of "?t 4 (-1) False {5,4,0,1,2} (StoreClient 5) NotStopping"]
        stop_step.exchange_client [of "?t 4 (-1) True {5,4,0,1,2} (StoreClient 5) ExchangeC"]
        stop_step.close_client [of "?t 4 (-1) True {5,4,0,1,2} (StoreClient 5) (HasClient (-1))"]
        stop_step.exchange_listen [of "?t 4 (-1) True {5,4,0,1,2} (StoreClient 5) ExchangeL"]
        stop_step.close_listen [of "?t (-1) (-1) True {5,4,0,1,2} (StoreClient 5) (HasListen 4)"]
      by (simp_all add: exchangeClient_def exchangeListen_def shutAndClose_def insert_Diff_if)
    have c: "accept_step (?t (-1) (-1) True {5,0,1,2} (StoreClient 5) NotStopping) (?t (-1) 5 True {5,0,1,2} TestAgain NotStopping)"
      "accept_step (?t (-1) 5 True {5,0,1,2} TestAgain NotStopping) (?t (-1) 5 True {5,0,1,2} ExchangeNew NotStopping)"
      "accept_step (?t (-1) 5 True {5,0,1,2} ExchangeNew NotStopping) (?t (-1) (-1) True {5,0,1,2} (HasNew 5) NotStopping)"
      "accept_step (?t (-1) (-1) True {5,0,1,2} (HasNew 5) NotStopping) (?t (-1) (-1) True {0,1,2} (Outside (Some (Inr False))) NotStopping)"
      using accept_step.store_client [of "?t (-1) (-1) True {5,0,1,2} (StoreClient 5) NotStopping"]
        accept_step.test_again [of "?t (-1) 5 True {5,0,1,2} TestAgain NotStopping"]
        accept_step.exchange_new [of "?t (-1) 5 True {5,0,1,2} ExchangeNew NotStopping"]
        accept_step.close_new [of "?t (-1) (-1) True {5,0,1,2} (HasNew 5) NotStopping"]
      by (simp_all add: exchangeClient_def shutAndClose_def)
    show ?thesis
      unfolding idle_threads_def
      by (rule accept_on [OF accept_on [OF accept_on [OF accept_on [OF stop_on [OF stop_on [OF stop_on [OF stop_on
        [OF stop_on [OF accept_on [OF accept_on [OF accept_on [OF accept_on [OF accept_on [OF rtranclp.rtrancl_refl
        a(1)] a(2)] a(3)] a(4)] a(5)] s(1)] s(2)] s(3)] s(4)] s(5)] c(1)] c(2)] c(3)] c(4)])
  qed
  have "\<not> badClose (kern (?t (-1) (-1) True {0, 1, 2} (Outside (Some (Inr False))) NotStopping))"
    using server_descriptors_safe [OF new] run by simp
  with new run show ?thesis
    by (intro exI [of _ "?s 4 (-1) False"] exI) (auto simp del: insert_commute)
qed

text \<open>
  Property C33. Once \<^verbatim>\<open>stopped_\<close> is set, a running \<^verbatim>\<open>acceptClient\<close> returns after a bounded number of its own
  steps, and it returns false: it can always move, every move brings it closer to the end, and it
  never waits for a client again.
\<close>

fun accept_rank :: "accept_pc \<Rightarrow> nat" where
  "accept_rank (Outside r) = 0"
| "accept_rank (HasNew d) = 1"
| "accept_rank ExchangeNew = 2"
| "accept_rank TestAgain = 3"
| "accept_rank (AfterLoop e) = 3"
| "accept_rank (StoreClient d) = 4"
| "accept_rank (LoopTest l e) = 4"
| "accept_rank (CallAccept l) = 5"
| "accept_rank LoadListen = 6"
| "accept_rank TestStopped = 7"
| "accept_rank (HasOld d) = 8"



text \<open>
  Property C29. Whatever arrives, a group that \<^verbatim>\<open>receiveLogBatch\<close> returns is well formed: it has a first and a
  last message, all fields are within the limits of the protocol, all messages have the client id of
  the first one and strictly increasing ids other than 0. And it is exactly what the peer serialized:
  the bytes taken from the stream are the frame of this group and nothing else.
\<close>

theorem received_groups_wellformed:
  assumes "receiveLogBatch s evs = (Returned (Some ms), evs')"
  shows "ms \<noteq> [] \<and> length ms \<le> MaxBatchMessageCount \<and> sorted_wrt (<) (map msgId ms)
    \<and> (\<forall>m \<in> set ms. clientId m = clientId (hd ms) \<and> msgId m \<noteq> 0 \<and> clientId m \<noteq> []
         \<and> length (clientId m) \<le> MaxClientIdLength \<and> length (source m) \<le> MaxSourceLength \<and> length (content m) \<le> MaxContentLength)
    \<and> (\<exists>f. bytes_of evs = f @ bytes_of evs' \<and> (serializeLogBatch ms = Inr f \<or> (\<exists>m. ms = [m] \<and> serializeLogMessage m = Inr f)))"
proof -
  obtain f where f: "decodeLogFrame f = Inr ms" "receiveFrame evs = (Returned (Some f), evs')"
    using receiveLogBatch_decodes [OF assms] by blast
  have g: "log_group ms" using decodeLogFrame_group [OF f(1)] .
  have "length ms \<le> MaxBatchMessageCount"
    using f(1) by (auto simp: decodeLogFrame_iff serializeLogBatch_iff valid_batch_def MaxBatchMessageCount_def)
  moreover have "bytes_of evs = f @ bytes_of evs'" using receiveFrame_stream(2) [OF f(2)] by blast
  moreover have "serializeLogBatch ms = Inr f \<or> (\<exists>m. ms = [m] \<and> serializeLogMessage m = Inr f)"
    using f(1) by (auto simp: decodeLogFrame_iff)
  moreover have "\<forall>m \<in> set ms. clientId m = clientId (hd ms) \<and> msgId m \<noteq> 0 \<and> clientId m \<noteq> []
         \<and> length (clientId m) \<le> MaxClientIdLength \<and> length (source m) \<le> MaxSourceLength \<and> length (content m) \<le> MaxContentLength"
    using g unfolding log_group_def valid_message_def by blast
  ultimately show ?thesis using g unfolding log_group_def by blast
qed

lemma received_groups_wellformed_witness:
  "\<exists>f evs'. receiveLogBatch \<lparr>listenFd = 4, clientFd = 5, stopped = False, portNumber = 9000\<rparr> [Segment f]
      = (Returned (Some [sample_message 3, sample_message 4]), evs')
    \<and> f = batchFrame [sample_message 3, sample_message 4] \<and> bytes_of evs' = []"
proof -
  let ?s = "\<lparr>listenFd = 4, clientFd = 5, stopped = False, portNumber = 9000\<rparr>"
  let ?ms = "[sample_message 3, sample_message 4]" and ?f = "batchFrame [sample_message 3, sample_message 4]"
  have v: "valid_batch ?ms" by (rule small_batch_valid) (simp_all add: one_client_def ids_increasing_def)
  then have "decodeLogFrame ?f = Inr ?ms" by (simp add: decodeLogFrame_iff serializeLogBatch_iff)
  then obtain evs' where run: "receiveLogBatch ?s [Segment ?f] = (Returned (Some ?ms), evs')"
    using receiveLogBatch_frame [of ?s ?f ?ms "[Segment ?f]" "[]"] by auto
  from received_groups_wellformed [OF this] have "length (bytes_of evs') = 0"
    by (auto simp: serializeLogBatch_iff)
  with run show ?thesis by blast
qed

end
