(* ===== verification/ServerMain.thy ===== *)
theory ServerMain
  imports TcpServer TcpClient DedupSessions
begin

text \<open>
  \<^verbatim>\<open>src/src/ServerMain.cpp\<close>: one connection after the other, one group of messages after the other;
  messages at or below the stored watermark are skipped, the others are printed, the watermark is
  stored, and only then the acknowledgement goes out. Standard output is the list of the printed
  messages; the text of the output is in \<^verbatim>\<open>Console\<close>.
\<close>

section \<open>The code\<close>

record ServerMetrics =
  mtConnections :: u64
  mtBatches :: u64
  mtReceived :: u64
  mtProcessed :: u64
  mtDuplicates :: u64

definition noServerMetrics :: ServerMetrics where
  "noServerMetrics = \<lparr>mtConnections = 0, mtBatches = 0, mtReceived = 0, mtProcessed = 0, mtDuplicates = 0\<rparr>"

text \<open>\<^verbatim>\<open>std::stoul\<close> is \<^verbatim>\<open>std::stoull\<close> where \<^verbatim>\<open>unsigned long\<close> has 64 bits; the text of the exception is in English here.\<close>

definition parseServerPort :: "string \<Rightarrow> u16 result" where
  "parseServerPort text =
     bindR (stoull text) (\<lambda>(value, parsedLength).
       if parsedLength \<noteq> length text \<or> value = 0 \<or> value > 65535
       then Inl (InvalidArgument ''port must be between 1 and 65535'')
       else Inr (ucast value))"

text \<open>The loop over the messages of a group: what is printed, \<^verbatim>\<open>latestProcessed\<close>, the metrics.\<close>

fun processMessages :: "u64 \<Rightarrow> LogMessage list \<Rightarrow> u64 \<Rightarrow> ServerMetrics \<Rightarrow> LogMessage list \<times> u64 \<times> ServerMetrics" where
  "processMessages previous [] latest mt = ([], latest, mt)"
| "processMessages previous (m # ms) latest mt =
     (if msgId m \<le> previous
      then processMessages previous ms latest (mt\<lparr>mtDuplicates := mtDuplicates mt + 1\<rparr>)
      else (case processMessages previous ms (msgId m) (mt\<lparr>mtProcessed := mtProcessed mt + 1\<rparr>) of
              (out, latest', mt') \<Rightarrow> (m # out, latest', mt')))"

record ServerRun =
  dedup :: DedupStore
  metrics :: ServerMetrics
  printed :: "LogMessage list"

text \<open>How the handling of one group ends; \<open>Died\<close> is a crash of the process.\<close>

datatype round = Acked | RoundFailed exn | RoundBlocked | Died

definition handleGroup ::
  "TcpServer \<Rightarrow> LogMessage list \<Rightarrow> (nat + errno) list \<Rightarrow> ServerRun \<Rightarrow> world
     \<Rightarrow> round \<times> ByteBuffer \<times> (nat + errno) list \<times> ServerRun \<times> world" where
  "handleGroup tcp messages sends sv w =
     (let mt1 = (metrics sv)\<lparr>mtReceived := mtReceived (metrics sv) + of_nat (length messages)\<rparr>;
          client = clientId (hd messages);
          previous = highestConfirmed (dedup sv) client;
          (out, latest, mt2) = processMessages previous messages previous mt1;
          sv1 = sv\<lparr>metrics := mt2, printed := printed sv @ out\<rparr>
      in case confirmMark client latest (dedup sv) w of
           (Throw e, st, w') \<Rightarrow> (RoundFailed e, [], sends, sv1\<lparr>dedup := st\<rparr>, w')
         | (Crash, st, w') \<Rightarrow> (Died, [], sends, sv1\<lparr>dedup := st\<rparr>, w')
         | (Done persisted, st, w') \<Rightarrow>
             (case sendAck tcp (msgId (last messages)) sends of
                (Failed e, bs, sends') \<Rightarrow> (RoundFailed e, bs, sends', sv1\<lparr>dedup := st\<rparr>, w')
              | (Waiting, bs, sends') \<Rightarrow> (RoundBlocked, bs, sends', sv1\<lparr>dedup := st\<rparr>, w')
              | (Returned _, bs, sends') \<Rightarrow>
                  (Acked, bs, sends', sv1\<lparr>dedup := st, metrics := mt2\<lparr>mtBatches := mtBatches mt2 + 1\<rparr>\<rparr>, w')))"

text \<open>
  The loop over one connection. The first argument counts the tests of \<^verbatim>\<open>running\<close> that are true: the
  signal thread may clear it at any time.
\<close>

datatype conn_end = RunningCleared | Disconnected | Dropped exn | Blocked | ProcessDied

fun serveConnection ::
  "nat \<Rightarrow> TcpServer \<Rightarrow> event list \<Rightarrow> (nat + errno) list \<Rightarrow> ServerRun \<Rightarrow> world
     \<Rightarrow> conn_end \<times> ByteBuffer \<times> ServerRun \<times> world" where
  "serveConnection 0 tcp evs sends sv w = (RunningCleared, [], sv, w)"
| "serveConnection (Suc n) tcp evs sends sv w =
     (case receiveLogBatch tcp evs of
        (Returned None, evs') \<Rightarrow> (Disconnected, [], sv, w)
      | (Failed e, evs') \<Rightarrow> (Dropped e, [], sv, w)
      | (Waiting, evs') \<Rightarrow> (Blocked, [], sv, w)
      | (Returned (Some messages), evs') \<Rightarrow>
          (case handleGroup tcp messages sends sv w of
             (RoundFailed e, bs, sends', sv', w') \<Rightarrow> (Dropped e, bs, sv', w')
           | (RoundBlocked, bs, sends', sv', w') \<Rightarrow> (Blocked, bs, sv', w')
           | (Died, bs, sends', sv', w') \<Rightarrow> (ProcessDied, bs, sv', w')
           | (Acked, bs, sends', sv', w') \<Rightarrow>
               (case serveConnection n tcp evs' sends' sv' w' of
                  (e, bs', sv'', w'') \<Rightarrow> (e, bs @ bs', sv'', w''))))"

text \<open>
  The loop over the connections. Each entry is what \<^verbatim>\<open>acceptClient\<close> does while \<^verbatim>\<open>running\<close> is true; the
  list ends when \<^verbatim>\<open>running\<close> is false. \<open>Inl\<close> is an exception, which leaves the loop.
\<close>

datatype accepted = NoClient | Client nat "event list" "(nat + errno) list"

fun serverLoop ::
  "TcpServer \<Rightarrow> (exn + accepted) list \<Rightarrow> ServerRun \<Rightarrow> world \<Rightarrow> unit netout option \<times> ServerRun \<times> world" where
  "serverLoop tcp [] sv w = (Some (Returned ()), sv, w)"
| "serverLoop tcp (Inl e # cs) sv w = (Some (Failed e), sv, w)"
| "serverLoop tcp (Inr NoClient # cs) sv w = (Some (Returned ()), sv, w)"
| "serverLoop tcp (Inr (Client n evs sends) # cs) sv w =
     (let sv1 = sv\<lparr>metrics := (metrics sv)\<lparr>mtConnections := mtConnections (metrics sv) + 1\<rparr>\<rparr>
      in case serveConnection n tcp evs sends sv1 w of
           (ProcessDied, _, sv', w') \<Rightarrow> (None, sv', w')
         | (Blocked, _, sv', w') \<Rightarrow> (Some Waiting, sv', w')
         | (_, _, sv', w') \<Rightarrow> serverLoop tcp cs sv' w')"

text \<open>
  The signal thread: for every round the stop request and the result of \<^verbatim>\<open>waitFor\<close>. True means that
  it cleared \<^verbatim>\<open>running\<close> and stopped the server, also when waiting threw.
\<close>

fun signalThread :: "(bool \<times> (exn + bool)) list \<Rightarrow> bool option" where
  "signalThread [] = None"
| "signalThread ((stopRequested, waited) # rs) =
     (if stopRequested then Some False
      else case waited of
        Inl e \<Rightarrow> Some True
      | Inr True \<Rightarrow> Some True
      | Inr False \<Rightarrow> signalThread rs)"

text \<open>
  \<^verbatim>\<open>main\<close>: the exit status, \<open>None\<close> while it runs or when the process died. \<open>signals\<close> and \<open>made\<close> are the
  results of the constructors of \<^verbatim>\<open>ShutdownSignal\<close> and \<^verbatim>\<open>TcpServer\<close>.
\<close>

definition serverMain ::
  "string option \<Rightarrow> string option \<Rightarrow> exn option \<Rightarrow> (u16 \<Rightarrow> TcpServer result) \<Rightarrow> (exn + accepted) list \<Rightarrow> world
     \<Rightarrow> int option \<times> ServerRun option \<times> world" where
  "serverMain portArg pathArg signals made conns w =
     (case parseServerPort (case portArg of None \<Rightarrow> ''9000'' | Some t \<Rightarrow> t) of
        Inl e \<Rightarrow> (Some 1, None, w)
      | Inr port \<Rightarrow>
          if signals \<noteq> None then (Some 1, None, w)
          else case made port of
            Inl e \<Rightarrow> (Some 1, None, w)
          | Inr tcp \<Rightarrow>
              (case openDedupStore (case pathArg of None \<Rightarrow> ''.logbridge-server/dedup.state'' | Some p \<Rightarrow> p) w of
                 (Throw e, w1) \<Rightarrow> (Some 1, None, w1)
               | (Crash, w1) \<Rightarrow> (None, None, w1)
               | (Done st, w1) \<Rightarrow>
                   (case serverLoop tcp conns \<lparr>dedup = st, metrics = noServerMetrics, printed = []\<rparr> w1 of
                      (Some (Returned _), sv, w2) \<Rightarrow> (Some 0, Some sv, w2)
                    | (Some (Failed e), sv, w2) \<Rightarrow> (Some 1, Some sv, w2)
                    | (Some Waiting, sv, w2) \<Rightarrow> (None, Some sv, w2)
                    | (None, sv, w2) \<Rightarrow> (None, Some sv, w2))))"


section \<open>One group\<close>

lemma processMessages_result:
  "processMessages previous ms latest mt =
     (let out = filter (\<lambda>m. previous < msgId m) ms
      in (out, if out = [] then latest else msgId (last out),
          mt\<lparr>mtProcessed := mtProcessed mt + of_nat (length out),
             mtDuplicates := mtDuplicates mt + of_nat (length (filter (\<lambda>m. msgId m \<le> previous) ms))\<rparr>))"
proof (induction ms arbitrary: latest mt)
  case (Cons m ms)
  show ?case
  proof (cases "msgId m \<le> previous")
    case True
    then have "\<not> previous < msgId m" by simp
    with True show ?thesis by (simp add: Cons.IH Let_def add.assoc)
  next
    case False
    then have "previous < msgId m" by simp
    with False show ?thesis by (simp add: Cons.IH Let_def add.assoc)
  qed
qed simp

lemma log_group_last:
  assumes "log_group ms"
  shows "m \<in> set ms \<Longrightarrow> msgId m \<le> msgId (last ms)" and "last ms \<in> set ms" and "msgId (last ms) \<noteq> 0"
    and "clientId (last ms) = clientId (hd ms)"
proof -
  show l: "last ms \<in> set ms" using assms by (simp add: log_group_def)
  then show "msgId (last ms) \<noteq> 0" "clientId (last ms) = clientId (hd ms)"
    using assms unfolding log_group_def valid_message_def by blast+
  show "msgId m \<le> msgId (last ms)" if "m \<in> set ms"
    using assms that by (cases ms rule: rev_cases) (simp_all add: log_group_def sorted_wrt_append, auto simp: less_imp_le)
qed

text \<open>The last message decides whether anything is new, and it is the new watermark then.\<close>

lemma log_group_latest:
  fixes previous :: u64
  assumes "log_group ms"
  defines "out \<equiv> filter (\<lambda>m. previous < msgId m) ms"
  shows "(if out = [] then previous else msgId (last out)) = max previous (msgId (last ms))"
proof (cases "previous < msgId (last ms)")
  case True
  have "ms \<noteq> []" using assms(1) by (simp add: log_group_def)
  then have "ms = butlast ms @ [last ms]" by simp
  then have "out = filter (\<lambda>m. previous < msgId m) (butlast ms) @ [last ms]"
    using True unfolding out_def by (metis (no_types, lifting) filter.simps filter_append)
  moreover have "max previous (msgId (last ms)) = msgId (last ms)" using True by (simp add: max.absorb2)
  ultimately show ?thesis by simp
next
  case False
  then have "out = []"
    using log_group_last(1) [OF assms(1)] unfolding out_def by (fastforce simp: filter_empty_conv)
  with False show ?thesis by (simp add: max_def)
qed

definition fresh_messages :: "DedupStore \<Rightarrow> LogMessage list \<Rightarrow> LogMessage list" where
  "fresh_messages st ms = filter (\<lambda>m. highestConfirmed st (clientId (hd ms)) < msgId m) ms"

lemma handleGroup_cases:
  assumes "handleGroup tcp ms sends sv w = (r, bs, sends', sv', w')" and "log_group ms"
  obtains (confirmed) st where
      "confirmMark (clientId (hd ms)) (max (highestConfirmed (dedup sv) (clientId (hd ms))) (msgId (last ms))) (dedup sv) w
         = (Done (max (highestConfirmed (dedup sv) (clientId (hd ms))) (msgId (last ms))), st, w')"
      "dedup sv' = st" "printed sv' = printed sv @ fresh_messages (dedup sv) ms"
      "(case fst (sendAck tcp (msgId (last ms)) sends) of Returned _ \<Rightarrow> r = Acked | Failed e \<Rightarrow> r = RoundFailed e
          | Waiting \<Rightarrow> r = RoundBlocked)"
      "bs = fst (snd (sendAck tcp (msgId (last ms)) sends))"
  | (failed) r0 st where
      "confirmMark (clientId (hd ms)) (max (highestConfirmed (dedup sv) (clientId (hd ms))) (msgId (last ms))) (dedup sv) w
         = (r0, st, w')" "\<And>j. r0 \<noteq> Done j" "dedup sv' = st"
      "printed sv' = printed sv @ fresh_messages (dedup sv) ms" "bs = []"
      "r = (if r0 = Crash then Died else r)" "r0 \<noteq> Crash \<Longrightarrow> \<exists>e. r0 = Throw e \<and> r = RoundFailed e"
proof -
  let ?c = "clientId (hd ms)"
  let ?p = "highestConfirmed (dedup sv) ?c"
  let ?i = "max ?p (msgId (last ms))"
  obtain r0 st w1 where c: "confirmMark ?c ?i (dedup sv) w = (r0, st, w1)" by (metis prod_cases3)
  note latest = log_group_latest [OF assms(2), of ?p]
  obtain a b d where s: "sendAck tcp (msgId (last ms)) sends = (a, b, d)" by (metis prod_cases3)
  have j: "j = ?i" if "r0 = Done j" for j
    using c that by (cases rule: confirmMark_cases) (auto simp: max_def)
  show ?thesis
  proof (cases r0)
    case (Done j)
    have "j = ?i" using j Done by simp
    with assms(1) c s latest Done show ?thesis
      by (intro confirmed [of st]) (auto simp: handleGroup_def Let_def processMessages_result fresh_messages_def
          split: netout.splits)
  next
    case (Throw e)
    with assms(1) c latest show ?thesis
      by (intro failed [of r0 st]) (auto simp: handleGroup_def Let_def processMessages_result fresh_messages_def)
  next
    case Crash
    with assms(1) c latest show ?thesis
      by (intro failed [of r0 st]) (auto simp: handleGroup_def Let_def processMessages_result fresh_messages_def)
  qed
qed

text \<open>What a group does to the watermarks in memory.\<close>

lemma handleGroup_marks:
  assumes run: "handleGroup tcp ms sends sv w = (r, bs, sends', sv', w')" and g: "log_group ms"
    and o: "ordered (confirmed (dedup sv))"
  shows "ordered (confirmed (dedup sv'))"
    and "highestConfirmed (dedup sv) c \<le> highestConfirmed (dedup sv') c"
    and "c \<noteq> clientId (hd ms) \<Longrightarrow> highestConfirmed (dedup sv') c = highestConfirmed (dedup sv) c"
    and "r = Acked \<or> r = RoundBlocked \<or> bs \<noteq> [] \<Longrightarrow>
      highestConfirmed (dedup sv') (clientId (hd ms)) = max (highestConfirmed (dedup sv) (clientId (hd ms))) (msgId (last ms))"
    and "r = Acked \<or> r = RoundBlocked \<or> bs \<noteq> [] \<Longrightarrow> prefix bs (serializeAck (msgId (last ms)))"
proof -
  let ?c = "clientId (hd ms)"
  let ?i = "max (highestConfirmed (dedup sv) ?c) (msgId (last ms))"
  note put = highestConfirmed_put [OF o]
  have "ordered (confirmed (dedup sv')) \<and> highestConfirmed (dedup sv) c \<le> highestConfirmed (dedup sv') c
    \<and> (c \<noteq> ?c \<longrightarrow> highestConfirmed (dedup sv') c = highestConfirmed (dedup sv) c)
    \<and> (r = Acked \<or> r = RoundBlocked \<or> bs \<noteq> [] \<longrightarrow> highestConfirmed (dedup sv') ?c = ?i
         \<and> prefix bs (serializeAck (msgId (last ms))))"
    using run g
  proof (cases rule: handleGroup_cases)
    case (confirmed st)
    have "prefix bs (serializeAck (msgId (last ms)))"
      using confirmed(5) sendAll_result [of sends "serializeAck (msgId (last ms))" 0]
      by (cases "sendAll sends (serializeAck (msgId (last ms))) 0") (auto simp: sendAck_def)
    with confirmed(1,2) show ?thesis
      by (cases rule: confirmMark_cases) (use o put in \<open>auto simp: ordered_put_mark max_def not_le\<close>)
  next
    case (failed r0 st)
    have "st = dedup sv" using failed(1) by (cases rule: confirmMark_cases) (use failed(2) in auto)
    moreover have "r \<noteq> Acked \<and> r \<noteq> RoundBlocked" using failed(6,7) by (cases "r0 = Crash") auto
    ultimately show ?thesis using failed(3,5) o by simp
  qed
  then show "ordered (confirmed (dedup sv'))"
    and "highestConfirmed (dedup sv) c \<le> highestConfirmed (dedup sv') c"
    and "c \<noteq> ?c \<Longrightarrow> highestConfirmed (dedup sv') c = highestConfirmed (dedup sv) c"
    and "r = Acked \<or> r = RoundBlocked \<or> bs \<noteq> [] \<Longrightarrow> highestConfirmed (dedup sv') ?c = ?i"
    and "r = Acked \<or> r = RoundBlocked \<or> bs \<noteq> [] \<Longrightarrow> prefix bs (serializeAck (msgId (last ms)))"
    by blast+
qed

lemma handleGroup_printed:
  "handleGroup tcp ms sends sv w = (r, bs, sends', sv', w') \<Longrightarrow> printed sv' = printed sv @ fresh_messages (dedup sv) ms"
  by (auto simp: handleGroup_def Let_def processMessages_result fresh_messages_def
      split: outcome.splits netout.splits prod.splits)


section \<open>One connection\<close>

text \<open>What one client's messages look like in the output of a connection.\<close>

definition of_client :: "string \<Rightarrow> LogMessage list \<Rightarrow> LogMessage list" where
  "of_client c ms = filter (\<lambda>m. clientId m = c) ms"

definition once_above :: "DedupStore \<Rightarrow> LogMessage list \<Rightarrow> bool" where
  "once_above st new \<longleftrightarrow> (\<forall>c. sorted_wrt (<) (map msgId (of_client c new))
     \<and> (\<forall>m \<in> set (of_client c new). highestConfirmed st c < msgId m))"

definition all_below :: "DedupStore \<Rightarrow> LogMessage list \<Rightarrow> bool" where
  "all_below st new \<longleftrightarrow> (\<forall>m \<in> set new. msgId m \<le> highestConfirmed st (clientId m))"

lemma once_above_Nil [simp]: "once_above st []" "all_below st []"
  by (simp_all add: once_above_def all_below_def of_client_def)

lemma fresh_once_above:
  assumes "log_group ms"
  shows "once_above st (fresh_messages st ms)"
proof -
  have c: "clientId m = clientId (hd ms)" if "m \<in> set ms" for m using assms that unfolding log_group_def by blast
  have "sorted_wrt (\<lambda>x y. msgId x < msgId y) ms" using assms by (simp add: log_group_def sorted_wrt_map)
  then have "sorted_wrt (<) (map msgId (of_client d (fresh_messages st ms)))" for d
    by (simp add: sorted_wrt_map of_client_def fresh_messages_def sorted_wrt_filter)
  moreover have "highestConfirmed st d < msgId m" if "m \<in> set (of_client d (fresh_messages st ms))" for d m
    using that c [of m] by (auto simp: of_client_def fresh_messages_def)
  ultimately show ?thesis unfolding once_above_def by blast
qed

lemma once_above_append:
  assumes "once_above st xs" and "once_above st' ys" and "all_below st' xs"
    and "\<And>c. highestConfirmed st c \<le> highestConfirmed st' c"
  shows "once_above st (xs @ ys)"
  unfolding once_above_def
proof (intro allI conjI ballI)
  fix c
  have low: "msgId x \<le> highestConfirmed st' c" if "x \<in> set (of_client c xs)" for x
    using assms(3) that by (auto simp: all_below_def of_client_def)
  have high: "highestConfirmed st' c < msgId y" if "y \<in> set (of_client c ys)" for y
    using assms(2) that by (auto simp: once_above_def)
  have split: "of_client c (xs @ ys) = of_client c xs @ of_client c ys" by (simp add: of_client_def)
  have "msgId x < msgId y" if "x \<in> set (of_client c xs)" "y \<in> set (of_client c ys)" for x y
    using low [OF that(1)] high [OF that(2)] by (rule order.strict_trans1)
  then show "sorted_wrt (<) (map msgId (of_client c (xs @ ys)))"
    using assms(1,2) by (simp add: split sorted_wrt_append once_above_def)
  fix m assume "m \<in> set (of_client c (xs @ ys))"
  then show "highestConfirmed st c < msgId m"
    using assms(1) high assms(4) [of c] unfolding split once_above_def
    by (metis Un_iff order.strict_trans1 set_append)
qed

lemma serveConnection_result:
  assumes "serveConnection n tcp evs sends sv w = (e, bs, sv', w')" and "ordered (confirmed (dedup sv))"
  shows "\<exists>new. printed sv' = printed sv @ new \<and> once_above (dedup sv) new
    \<and> (e = Disconnected \<or> e = RunningCleared \<longrightarrow> all_below (dedup sv') new)
    \<and> ordered (confirmed (dedup sv')) \<and> (\<forall>c. highestConfirmed (dedup sv) c \<le> highestConfirmed (dedup sv') c)"
  using assms
proof (induction n arbitrary: evs sends sv w bs)
  case 0
  then show ?case by simp
next
  case (Suc n)
  obtain r evs1 where recv: "receiveLogBatch tcp evs = (r, evs1)" by (rule prod.exhaust)
  show ?case
  proof (cases "\<exists>ms. r = Returned (Some ms)")
    case False
    with Suc.prems recv show ?thesis
      by (intro exI [of _ "[]"]) (auto split: netout.splits option.splits)
  next
    case True
    then obtain ms where r: "r = Returned (Some ms)" ..
    have g: "log_group ms" using receiveLogBatch_group recv r by blast
    obtain rd bs1 sends1 sv1 w1 where h: "handleGroup tcp ms sends sv w = (rd, bs1, sends1, sv1, w1)"
      by (metis prod_cases5)
    note M = handleGroup_marks [OF h g Suc.prems(2)]
    note P = handleGroup_printed [OF h]
    note F = fresh_once_above [OF g, of "dedup sv"]
    show ?thesis
    proof (cases "rd = Acked")
      case False
      with Suc.prems(1) recv r h have "sv' = sv1" "e \<noteq> Disconnected" "e \<noteq> RunningCleared"
        by (auto split: round.splits)
      with P F M(1,2) show ?thesis by blast
    next
      case acked: True
      obtain bs2 where rest: "serveConnection n tcp evs1 sends1 sv1 w1 = (e, bs2, sv', w')"
        using Suc.prems(1) recv r h acked by (auto split: prod.splits)
      from Suc.IH [OF rest M(1)] obtain new where new: "printed sv' = printed sv1 @ new" "once_above (dedup sv1) new"
        "e = Disconnected \<or> e = RunningCleared \<longrightarrow> all_below (dedup sv') new" "ordered (confirmed (dedup sv'))"
        and up: "\<And>c. highestConfirmed (dedup sv1) c \<le> highestConfirmed (dedup sv') c" by blast
      have below: "all_below (dedup sv1) (fresh_messages (dedup sv) ms)"
      proof -
        have "clientId m = clientId (hd ms)" "msgId m \<le> msgId (last ms)" if "m \<in> set ms" for m
          using g that log_group_last(1) [OF g that] unfolding log_group_def by blast+
        then show ?thesis using M(4) acked
          by (auto simp: all_below_def fresh_messages_def le_max_iff_disj)
      qed
      then have "all_below (dedup sv') (fresh_messages (dedup sv) ms)"
        using up unfolding all_below_def by (meson order_trans)
      moreover have "once_above (dedup sv) (fresh_messages (dedup sv) ms @ new)"
        using once_above_append [OF F new(2) below M(2)] .
      ultimately show ?thesis
        using new P up M(2) by (intro exI [of _ "fresh_messages (dedup sv) ms @ new"])
          (auto simp: all_below_def intro: order_trans)
    qed
  qed
qed


section \<open>One exchange\<close>

lemma handleGroup_completes:
  assumes g: "log_group ms" and fd: "clientFd tcp \<ge> 0"
  shows "\<exists>k sends' sv' w'. handleGroup tcp ms (replicate (length (serializeAck (msgId (last ms)))) (Inl 1)) sv
    (w\<lparr>sched := replicate k (Ok 1)\<rparr>) = (Acked, serializeAck (msgId (last ms)), sends', sv', w')"
proof -
  let ?c = "clientId (hd ms)" and ?st = "dedup sv" and ?k = "msgId (last ms)"
  let ?i = "max (highestConfirmed ?st ?c) ?k"
  let ?sends = "replicate (length (serializeAck ?k)) (Inl (1::nat))"
  have "hd ms \<in> set ms" using g by (simp add: log_group_def)
  then have ne: "?c \<noteq> []" using g unfolding log_group_def valid_message_def by blast
  have k0: "?k \<noteq> 0" by (rule log_group_last(3) [OF g])
  have "\<exists>k st' w'. confirmMark ?c ?i ?st (w\<lparr>sched := replicate k (Ok 1)\<rparr>) = (Done ?i, st', w')"
  proof (cases "highestConfirmed ?st ?c < ?k")
    case True
    then show ?thesis using confirm_completes [OF ne, of ?st ?k w] by (fastforce simp: max_def)
  next
    case False
    then have "?i = highestConfirmed ?st ?c" "?i \<noteq> 0"
      using k0 by (auto simp: max_def word_gt_0 not_less)
    with ne show ?thesis by (intro exI) (auto simp: confirmMark_def Let_def highestConfirmed_def)
  qed
  then obtain k st' w' where c: "confirmMark ?c ?i ?st (w\<lparr>sched := replicate k (Ok 1)\<rparr>) = (Done ?i, st', w')" by blast
  obtain rs' where "sendAll ?sends (serializeAck ?k) 0 = (Returned (), serializeAck ?k, rs')"
    using sendAll_completes [of ?sends "serializeAck ?k" 0] by auto
  then have "sendAck tcp ?k ?sends = (Returned (), serializeAck ?k, rs')" using fd by (simp add: sendAck_def)
  with c show ?thesis
    by (intro exI [of _ k])
      (simp add: handleGroup_def Let_def processMessages_result log_group_latest [OF g])
qed

lemma confirmMark_throws:
  assumes "confirmMark c i st w = (Throw e, st', w')" and "c \<noteq> []" and "i \<noteq> 0"
  shows "\<exists>n msg. e = SystemError n msg"
proof -
  have "persistMarks st (put_mark c i (confirmed st)) w = (Throw e, w')"
    using assms by (auto simp: confirmMark_def Let_def split: if_splits outcome.splits prod.splits)
  then show ?thesis unfolding persistMarks_def by (rule writeAtomically_throws)
qed

lemma sendAck_throws:
  assumes "sendAck tcp k sends = (Failed e, bs, sends')"
  shows "e = LogicError ''no client has been accepted'' \<or> (\<exists>n msg. e = SystemError n msg)"
proof -
  have "\<exists>n msg. e = SystemError n msg" if "sendAll rs f i = (Failed e, bs, rs')" for rs f i rs'
    using that by (induction rs f i rule: sendAll.induct) (auto split: if_splits sum.splits)
  with assms show ?thesis by (auto simp: sendAck_def split: if_splits)
qed

lemma valid_batch_group: "valid_batch ms \<Longrightarrow> log_group ms"
  by (rule decodeLogFrame_group [of "batchFrame ms"]) (simp add: decodeLogFrame_iff serializeLogBatch_iff)


lemma serverLoop_result:
  assumes "serverLoop tcp cs sv w = (r, sv', w')" and "ordered (confirmed (dedup sv))"
  shows "\<exists>new. printed sv' = printed sv @ new
    \<and> (\<forall>m \<in> set new. highestConfirmed (dedup sv) (clientId m) < msgId m)"
  using assms
proof (induction tcp cs sv w rule: serverLoop.induct)
  case (4 tcp n evs sends cs sv w)
  let ?sv1 = "sv\<lparr>metrics := (metrics sv)\<lparr>mtConnections := mtConnections (metrics sv) + 1\<rparr>\<rparr>"
  obtain e bs sv1 w1 where c: "serveConnection n tcp evs sends ?sv1 w = (e, bs, sv1, w1)" by (metis prod_cases4)
  have o: "ordered (confirmed (dedup ?sv1))" using 4(5) by simp
  obtain new where new: "printed sv1 = printed sv @ new" "once_above (dedup sv) new" "ordered (confirmed (dedup sv1))"
    and up: "\<And>d. highestConfirmed (dedup sv) d \<le> highestConfirmed (dedup sv1) d"
    using serveConnection_result [OF c o] by auto
  have above: "highestConfirmed (dedup sv) (clientId m) < msgId m" if "m \<in> set new" for m
    using new(2) that unfolding once_above_def of_client_def by fastforce
  show ?case
  proof (cases "e = ProcessDied \<or> e = Blocked")
    case True
    with 4(4) c new(1) above show ?thesis by (auto simp: Let_def)
  next
    case False
    then have rest: "serverLoop tcp cs sv1 w1 = (r, sv', w')" using 4(4) c by (cases e) (auto simp: Let_def)
    have "\<exists>new'. printed sv' = printed sv1 @ new' \<and> (\<forall>m \<in> set new'. highestConfirmed (dedup sv1) (clientId m) < msgId m)"
      using 4(1-3) c rest new(3) False by (cases e) auto
    then obtain new' where "printed sv' = printed sv1 @ new'"
      "\<And>m. m \<in> set new' \<Longrightarrow> highestConfirmed (dedup sv1) (clientId m) < msgId m" by blast
    with new(1) above up show ?thesis
      by (intro exI [of _ "new @ new'"]) (auto intro: order.strict_trans1)
  qed
qed auto


lemma serverMain_ran:
  assumes "serverMain portArg pathArg signals made conns w = (code, Some sv, w')"
  shows "\<exists>tcp st w1 r. openDedupStore (case pathArg of None \<Rightarrow> ''.logbridge-server/dedup.state'' | Some p \<Rightarrow> p) w = (Done st, w1)
    \<and> serverLoop tcp conns \<lparr>dedup = st, metrics = noServerMetrics, printed = []\<rparr> w1 = (r, sv, w')"
proof -
  let ?path = "case pathArg of None \<Rightarrow> ''.logbridge-server/dedup.state'' | Some p \<Rightarrow> p"
  obtain port where port: "parseServerPort (case portArg of None \<Rightarrow> ''9000'' | Some t \<Rightarrow> t) = Inr port"
    using assms by (cases "parseServerPort (case portArg of None \<Rightarrow> ''9000'' | Some t \<Rightarrow> t)") (auto simp: serverMain_def)
  have sig: "signals = None" using assms port by (cases signals) (auto simp: serverMain_def)
  obtain tcp where tcp: "made port = Inr tcp" using assms port sig by (cases "made port") (auto simp: serverMain_def)
  obtain o1 w1 where o: "openDedupStore ?path w = (o1, w1)" by (rule prod.exhaust)
  obtain st where st: "o1 = Done st" using assms port sig tcp o by (cases o1) (auto simp: serverMain_def)
  obtain r sv2 w2 where l: "serverLoop tcp conns \<lparr>dedup = st, metrics = noServerMetrics, printed = []\<rparr> w1 = (r, sv2, w2)"
    by (metis prod_cases3)
  have "sv2 = sv" "w2 = w'"
    using assms port sig tcp o st l by (auto simp: serverMain_def split: option.splits netout.splits)
  with o st l show ?thesis by blast
qed

text \<open>A connection for the witnesses.\<close>

definition sample_tcp :: TcpServer where
  "sample_tcp = \<lparr>listenFd = 4, clientFd = 5, stopped = False, portNumber = 9000\<rparr>"

definition sample_server :: "watermarks \<Rightarrow> ServerRun" where
  "sample_server m = \<lparr>dedup = \<lparr>ddPath = ''d'', confirmed = m\<rparr>, metrics = noServerMetrics, printed = []\<rparr>"

lemma sample_tcp_accepted [simp]: "0 \<le> clientFd sample_tcp"
  by (simp add: sample_tcp_def)

lemma sample_message_client [simp]: "clientId (sample_message i) = ''a1''" "msgId (sample_message i) = i"
  by (simp_all add: sample_message_def)

lemma plain_a1 [simp]: "plain_id ''a1''"
  by (simp add: plain_id_def isSpace_def)

lemma sample_watermark: "ok_marks [(''a1'', 3)]"
  by (simp add: ok_marks_def)

lemma sample_batch: "valid_batch [sample_message 3, sample_message 4]"
  by (rule small_batch_valid) (simp_all add: one_client_def ids_increasing_def)

text \<open>Messages 3 and 4 arrive when 3 is the watermark.\<close>

lemma sample_round:
  obtains f evs' k sends' sv' w' where "serializeLogBatch [sample_message 3, sample_message 4] = Inr f"
    and "receiveLogBatch sample_tcp [Segment f] = (Returned (Some [sample_message 3, sample_message 4]), evs')"
    and "handleGroup sample_tcp [sample_message 3, sample_message 4] (replicate (length (serializeAck 4)) (Inl 1))
          (sample_server [(''a1'', 3)]) (sample_storage\<lparr>sched := replicate k (Ok 1)\<rparr>) = (Acked, serializeAck 4, sends', sv', w')"
proof -
  let ?ms = "[sample_message 3, sample_message 4]"
  obtain f where f: "serializeLogBatch ?ms = Inr f" using sample_batch by (simp add: serializeLogBatch_iff)
  then have "decodeLogFrame f = Inr ?ms" by (simp add: decodeLogFrame_iff)
  then obtain evs' where "receiveLogBatch sample_tcp [Segment f] = (Returned (Some ?ms), evs')"
    using receiveLogBatch_frame [of sample_tcp f ?ms "[Segment f]" "[]"] by auto
  moreover obtain k sends' sv' w' where "handleGroup sample_tcp ?ms (replicate (length (serializeAck 4)) (Inl 1))
      (sample_server [(''a1'', 3)]) (sample_storage\<lparr>sched := replicate k (Ok 1)\<rparr>) = (Acked, serializeAck 4, sends', sv', w')"
    using handleGroup_completes [OF valid_batch_group [OF sample_batch] sample_tcp_accepted,
        of "sample_server [(''a1'', 3)]" sample_storage] by auto
  ultimately show thesis using f that by blast
qed


text \<open>A run of the whole program: one client, both messages new, and then the server is stopped.\<close>

lemma sample_port: "parseServerPort ''9000'' = Inr 9000"
  by (simp add: parseServerPort_def stoull_def scanNumber_def isSpace_def isDigit_def digitsValue_def signedValue_def bindR_def)

lemma sample_server_opens:
  "openDedupStore ''d'' (sample_storage\<lparr>sched := rs\<rparr>) = (Done (dedup (sample_server [])), sample_storage\<lparr>sched := rs\<rparr>)"
  by (simp add: openDedupStore_def fileAt_def sample_storage_def doneW_def sample_server_def)

lemma sample_server_run:
  obtains f evs' k sends' sv w' where
      "receiveLogBatch sample_tcp [Segment f] = (Returned (Some [sample_message 3, sample_message 4]), evs')"
    and "handleGroup sample_tcp [sample_message 3, sample_message 4] (replicate (length (serializeAck 4)) (Inl 1))
          ((sample_server [])\<lparr>metrics := noServerMetrics\<lparr>mtConnections := 1\<rparr>\<rparr>) (sample_storage\<lparr>sched := replicate k (Ok 1)\<rparr>)
        = (Acked, serializeAck 4, sends', sv, w')"
    and "serverMain None (Some ''d'') None (\<lambda>port. Inr sample_tcp)
          [Inr (Client 1 [Segment f] (replicate (length (serializeAck 4)) (Inl 1))), Inr NoClient]
          (sample_storage\<lparr>sched := replicate k (Ok 1)\<rparr>) = (Some 0, Some sv, w')"
    and "printed sv = [sample_message 3, sample_message 4]"
proof -
  let ?ms = "[sample_message 3, sample_message 4]" and ?sv = "(sample_server [])\<lparr>metrics := noServerMetrics\<lparr>mtConnections := 1\<rparr>\<rparr>"
  obtain f evs' where rc: "receiveLogBatch sample_tcp [Segment f] = (Returned (Some ?ms), evs')"
    using sample_round by metis
  obtain k sends' sv w' where h: "handleGroup sample_tcp ?ms (replicate (length (serializeAck 4)) (Inl 1)) ?sv
      (sample_storage\<lparr>sched := replicate k (Ok 1)\<rparr>) = (Acked, serializeAck 4, sends', sv, w')"
    using handleGroup_completes [OF valid_batch_group [OF sample_batch] sample_tcp_accepted, of ?sv sample_storage] by auto
  have "printed sv = ?ms"
    using handleGroup_printed [OF h] by (simp add: fresh_messages_def highestConfirmed_def find_mark_def sample_server_def)
  with that [OF rc h] sample_port sample_server_opens rc h show thesis
    by (simp add: serverMain_def Let_def noServerMetrics_def sample_server_def)
qed


section \<open>Properties\<close>





text \<open>
  Property C15. Over a whole connection, whatever arrives and however it ends, the messages of a client
  are printed with strictly increasing ids above its watermark at the start, so none twice; when the
  connection ends in order, all of them are at or below the watermark at the end.
\<close>

theorem connection_prints_each_once:
  assumes "serveConnection n tcp evs sends sv w = (e, bs, sv', w')" and "ordered (confirmed (dedup sv))"
  shows "\<exists>new. printed sv' = printed sv @ new
    \<and> (\<forall>c. sorted_wrt (<) (map msgId (filter (\<lambda>m. clientId m = c) new)))
    \<and> (\<forall>m \<in> set new. highestConfirmed (dedup sv) (clientId m) < msgId m)
    \<and> (e = Disconnected \<or> e = RunningCleared \<longrightarrow> (\<forall>m \<in> set new. msgId m \<le> highestConfirmed (dedup sv') (clientId m)))"
proof -
  obtain new where new: "printed sv' = printed sv @ new" "once_above (dedup sv) new"
    "e = Disconnected \<or> e = RunningCleared \<longrightarrow> all_below (dedup sv') new"
    using serveConnection_result [OF assms] by blast
  have "highestConfirmed (dedup sv) (clientId m) < msgId m" if "m \<in> set new" for m
    using new(2) that unfolding once_above_def of_client_def by fastforce
  with new show ?thesis
    unfolding once_above_def all_below_def of_client_def by blast
qed

lemma connection_prints_each_once_witness:
  "\<exists>f n w bs sv' w'. serveConnection 2 sample_tcp [Segment f, PeerClosed] (replicate n (Inl 1)) (sample_server [(''a1'', 3)]) w
     = (Disconnected, bs, sv', w') \<and> (\<forall>m \<in> set (printed sv'). 3 < msgId m) \<and> printed sv' \<noteq> []"
proof -
  let ?ms = "[sample_message 3, sample_message 4]"
  obtain f evs0 k sends' sv' w' where f: "serializeLogBatch ?ms = Inr f"
    and h: "handleGroup sample_tcp ?ms (replicate (length (serializeAck 4)) (Inl 1))
          (sample_server [(''a1'', 3)]) (sample_storage\<lparr>sched := replicate k (Ok 1)\<rparr>) = (Acked, serializeAck 4, sends', sv', w')"
    by (rule sample_round)
  have "decodeLogFrame f = Inr ?ms" using f by (simp add: decodeLogFrame_iff)
  then obtain evs' where recv: "receiveLogBatch sample_tcp [Segment f, PeerClosed] = (Returned (Some ?ms), evs')"
    and rest: "bytes_of evs' = []" "ending_of evs' = Closed"
    using receiveLogBatch_frame [of sample_tcp f ?ms "[Segment f, PeerClosed]" "[]"] by auto
  have "fst (receiveFrame evs') = Returned None"
    using receiveFrame_stream(1) [of evs'] rest by (simp add: frame_of_def FrameHeaderSize_def)
  then have "receiveLogBatch sample_tcp evs' = (Returned None, snd (receiveFrame evs'))"
    by (cases "receiveFrame evs'") (simp add: receiveLogBatch_def not_less)
  then have run: "serveConnection 2 sample_tcp [Segment f, PeerClosed] (replicate (length (serializeAck 4)) (Inl 1))
      (sample_server [(''a1'', 3)]) (sample_storage\<lparr>sched := replicate k (Ok 1)\<rparr>) = (Disconnected, serializeAck 4, sv', w')"
    using recv h by (simp add: numeral_2_eq_2)
  have o: "ordered (confirmed (dedup (sample_server [(''a1'', 3)])))" by (simp add: sample_server_def)
  have marks: "highestConfirmed (dedup (sample_server [(''a1'', 3)])) c = (if c = ''a1'' then 3 else 0)" for c
    by (simp add: sample_server_def highestConfirmed_def find_mark_def)
  have p: "printed sv' = [sample_message 4]"
    using handleGroup_printed [OF h] by (simp add: fresh_messages_def marks) (simp add: sample_server_def)
  have "\<forall>m \<in> set (printed sv'). 3 < msgId m"
    using connection_prints_each_once [OF run o] p by (auto simp: marks sample_server_def)
  moreover have "printed sv' \<noteq> []" using p by simp
  ultimately show ?thesis using run by blast
qed

text \<open>
  A whole run of the server prints no message at or below the watermark that it found in
  its state file, over all its connections and whatever fails; and a run that cannot start (bad
  port, no signals, no socket, no readable state) ends with status 1 or dies, without printing.
\<close>

lemma restart_skips_confirmed:
  assumes "serverMain portArg pathArg signals made conns w = (code, run, w')"
    and "\<And>st w1. openDedupStore (case pathArg of None \<Rightarrow> ''.logbridge-server/dedup.state'' | Some p \<Rightarrow> p) w = (Done st, w1)
           \<Longrightarrow> ordered (confirmed st)"
  shows "(\<forall>sv. run = Some sv \<longrightarrow>
      (\<exists>st w1. openDedupStore (case pathArg of None \<Rightarrow> ''.logbridge-server/dedup.state'' | Some p \<Rightarrow> p) w = (Done st, w1)
         \<and> (\<forall>m \<in> set (printed sv). highestConfirmed st (clientId m) < msgId m)))
    \<and> (run = None \<longrightarrow> code = Some 1 \<or> code = None)"
proof -
  let ?path = "case pathArg of None \<Rightarrow> ''.logbridge-server/dedup.state'' | Some p \<Rightarrow> p"
  have "run = None \<longrightarrow> code = Some 1 \<or> code = None"
    using assms(1) by (auto simp: serverMain_def split: sum.splits outcome.splits prod.splits if_splits option.splits netout.splits)
  moreover have "\<exists>st w1. openDedupStore ?path w = (Done st, w1)
      \<and> (\<forall>m \<in> set (printed sv). highestConfirmed st (clientId m) < msgId m)" if sv: "run = Some sv" for sv
  proof -
    obtain tcp st w1 r where o: "openDedupStore ?path w = (Done st, w1)"
      and l: "serverLoop tcp conns \<lparr>dedup = st, metrics = noServerMetrics, printed = []\<rparr> w1 = (r, sv, w')"
      using serverMain_ran assms(1) sv by blast
    from serverLoop_result [OF l] assms(2) [OF o] o show ?thesis by auto
  qed
  ultimately show ?thesis by blast
qed

text \<open>
  Property C23. Client and server agree: a valid batch that \<^verbatim>\<open>sendLogBatchAndWaitAck\<close> sends is handled as
  that batch, for any cuts of the two byte streams, and when no call fails the server answers and the
  client returns the id of its last message.
\<close>

theorem batch_exchange_completes:
  assumes "serializeLogBatch ms = Inr f" and "clientFd tcp \<ge> 0" and "bytes_of requests = f @ later"
    and "bytes_of replies = serializeAck (msgId (last ms)) @ rest_replies"
  shows "\<exists>k sv' w' sends' requests' sends2 replies'.
      receiveLogBatch tcp requests = (Returned (Some ms), requests') \<and> bytes_of requests' = later
    \<and> handleGroup tcp ms (replicate (length (serializeAck (msgId (last ms)))) (Inl 1)) sv (w\<lparr>sched := replicate k (Ok 1)\<rparr>)
        = (Acked, serializeAck (msgId (last ms)), sends', sv', w')
    \<and> sendLogBatchAndWaitAck ms (replicate (length f) (Inl 1)) replies = (Returned (msgId (last ms)), f, sends2, replies')
    \<and> bytes_of replies' = rest_replies"
proof -
  have d: "decodeLogFrame f = Inr ms" using assms(1) by (simp add: decodeLogFrame_iff)
  have g: "log_group ms" using d by (rule decodeLogFrame_group)
  obtain requests' where "receiveLogBatch tcp requests = (Returned (Some ms), requests')" "bytes_of requests' = later"
    using receiveLogBatch_frame [OF assms(2) d assms(3)] by blast
  moreover obtain k sends' sv' w' where "handleGroup tcp ms (replicate (length (serializeAck (msgId (last ms)))) (Inl 1)) sv
      (w\<lparr>sched := replicate k (Ok 1)\<rparr>) = (Acked, serializeAck (msgId (last ms)), sends', sv', w')"
    using handleGroup_completes [OF g assms(2)] by metis
  moreover obtain sends2 replies' where "sendLogBatchAndWaitAck ms (replicate (length f) (Inl 1)) replies
      = (Returned (msgId (last ms)), f, sends2, replies')" "bytes_of replies' = rest_replies"
    using sendLogBatchAndWaitAck_completes [OF assms(1,4)] by blast
  ultimately show ?thesis by blast
qed

lemma batch_exchange_completes_witness:
  "\<exists>f sends2 replies'. sendLogBatchAndWaitAck [sample_message 3, sample_message 4] (replicate (length f) (Inl 1)) [Segment (serializeAck 4)]
     = (Returned 4, f, sends2, replies')
   \<and> (\<exists>requests'. receiveLogBatch sample_tcp [Segment f] = (Returned (Some [sample_message 3, sample_message 4]), requests'))"
proof -
  let ?ms = "[sample_message 3, sample_message 4]"
  obtain f where f: "serializeLogBatch ?ms = Inr f"
    using sample_batch by (simp add: serializeLogBatch_iff)
  have b: "bytes_of [Segment f] = f @ []" "bytes_of [Segment (serializeAck 4)] = serializeAck (msgId (last ?ms)) @ []"
    by simp_all
  obtain requests' sends2 replies' where "receiveLogBatch sample_tcp [Segment f] = (Returned (Some ?ms), requests')"
    "sendLogBatchAndWaitAck ?ms (replicate (length f) (Inl 1)) [Segment (serializeAck 4)] = (Returned (msgId (last ?ms)), f, sends2, replies')"
    using batch_exchange_completes [OF f sample_tcp_accepted b, where sv = "sample_server []" and w = sample_storage] by blast
  then show ?thesis by auto
qed

end
