(* ===== verification/ShutdownSignal.thy ===== *)
theory ShutdownSignal
  imports Prelude
begin

text \<open>
  \<^verbatim>\<open>src/src/ShutdownSignal.cpp\<close>: SIGINT and SIGTERM are blocked while the object lives and received
  synchronously. The results of the system calls are parameters; the signal mask of the thread is
  a set.
\<close>

section \<open>The code\<close>

datatype signal = SIGINT | SIGTERM | OtherSignal nat

record ShutdownSignal =
  signals :: "signal set"
  previousMask :: "signal set"

text \<open>
  \<open>prepared\<close> is the error of \<^verbatim>\<open>sigemptyset\<close> and the two \<^verbatim>\<open>sigaddset\<close> calls, \<open>blocked\<close> that of
  \<^verbatim>\<open>pthread_sigmask\<close>. The mask of the thread is returned with the result.
\<close>

definition newShutdownSignal ::
  "errno option \<Rightarrow> errno option \<Rightarrow> signal set \<Rightarrow> ShutdownSignal result \<times> signal set" where
  "newShutdownSignal prepared blocked sigs =
     (case prepared of
        Some e \<Rightarrow> (Inl (SystemError e ''cannot prepare shutdown signals''), sigs)
      | None \<Rightarrow>
          (let wanted = {SIGINT, SIGTERM}
           in case blocked of
                Some e \<Rightarrow> (Inl (SystemError e ''cannot block shutdown signals''), sigs)
              | None \<Rightarrow> (Inr \<lparr>signals = wanted, previousMask = sigs\<rparr>, sigs \<union> wanted)))"

definition deleteShutdownSignal :: "ShutdownSignal \<Rightarrow> signal set \<Rightarrow> signal set" where
  "deleteShutdownSignal s sigs = previousMask s"

record timespec =
  ts_sec :: int
  ts_nsec :: int

text \<open>\<^verbatim>\<open>duration_cast\<close> truncates towards zero; it is only reached for a time that is not negative.\<close>

definition timespecOf :: "int \<Rightarrow> timespec" where
  "timespecOf ms = (let s = ms div 1000 in \<lparr>ts_sec = s, ts_nsec = (ms - 1000 * s) * 1000000\<rparr>)"

text \<open>\<open>received\<close> is what \<^verbatim>\<open>sigtimedwait\<close> does when called with that time.\<close>

definition waitFor :: "int \<Rightarrow> (timespec \<Rightarrow> signal + errno) \<Rightarrow> bool result" where
  "waitFor ms received =
     (if ms < 0 then Inl (InvalidArgument ''signal wait timeout cannot be negative'')
      else case received (timespecOf ms) of
        Inl s \<Rightarrow> Inr (s = SIGINT \<or> s = SIGTERM)
      | Inr e \<Rightarrow> if e = EAGAIN \<or> e = EINTR then Inr False
               else Inl (SystemError e ''cannot wait for shutdown signal''))"


section \<open>Properties\<close>

text \<open>
  Waiting for a signal passes the exact time to the kernel, reports a shutdown for SIGINT and
  SIGTERM only, and takes a timeout or an interruption for no signal; the signals stay blocked from
  the constructor to the destructor, which restores the mask, and a constructor that throws leaves
  the mask alone.
\<close>

lemma shutdown_signal_exact:
  assumes "0 \<le> ms"
  shows "waitFor ms received = (case received (timespecOf ms) of
        Inl s \<Rightarrow> Inr (s \<in> {SIGINT, SIGTERM})
      | Inr e \<Rightarrow> if e \<in> {EAGAIN, EINTR} then Inr False else Inl (SystemError e ''cannot wait for shutdown signal''))
    \<and> ts_sec (timespecOf ms) * 1000000000 + ts_nsec (timespecOf ms) = ms * 1000000
    \<and> 0 \<le> ts_sec (timespecOf ms) \<and> 0 \<le> ts_nsec (timespecOf ms) \<and> ts_nsec (timespecOf ms) < 1000000000
    \<and> (case newShutdownSignal prepared blocked sigs of
         (Inl e, sigs') \<Rightarrow> sigs' = sigs
       | (Inr obj, sigs') \<Rightarrow> {SIGINT, SIGTERM} \<subseteq> sigs' \<and> deleteShutdownSignal obj sigs' = sigs)"
proof -
  define q where "q = ms div 1000"
  have q: "1000 * q \<le> ms" "ms < 1000 * q + 1000" "0 \<le> q" unfolding q_def using assms by linarith+
  have t: "timespecOf ms = \<lparr>ts_sec = q, ts_nsec = (ms - 1000 * q) * 1000000\<rparr>"
    by (simp add: timespecOf_def q_def Let_def)
  have "waitFor ms received = (case received (timespecOf ms) of
        Inl s \<Rightarrow> Inr (s \<in> {SIGINT, SIGTERM})
      | Inr e \<Rightarrow> if e \<in> {EAGAIN, EINTR} then Inr False else Inl (SystemError e ''cannot wait for shutdown signal''))"
    using assms by (auto simp: waitFor_def split: sum.splits)
  moreover have "case newShutdownSignal prepared blocked sigs of
         (Inl e, sigs') \<Rightarrow> sigs' = sigs
       | (Inr obj, sigs') \<Rightarrow> {SIGINT, SIGTERM} \<subseteq> sigs' \<and> deleteShutdownSignal obj sigs' = sigs"
    by (auto simp: newShutdownSignal_def deleteShutdownSignal_def Let_def split: option.splits)
  ultimately show ?thesis using q by (simp add: t)
qed

end
