(* ===== verification/ClientMain.thy ===== *)
theory ClientMain
  imports TcpClient WriteAheadLog ClientState BoundedQueue FileTailReader ShutdownSignal
begin

text \<open>
  \<^verbatim>\<open>src/src/main.cpp\<close>: the producer turns new lines into logged messages and moves the checkpoint; the
  consumer sends them in batches of ten, each until its acknowledgement, and then takes it out of
  the log. Each loop is a function of what its system calls meet; its texts on the terminal are
  in \<^verbatim>\<open>Backlog\<close>.
\<close>

section \<open>Constants and metrics\<close>

definition SendBatchSize :: nat where "SendBatchSize = 10"
definition InitialRetryDelay :: int where "InitialRetryDelay = 500"
definition MaxRetryDelay :: int where "MaxRetryDelay = 8000"

record ClientMetrics =
  mtRead :: u64
  mtWal :: u64
  mtConfirmed :: u64
  mtConfirmedBatches :: u64
  mtRetries :: u64

text \<open>\<^verbatim>\<open>std::stoul\<close> is \<^verbatim>\<open>std::stoull\<close> where \<^verbatim>\<open>unsigned long\<close> has 64 bits; the text of the exception is in English here.\<close>

definition parsePort :: "string \<Rightarrow> u16 result" where
  "parsePort text =
     bindR (stoull text) (\<lambda>(value, parsedLength).
       if parsedLength \<noteq> length text \<or> value = 0 \<or> value > 65535
       then Inl (InvalidArgument ''port must be between 1 and 65535'')
       else Inr (ucast value))"


section \<open>Waiting before a retry\<close>

text \<open>
  Times are nanoseconds of the steady clock. An observation is one turn of the loop: \<^verbatim>\<open>running\<close> and the
  time in its condition, and the time read for \<^verbatim>\<open>remaining\<close>. The result lists the times slept for;
  \<open>None\<close> means that the observations end inside the loop.
\<close>

definition maximumSlice :: int where "maximumSlice = 100 * 1000000"

fun waitLoop :: "int \<Rightarrow> (bool \<times> int \<times> int) list \<Rightarrow> int list option" where
  "waitLoop deadline [] = None"
| "waitLoop deadline ((running, now, later) # obs) =
     (if running \<and> now < deadline
      then map_option (\<lambda>sleeps. min (deadline - later) maximumSlice # sleeps) (waitLoop deadline obs)
      else Some [])"

text \<open>\<open>start\<close> is the time at entry, \<open>delay\<close> in milliseconds, \<open>final\<close> the last load of \<^verbatim>\<open>running\<close>.\<close>

definition waitForRetry :: "int \<Rightarrow> int \<Rightarrow> (bool \<times> int \<times> int) list \<Rightarrow> bool \<Rightarrow> (int list \<times> bool) option" where
  "waitForRetry start delay obs final =
     map_option (\<lambda>sleeps. (sleeps, final)) (waitLoop (start + delay * 1000000) obs)"


section \<open>Delivering one batch\<close>

text \<open>
  What one turn of the loop meets: \<^verbatim>\<open>running\<close>, the exception of connecting (looked at only when there
  is no connection), the results of \<^verbatim>\<open>send\<close> and \<^verbatim>\<open>recv\<close>, and the result of the wait after a failure.
\<close>

record attempt =
  atRunning :: bool
  atConnect :: "exn option"
  atSends :: "(nat + errno) list"
  atEvents :: "event list"
  atWaited :: bool

datatype delivery = Delivered | GivenUp | Undecided | Hanging | Crashed

record sender =
  connected :: bool
  senderWal :: WriteAheadLog
  senderMetrics :: ClientMetrics
  waits :: "int list"

text \<open>The body of the \<^verbatim>\<open>try\<close> block; \<open>Inl\<close> is the exception it leaves with.\<close>

definition tryDeliver ::
  "attempt \<Rightarrow> LogMessage list \<Rightarrow> sender \<Rightarrow> world \<Rightarrow> (exn + delivery) \<times> sender \<times> world" where
  "tryDeliver a batch s w =
     (if \<not> connected s \<and> atConnect a \<noteq> None then (Inl (the (atConnect a)), s, w)
      else
        (let s1 = s\<lparr>connected := True\<rparr>
         in case fst (sendLogBatchAndWaitAck batch (atSends a) (atEvents a)) of
              Failed e \<Rightarrow> (Inl e, s1, w)
            | Waiting \<Rightarrow> (Inr Hanging, s1, w)
            | Returned k \<Rightarrow>
                (case confirmLog k (senderWal s1) w of
                   (Throw e, wal', w') \<Rightarrow> (Inl e, s1\<lparr>senderWal := wal'\<rparr>, w')
                 | (Crash, wal', w') \<Rightarrow> (Inr Crashed, s1\<lparr>senderWal := wal'\<rparr>, w')
                 | (Done _, wal', w') \<Rightarrow>
                     (Inr Delivered, s1\<lparr>senderWal := wal', senderMetrics := (senderMetrics s1)
                        \<lparr>mtConfirmed := mtConfirmed (senderMetrics s1) + of_nat (length batch),
                         mtConfirmedBatches := mtConfirmedBatches (senderMetrics s1) + 1\<rparr>\<rparr>, w'))))"

fun deliverLoop ::
  "attempt list \<Rightarrow> int \<Rightarrow> LogMessage list \<Rightarrow> sender \<Rightarrow> world \<Rightarrow> delivery \<times> sender \<times> world \<times> attempt list" where
  "deliverLoop [] retryDelay batch s w = (Undecided, s, w, [])"
| "deliverLoop (a # as) retryDelay batch s w =
     (if \<not> atRunning a then (GivenUp, s, w, as)
      else case tryDeliver a batch s w of
        (Inr d, s', w') \<Rightarrow> (d, s', w', as)
      | (Inl e, s', w') \<Rightarrow>
          (let s'' = s'\<lparr>connected := False, waits := waits s' @ [retryDelay],
                 senderMetrics := (senderMetrics s')\<lparr>mtRetries := mtRetries (senderMetrics s') + 1\<rparr>\<rparr>
           in if \<not> atWaited a then (GivenUp, s'', w', as)
              else deliverLoop as (min (retryDelay * 2) MaxRetryDelay) batch s'' w'))"

definition deliverWithRetry ::
  "attempt list \<Rightarrow> LogMessage list \<Rightarrow> sender \<Rightarrow> world \<Rightarrow> delivery \<times> sender \<times> world \<times> attempt list" where
  "deliverWithRetry attempts batch s w = deliverLoop attempts InitialRetryDelay batch s w"

text \<open>\<^verbatim>\<open>sendMessages\<close>: consecutive parts of at most ten messages; true only when all were delivered.\<close>

function sendMessages ::
  "nat \<Rightarrow> attempt list \<Rightarrow> LogMessage list \<Rightarrow> sender \<Rightarrow> world \<Rightarrow> delivery \<times> sender \<times> world \<times> attempt list" where
  "sendMessages offset attempts messages s w =
     (if offset < length messages then
        (let count = min SendBatchSize (length messages - offset)
         in case deliverWithRetry attempts (take count (drop offset messages)) s w of
              (Delivered, s', w', attempts') \<Rightarrow> sendMessages (offset + count) attempts' messages s' w'
            | r \<Rightarrow> r)
      else (Delivered, s, w, attempts))"
  by pat_completeness auto
termination
  by (relation "measure (\<lambda>(offset, _, messages, _). length messages - offset)") (auto simp: SendBatchSize_def)

declare sendMessages.simps [simp del]

text \<open>
  The consumer: first the recovered messages, then what \<^verbatim>\<open>popBatch\<close> returns, with \<^verbatim>\<open>running\<close> before each
  call; an empty batch ends the loop. The flag of the result is the call of \<^verbatim>\<open>queue.close\<close>.
\<close>

fun consumerLoop ::
  "(bool \<times> LogMessage list) list \<Rightarrow> attempt list \<Rightarrow> sender \<Rightarrow> world \<Rightarrow> (delivery \<times> bool) \<times> sender \<times> world" where
  "consumerLoop [] attempts s w = ((Undecided, False), s, w)"
| "consumerLoop ((running, batch) # bs) attempts s w =
     (if \<not> running \<or> batch = [] then ((Delivered, False), s, w)
      else case sendMessages 0 attempts batch s w of
        (Delivered, s', w', attempts') \<Rightarrow> consumerLoop bs attempts' s' w'
      | (GivenUp, s', w', _) \<Rightarrow> ((GivenUp, True), s', w')
      | (d, s', w', _) \<Rightarrow> ((d, False), s', w'))"

definition consumer ::
  "LogMessage list \<Rightarrow> (bool \<times> LogMessage list) list \<Rightarrow> attempt list \<Rightarrow> sender \<Rightarrow> world \<Rightarrow> (delivery \<times> bool) \<times> sender \<times> world" where
  "consumer recovered batches attempts s w =
     (if recovered \<noteq> [] then
        (case sendMessages 0 attempts recovered s w of
           (Delivered, s', w', attempts') \<Rightarrow> consumerLoop batches attempts' s' w'
         | (GivenUp, s', w', _) \<Rightarrow> ((GivenUp, True), s', w')
         | (d, s', w', _) \<Rightarrow> ((d, False), s', w'))
      else consumerLoop batches attempts s w)"


section \<open>The producer\<close>

record producer =
  tailReader :: FileTailReader
  prState :: ClientState
  prWal :: WriteAheadLog
  prMetrics :: ClientMetrics

text \<open>The loop over the lines of one call, each with the time it is stamped with.\<close>

fun logLines :: "(string \<times> u64) list \<Rightarrow> producer \<Rightarrow> world \<Rightarrow> LogMessage list outcome \<times> producer \<times> world" where
  "logLines [] p w = (Done [], p, w)"
| "logLines ((line, now) # lines) p w =
     (case nextMessageId (prState p) w of
        (Throw e, st, w1) \<Rightarrow> (Throw e, p\<lparr>prState := st\<rparr>, w1)
      | (Crash, st, w1) \<Rightarrow> (Crash, p\<lparr>prState := st\<rparr>, w1)
      | (Done i, st, w1) \<Rightarrow>
          (let message = \<lparr>msgId = i, clientId = stClientId st, timestampMs = now,
                 source = rdPath (tailReader p), content = line\<rparr>
           in case appendLog message (prWal p) w1 of
                (Throw e, wal', w2) \<Rightarrow> (Throw e, p\<lparr>prState := st, prWal := wal'\<rparr>, w2)
              | (Crash, wal', w2) \<Rightarrow> (Crash, p\<lparr>prState := st, prWal := wal'\<rparr>, w2)
              | (Done _, wal', w2) \<Rightarrow>
                  (case logLines lines (p\<lparr>prState := st, prWal := wal',
                      prMetrics := (prMetrics p)\<lparr>mtWal := mtWal (prMetrics p) + 1\<rparr>\<rparr>) w2 of
                     (Done ms, p', w') \<Rightarrow> (Done (message # ms), p', w')
                   | (Throw e, p', w') \<Rightarrow> (Throw e, p', w')
                   | (Crash, p', w') \<Rightarrow> (Crash, p', w'))))"

text \<open>One turn of the loop up to the pushes: read, log, move the checkpoint.\<close>

definition producerRound ::
  "tail_env \<Rightarrow> (nat \<Rightarrow> u64) \<Rightarrow> producer \<Rightarrow> world \<Rightarrow> LogMessage list outcome \<times> producer \<times> world" where
  "producerRound env stamp p w =
     (case readNewLines env (tailReader p) of
        (Inl e, rd) \<Rightarrow> (Throw e, p\<lparr>tailReader := rd\<rparr>, w)
      | (Inr lines, rd) \<Rightarrow>
          (let p1 = p\<lparr>tailReader := rd, prMetrics := (prMetrics p)\<lparr>mtRead := mtRead (prMetrics p) + of_nat (length lines)\<rparr>\<rparr>
           in case logLines (zip lines (map stamp [0..<length lines])) p1 w of
                (Throw e, p2, w2) \<Rightarrow> (Throw e, p2, w2)
              | (Crash, p2, w2) \<Rightarrow> (Crash, p2, w2)
              | (Done ms, p2, w2) \<Rightarrow>
                  (case updateFileCheckpoint (of_nat (committedOffset rd)) (rdDeviceId rd) (rdInode rd) (prState p2) w2 of
                     (Throw e, st, w3) \<Rightarrow> (Throw e, p2\<lparr>prState := st\<rparr>, w3)
                   | (Crash, st, w3) \<Rightarrow> (Crash, p2\<lparr>prState := st\<rparr>, w3)
                   | (Done _, st, w3) \<Rightarrow> (Done ms, p2\<lparr>prState := st\<rparr>, w3))))"

text \<open>The pushes: the results of \<^verbatim>\<open>queue.push\<close>; \<open>None\<close> is a push that waits.\<close>

fun pushAll :: "LogMessage list \<Rightarrow> bool list \<Rightarrow> LogMessage list \<times> bool option" where
  "pushAll [] rs = ([], Some True)"
| "pushAll (m # ms) [] = ([], None)"
| "pushAll (m # ms) (r # rs) = (if r then (case pushAll ms rs of (qs, ok) \<Rightarrow> (m # qs, ok)) else ([], Some False))"

datatype produced = StoppedReading | ReadFailed exn | QueueGone | StillReading | ReaderCrashed

fun producerLoop ::
  "(bool \<times> tail_env \<times> (nat \<Rightarrow> u64) \<times> bool list) list \<Rightarrow> producer \<Rightarrow> world
     \<Rightarrow> produced \<times> LogMessage list \<times> producer \<times> world" where
  "producerLoop [] p w = (StillReading, [], p, w)"
| "producerLoop ((running, env, stamp, pushes) # rounds) p w =
     (if \<not> running then (StoppedReading, [], p, w)
      else case producerRound env stamp p w of
        (Throw e, p', w') \<Rightarrow> (ReadFailed e, [], p', w')
      | (Crash, p', w') \<Rightarrow> (ReaderCrashed, [], p', w')
      | (Done ms, p', w') \<Rightarrow>
          (case pushAll ms pushes of
             (qs, None) \<Rightarrow> (StillReading, qs, p', w')
           | (qs, Some False) \<Rightarrow> (QueueGone, qs, p', w')
           | (qs, Some True) \<Rightarrow>
               (case producerLoop rounds p' w' of (r, qs', p'', w'') \<Rightarrow> (r, qs @ qs', p'', w''))))"

text \<open>
  The producer thread: opening the file at the stored checkpoint, then the loop. The flags of the
  result are \<^verbatim>\<open>running.store(false)\<close> and \<^verbatim>\<open>queue.close()\<close>.
\<close>

definition producerThread ::
  "string \<Rightarrow> errno + (errno + filestat) \<Rightarrow> (bool \<times> tail_env \<times> (nat \<Rightarrow> u64) \<times> bool list) list
     \<Rightarrow> ClientState \<Rightarrow> WriteAheadLog \<Rightarrow> ClientMetrics \<Rightarrow> world
     \<Rightarrow> (produced \<times> bool \<times> bool) \<times> LogMessage list \<times> (ClientState \<times> WriteAheadLog \<times> ClientMetrics) \<times> world" where
  "producerThread logPath opened rounds st wal mt w =
     (case newFileTailReader logPath (stFileOffset st) (stFileDeviceId st) (stFileInode st) opened of
        Inl e \<Rightarrow> ((ReadFailed e, True, True), [], (st, wal, mt), w)
      | Inr rd \<Rightarrow>
          (case producerLoop rounds \<lparr>tailReader = rd, prState = st, prWal = wal, prMetrics = mt\<rparr> w of
             (r, qs, p, w') \<Rightarrow>
               ((r, (\<exists>e. r = ReadFailed e), r = StoppedReading \<or> (\<exists>e. r = ReadFailed e)), qs,
                (prState p, prWal p, prMetrics p), w')))"

text \<open>
  The start of \<^verbatim>\<open>main\<close>: the exit status, or the recovered messages with the opened log and state.
\<close>

definition startClient ::
  "string option \<Rightarrow> string option \<Rightarrow> string option \<Rightarrow> bool \<Rightarrow> (nat \<Rightarrow> u32) \<Rightarrow> world
     \<Rightarrow> (int + u16 \<times> LogMessage list \<times> WriteAheadLog \<times> ClientState) option \<times> world" where
  "startClient logArg portArg dirArg logExists random w =
     (let logPath = (case logArg of None \<Rightarrow> ''app.log'' | Some p \<Rightarrow> p);
          dataDirectory = (case dirArg of None \<Rightarrow> ''.logbridge-data'' | Some p \<Rightarrow> p)
      in case parsePort (case portArg of None \<Rightarrow> ''9000'' | Some t \<Rightarrow> t) of
           Inl e \<Rightarrow> (Some (Inl 1), w)
         | Inr port \<Rightarrow>
             if \<not> logExists then (Some (Inl 1), w)
             else case openLog (dataDirectory @ ''/pending.wal'') w of
               (Throw e, w1) \<Rightarrow> (Some (Inl 1), w1)
             | (Crash, w1) \<Rightarrow> (None, w1)
             | (Done wal, w1) \<Rightarrow>
                 (case openClientState random (dataDirectory @ ''/client.state'') logPath (pendingMsgs wal) w1 of
                    (Throw e, w2) \<Rightarrow> (Some (Inl 1), w2)
                  | (Crash, w2) \<Rightarrow> (None, w2)
                  | (Done st, w2) \<Rightarrow> (Some (Inr (port, pendingMsgs wal, wal, st)), w2)))"

text \<open>
  The end of \<^verbatim>\<open>main\<close>: the loop that waits for a signal, with \<^verbatim>\<open>running\<close> and the result of \<^verbatim>\<open>waitFor\<close> for
  each turn, then the joins and the exit. An exception of \<^verbatim>\<open>waitFor\<close> unwinds past three threads that
  are still joinable, whose destructors call \<^verbatim>\<open>std::terminate\<close>.
\<close>

fun awaitShutdown :: "(bool \<times> (exn + bool)) list \<Rightarrow> unit result option" where
  "awaitShutdown [] = None"
| "awaitShutdown ((running, waited) # rs) =
     (if \<not> running then Some (Inr ())
      else case waited of
        Inl e \<Rightarrow> Some (Inl e)
      | Inr True \<Rightarrow> Some (Inr ())
      | Inr False \<Rightarrow> awaitShutdown rs)"

datatype client_exit = Exits int | Terminates

definition finishClient :: "(bool \<times> (exn + bool)) list \<Rightarrow> client_exit option" where
  "finishClient rs = map_option (\<lambda>r. case r of Inl e \<Rightarrow> Terminates | Inr _ \<Rightarrow> Exits 0) (awaitShutdown rs)"

text \<open>The client exits with status 0 once it was told to, and is aborted by a failing \<^verbatim>\<open>waitFor\<close>.\<close>

lemma finishClient_ends:
  assumes "\<forall>x \<in> set idle. x = (True, Inr False)"
  shows "finishClient (idle @ (running, waited) # rs) =
    (if \<not> running \<or> waited = Inr True then Some (Exits 0)
     else case waited of Inl e \<Rightarrow> Some Terminates | Inr _ \<Rightarrow> finishClient rs)"
  using assms by (induction idle) (auto simp: finishClient_def split: sum.splits bool.splits)


section \<open>Delivery\<close>

definition ids_after :: "u64 \<Rightarrow> WriteAheadLog \<Rightarrow> WriteAheadLog" where
  "ids_after k wl = wl\<lparr>pendingMsgs := filter (\<lambda>m. \<not> msgId m \<le> k) (pendingMsgs wl)\<rparr>"

lemma filter_same_length: "length (filter P xs) = length xs \<Longrightarrow> filter P xs = xs"
  using length_filter_less [of _ xs P] by (metis filter_True less_irrefl)

lemma confirmLog_memory: "confirmLog k wl w = (r, wl', w') \<Longrightarrow> wl' = ids_after k wl"
  using filter_same_length [of "\<lambda>m. \<not> msgId m \<le> k" "pendingMsgs wl"]
  by (auto simp: confirmLog_def ids_after_def Let_def split: if_splits prod.splits)

text \<open>One turn: what it does to the log needs an acknowledgement of the batch.\<close>

definition acknowledged :: "attempt \<Rightarrow> LogMessage list \<Rightarrow> bool" where
  "acknowledged a batch \<longleftrightarrow> (\<exists>out sends' evs'.
     sendLogBatchAndWaitAck batch (atSends a) (atEvents a) = (Returned (msgId (last batch)), out, sends', evs'))"

lemma tryDeliver_result:
  assumes "tryDeliver a batch s w = (r, s', w')"
  shows "waits s' = waits s" and "mtRetries (senderMetrics s') = mtRetries (senderMetrics s)"
    and "senderWal s' = senderWal s \<or> acknowledged a batch \<and> senderWal s' = ids_after (msgId (last batch)) (senderWal s)"
    and "r = Inr Delivered \<Longrightarrow> acknowledged a batch \<and> senderWal s' = ids_after (msgId (last batch)) (senderWal s)"
    and "r \<noteq> Inr GivenUp \<and> r \<noteq> Inr Undecided"
proof -
  obtain x out sends' evs' where e: "sendLogBatchAndWaitAck batch (atSends a) (atEvents a) = (x, out, sends', evs')"
    by (metis prod_cases4)
  have k: "k = msgId (last batch)" if "x = Returned k" for k
    using sendLogBatchAndWaitAck_returned e that by blast
  have "waits s' = waits s \<and> mtRetries (senderMetrics s') = mtRetries (senderMetrics s)
    \<and> (senderWal s' = senderWal s \<or> acknowledged a batch \<and> senderWal s' = ids_after (msgId (last batch)) (senderWal s))
    \<and> (r = Inr Delivered \<longrightarrow> acknowledged a batch \<and> senderWal s' = ids_after (msgId (last batch)) (senderWal s))
    \<and> r \<noteq> Inr GivenUp \<and> r \<noteq> Inr Undecided"
  proof (cases "\<not> connected s \<and> atConnect a \<noteq> None")
    case True
    with assms show ?thesis by (auto simp: tryDeliver_def)
  next
    case False
    show ?thesis
    proof (cases x)
      case (Returned k)
      obtain rc wl wc where c: "confirmLog k (senderWal s) w = (rc, wl, wc)" by (metis prod_cases3)
      have "acknowledged a batch" using e Returned k unfolding acknowledged_def by blast
      with assms False e Returned c confirmLog_memory [OF c] k [OF Returned] show ?thesis
        by (cases rc) (auto simp: tryDeliver_def Let_def)
    qed (use assms False e in \<open>auto simp: tryDeliver_def Let_def\<close>)
  qed
  then show "waits s' = waits s" and "mtRetries (senderMetrics s') = mtRetries (senderMetrics s)"
    and "senderWal s' = senderWal s \<or> acknowledged a batch \<and> senderWal s' = ids_after (msgId (last batch)) (senderWal s)"
    and "r = Inr Delivered \<Longrightarrow> acknowledged a batch \<and> senderWal s' = ids_after (msgId (last batch)) (senderWal s)"
    and "r \<noteq> Inr GivenUp \<and> r \<noteq> Inr Undecided"
    by blast+
qed

text \<open>The delays: doubled after every failure, up to the maximum.\<close>

fun delays :: "int \<Rightarrow> nat \<Rightarrow> int list" where
  "delays d 0 = []"
| "delays d (Suc n) = d # delays (min (d * 2) MaxRetryDelay) n"

lemma deliverLoop_result:
  assumes "deliverLoop attempts d batch s w = (r, s', w', as')"
  shows "\<exists>used. attempts = used @ as'
    \<and> (\<exists>n \<le> length used. waits s' = waits s @ delays d n \<and> mtRetries (senderMetrics s') = mtRetries (senderMetrics s) + of_nat n
         \<and> (r = Delivered \<longrightarrow> n < length used))
    \<and> (senderWal s' = senderWal s \<or> (\<exists>a \<in> set used. acknowledged a batch) \<and> senderWal s' = ids_after (msgId (last batch)) (senderWal s))
    \<and> (r = Delivered \<longrightarrow> (\<exists>a \<in> set used. acknowledged a batch) \<and> senderWal s' = ids_after (msgId (last batch)) (senderWal s))"
  using assms
proof (induction attempts d batch s w rule: deliverLoop.induct)
  case (1 d batch s w)
  then show ?case by (intro exI [of _ "[]"]) auto
next
  case (2 a as d batch s w)
  show ?case
  proof (cases "atRunning a")
    case False
    with 2(2) show ?thesis by (intro exI [of _ "[a]"]) (auto intro!: exI [of _ 0])
  next
    case True
    obtain x s1 w1 where t: "tryDeliver a batch s w = (x, s1, w1)" by (metis prod_cases3)
    note T = tryDeliver_result [OF t]
    let ?s2 = "s1\<lparr>connected := False, waits := waits s1 @ [d],
      senderMetrics := (senderMetrics s1)\<lparr>mtRetries := mtRetries (senderMetrics s1) + 1\<rparr>\<rparr>"
    show ?thesis
    proof (cases x)
      case (Inr y)
      with 2(2) True t T show ?thesis by (intro exI [of _ "[a]"]) (auto intro!: exI [of _ 0])
    next
      case (Inl e)
      show ?thesis
      proof (cases "atWaited a")
        case False
        with 2(2) True t T Inl show ?thesis
          by (intro exI [of _ "[a]"]) (auto simp: Let_def intro!: exI [of _ "Suc 0"])
      next
        case waited: True
        then have l: "deliverLoop as (min (d * 2) MaxRetryDelay) batch ?s2 w1 = (r, s', w', as')"
          using 2(2) True t Inl by (simp add: Let_def)
        obtain used n where u: "as = used @ as'" "n \<le> length used" "waits s' = waits ?s2 @ delays (min (d * 2) MaxRetryDelay) n"
          "mtRetries (senderMetrics s') = mtRetries (senderMetrics ?s2) + of_nat n" "r = Delivered \<longrightarrow> n < length used"
          and wl: "senderWal s' = senderWal ?s2 \<or> (\<exists>a \<in> set used. acknowledged a batch) \<and> senderWal s' = ids_after (msgId (last batch)) (senderWal ?s2)"
          "r = Delivered \<longrightarrow> (\<exists>a \<in> set used. acknowledged a batch) \<and> senderWal s' = ids_after (msgId (last batch)) (senderWal ?s2)"
          using 2(1) [OF _ t [symmetric] Inl HOL.refl HOL.refl _ l] True waited by blast
        have twice: "ids_after k (ids_after k wl) = ids_after k wl" for k wl
          by (simp add: ids_after_def)
        show ?thesis
        proof (intro exI [of _ "a # used"] conjI)
          show "a # as = (a # used) @ as'" using u(1) by simp
          show "\<exists>n \<le> length (a # used). waits s' = waits s @ delays d n
              \<and> mtRetries (senderMetrics s') = mtRetries (senderMetrics s) + of_nat n \<and> (r = Delivered \<longrightarrow> n < length (a # used))"
            using u(2-5) T(1,2) by (intro exI [of _ "Suc n"]) (simp add: algebra_simps)
          show "senderWal s' = senderWal s \<or> (\<exists>a \<in> set (a # used). acknowledged a batch) \<and> senderWal s' = ids_after (msgId (last batch)) (senderWal s)"
            using wl(1) T(3) twice by auto
          show "r = Delivered \<longrightarrow> (\<exists>a \<in> set (a # used). acknowledged a batch) \<and> senderWal s' = ids_after (msgId (last batch)) (senderWal s)"
            using wl(2) T(3) twice by auto
        qed
      qed
    qed
  qed
qed

lemma delays_schedule: "delays d n = map (\<lambda>i. min (d * 2 ^ i) MaxRetryDelay) [0..<n]" if "d \<le> MaxRetryDelay" "0 < d"
  using that
proof (induction n arbitrary: d)
  case (Suc n)
  let ?d = "min (d * 2) MaxRetryDelay"
  have d: "?d \<le> MaxRetryDelay" "0 < ?d" using Suc.prems by (auto simp: MaxRetryDelay_def)
  have step: "min (?d * 2 ^ i) MaxRetryDelay = min (d * 2 ^ Suc i) MaxRetryDelay" for i
  proof (cases "d * 2 \<le> MaxRetryDelay")
    case False
    have "(1::int) \<le> 2 ^ i" by simp
    then have "MaxRetryDelay \<le> MaxRetryDelay * 2 ^ i" "d * 2 \<le> d * 2 * 2 ^ i"
      using Suc.prems by (simp_all add: MaxRetryDelay_def)
    with False show ?thesis by (simp add: min_def)
  qed simp
  have "map (\<lambda>i. min (d * 2 ^ i) MaxRetryDelay) [0..<Suc n]
      = min d MaxRetryDelay # map (\<lambda>i. min (d * 2 ^ Suc i) MaxRetryDelay) [0..<n]"
    by (simp only: upt_conv_Cons [OF zero_less_Suc] list.map map_Suc_upt [symmetric] map_map o_def) simp
  also have "\<dots> = d # delays ?d n"
    using Suc.IH [OF d] Suc.prems(1) by (simp add: step del: power_Suc)
  finally show ?case by simp
qed simp


section \<open>Waiting ends\<close>

text \<open>
  A steady clock never goes back, and \<^verbatim>\<open>sleep_for\<close> sleeps at least as long as it is asked to.
\<close>

fun steady :: "int \<Rightarrow> int \<Rightarrow> (bool \<times> int \<times> int) list \<Rightarrow> bool" where
  "steady deadline t [] = True"
| "steady deadline t ((running, now, later) # obs) \<longleftrightarrow>
     t \<le> now \<and> now \<le> later \<and> steady deadline (later + max 0 (min (deadline - later) maximumSlice)) obs"

lemma waitLoop_ends:
  assumes "steady deadline t obs" and "deadline - t \<le> int n * maximumSlice" and "n < length obs"
  shows "\<exists>sleeps. waitLoop deadline obs = Some sleeps \<and> length sleeps \<le> n"
  using assms
proof (induction n arbitrary: t obs)
  case 0
  then obtain r now later obs' where o: "obs = (r, now, later) # obs'" by (cases obs) auto
  with 0 show ?case by simp
next
  case (Suc n)
  then obtain r now later obs' where o: "obs = (r, now, later) # obs'" by (cases obs) auto
  let ?t = "later + max 0 (min (deadline - later) maximumSlice)"
  have "deadline - ?t \<le> int n * maximumSlice"
  proof (cases "deadline - later \<le> maximumSlice")
    case True
    then have "deadline \<le> ?t" by (simp add: max_def min_def)
    moreover have "0 \<le> int n * maximumSlice" by (simp add: maximumSlice_def)
    ultimately show ?thesis by linarith
  next
    case False
    then have "?t = later + maximumSlice" by (simp add: max_def min_def maximumSlice_def)
    moreover have "t \<le> later" using Suc.prems(1) o by simp
    ultimately show ?thesis using Suc.prems(2) by (simp add: algebra_simps)
  qed
  moreover have "steady deadline ?t obs'" "n < length obs'" using Suc.prems o by simp_all
  ultimately obtain sleeps where "waitLoop deadline obs' = Some sleeps" "length sleeps \<le> n"
    using Suc.IH by blast
  with o show ?case by simp
qed

lemma waitLoop_sleeps:
  assumes "waitLoop deadline obs = Some sleeps"
  shows "\<forall>d \<in> set sleeps. d \<le> maximumSlice" and "k < length obs \<Longrightarrow> \<not> fst (obs ! k) \<Longrightarrow> length sleeps \<le> k"
proof -
  have "(\<forall>d \<in> set sleeps. d \<le> maximumSlice) \<and> (\<forall>k < length obs. \<not> fst (obs ! k) \<longrightarrow> length sleeps \<le> k)"
    using assms
  proof (induction deadline obs arbitrary: sleeps rule: waitLoop.induct)
    case (2 deadline running now later obs)
    show ?case
    proof (cases "running \<and> now < deadline")
      case True
      then obtain sl where sl: "waitLoop deadline obs = Some sl" "sleeps = min (deadline - later) maximumSlice # sl"
        using 2(2) by auto
      have "length sleeps \<le> k" if "k < length ((running, now, later) # obs)" "\<not> fst (((running, now, later) # obs) ! k)" for k
        using that 2(1) [OF True sl(1)] True sl(2) by (cases k) auto
      with 2(1) [OF True sl(1)] sl(2) show ?thesis by auto
    next
      case False
      then have "sleeps = []" using 2(2) by (auto split: if_splits)
      then show ?thesis by simp
    qed
  qed simp
  then show "\<forall>d \<in> set sleeps. d \<le> maximumSlice" and "k < length obs \<Longrightarrow> \<not> fst (obs ! k) \<Longrightarrow> length sleeps \<le> k"
    by blast+
qed


section \<open>Batches\<close>

lemma part_of_log_valid:
  assumes "valid_log c messages" and "offset < length messages"
  shows "valid_batch (take (min SendBatchSize (length messages - offset)) (drop offset messages))"
proof -
  let ?b = "take (min SendBatchSize (length messages - offset)) (drop offset messages)"
  have sub: "set ?b \<subseteq> set messages" by (meson in_set_dropD in_set_takeD subsetI)
  have s: "sorted_wrt (<) (map msgId ?b)"
    using assms(1) unfolding valid_log_def
    by (simp add: sorted_wrt_take sorted_wrt_drop del: take_map drop_map flip: take_map drop_map)
  have ne: "?b \<noteq> []" using assms(2) by (simp add: SendBatchSize_def)
  have c: "clientId m = c" if "m \<in> set ?b" for m using assms(1) sub that by (auto simp: valid_log_def)
  show ?thesis
  proof (rule small_batch_valid)
    show "?b \<noteq> []" by (rule ne)
    show "length ?b \<le> 15" by (simp add: SendBatchSize_def)
    show "\<forall>m \<in> set ?b. valid_message m" using assms(1) sub by (auto simp: valid_log_def)
    show "one_client ?b" using c hd_in_set [OF ne] unfolding one_client_def by metis
    show "ids_increasing ?b" using s by (simp add: ids_increasing_def)
  qed
qed

lemma sendMessages_result:
  assumes "sendMessages offset attempts messages s w = (d, s', w', as')" and "valid_log c messages"
  shows "set (pendingMsgs (senderWal s')) \<subseteq> set (pendingMsgs (senderWal s))"
    and "d = Delivered \<Longrightarrow> offset < length messages \<Longrightarrow> m \<in> set (pendingMsgs (senderWal s')) \<Longrightarrow> msgId (last messages) < msgId m"
proof -
  have "set (pendingMsgs (senderWal s')) \<subseteq> set (pendingMsgs (senderWal s)) \<and>
    (d = Delivered \<longrightarrow> offset < length messages \<longrightarrow> (\<forall>m \<in> set (pendingMsgs (senderWal s')). msgId (last messages) < msgId m))"
    using assms(1)
  proof (induction offset attempts messages s w rule: sendMessages.induct)
    case (1 offset attempts messages s w)
    show ?case
    proof (cases "offset < length messages")
      case False
      then have "s' = s" using 1(2) by (subst (asm) sendMessages.simps) simp
      with False show ?thesis by simp
    next
      case True
      let ?count = "min SendBatchSize (length messages - offset)"
      let ?batch = "take ?count (drop offset messages)"
      obtain r s1 w1 as1 where b: "deliverWithRetry attempts ?batch s w = (r, s1, w1, as1)" by (metis prod_cases4)
      have D: "set (pendingMsgs (senderWal s1)) \<subseteq> set (pendingMsgs (senderWal s))"
        "r = Delivered \<Longrightarrow> senderWal s1 = ids_after (msgId (last ?batch)) (senderWal s)"
        using deliverLoop_result [OF b [unfolded deliverWithRetry_def]] by (auto simp: ids_after_def)
      show ?thesis
      proof (cases "r = Delivered")
        case False
        then have "(r, s1, w1, as1) = (d, s', w', as')"
          using 1(2) True b by (subst (asm) sendMessages.simps) (cases r; simp add: Let_def)
        with D(1) False show ?thesis by auto
      next
        case delivered: True
        then have nxt: "sendMessages (offset + ?count) as1 messages s1 w1 = (d, s', w', as')"
          using 1(2) True b by (subst (asm) sendMessages.simps) (simp add: Let_def)
        have IH: "set (pendingMsgs (senderWal s')) \<subseteq> set (pendingMsgs (senderWal s1)) \<and>
          (d = Delivered \<longrightarrow> offset + ?count < length messages \<longrightarrow> (\<forall>m \<in> set (pendingMsgs (senderWal s')). msgId (last messages) < msgId m))"
          using 1(1) [OF True HOL.refl b [symmetric] delivered HOL.refl HOL.refl nxt] by blast
        moreover have "msgId (last messages) < msgId m" if "offset + ?count \<ge> length messages" "m \<in> set (pendingMsgs (senderWal s'))" for m
        proof -
          have "?batch = drop offset messages" using that(1) by simp
          then have "last ?batch = last messages" using True by simp
          then show ?thesis using that(2) IH D(2) [OF delivered] by (auto simp: ids_after_def not_le)
        qed
        ultimately show ?thesis using D(1) by (meson not_le order_trans)
      qed
    qed
  qed
  then show "set (pendingMsgs (senderWal s')) \<subseteq> set (pendingMsgs (senderWal s))"
    and "d = Delivered \<Longrightarrow> offset < length messages \<Longrightarrow> m \<in> set (pendingMsgs (senderWal s')) \<Longrightarrow> msgId (last messages) < msgId m"
    by blast+
qed

end
