(* ===== verification/ClientBehaviour.thy ===== *)
theory ClientBehaviour
  imports ClientMain
begin

text \<open>
  What the loops of \<^verbatim>\<open>src/src/main.cpp\<close> guarantee: logging comes before the checkpoint, a batch counts
  as delivered only after its acknowledgement, only acknowledged messages leave the log, retries
  are spaced as intended, and waiting ends.
\<close>

section \<open>Logging lines\<close>

lemma appendLog_memory:
  assumes "appendLog m wl w = (r, wl', w')"
  shows "wl' = (if r = Done () then wl\<lparr>pendingMsgs := pendingMsgs wl @ [m]\<rparr> else wl)"
  using assms by (auto simp: appendLog_def split: sum.splits outcome.splits prod.splits)

lemma logLines_result:
  assumes "logLines lines p w = (r, p', w')"
  shows "\<exists>new. pendingMsgs (prWal p') = pendingMsgs (prWal p) @ new \<and> walPath (prWal p') = walPath (prWal p)
      \<and> length new \<le> length lines
      \<and> map content new = map fst (take (length new) lines) \<and> map timestampMs new = map snd (take (length new) lines)
      \<and> (\<forall>m \<in> set new. clientId m = stClientId (prState p) \<and> source m = rdPath (tailReader p))
      \<and> (\<forall>k < length new. unat (msgId (new ! k)) = unat (stNextId (prState p)) + k)
      \<and> (\<forall>ms. r = Done ms \<longrightarrow> new = ms \<and> length ms = length lines)"
    and "tailReader p' = tailReader p"
    and "r \<noteq> Crash \<Longrightarrow> stFileOffset (prState p') = stFileOffset (prState p)
      \<and> stFileDeviceId (prState p') = stFileDeviceId (prState p) \<and> stFileInode (prState p') = stFileInode (prState p)
      \<and> stClientId (prState p') = stClientId (prState p)"
proof -
  have "(\<exists>new. pendingMsgs (prWal p') = pendingMsgs (prWal p) @ new \<and> walPath (prWal p') = walPath (prWal p)
      \<and> length new \<le> length lines
      \<and> map content new = map fst (take (length new) lines) \<and> map timestampMs new = map snd (take (length new) lines)
      \<and> (\<forall>m \<in> set new. clientId m = stClientId (prState p) \<and> source m = rdPath (tailReader p))
      \<and> (\<forall>k < length new. unat (msgId (new ! k)) = unat (stNextId (prState p)) + k)
      \<and> (\<forall>ms. r = Done ms \<longrightarrow> new = ms \<and> length ms = length lines))
    \<and> tailReader p' = tailReader p
    \<and> (r \<noteq> Crash \<longrightarrow> stFileOffset (prState p') = stFileOffset (prState p)
      \<and> stFileDeviceId (prState p') = stFileDeviceId (prState p) \<and> stFileInode (prState p') = stFileInode (prState p)
      \<and> stClientId (prState p') = stClientId (prState p))"
    using assms
  proof (induction lines p w arbitrary: r p' w' rule: logLines.induct)
    case (1 p w)
    then show ?case by (intro conjI exI [of _ "[]"]) auto
  next
    case (2 line now lines p w)
    obtain ri st w1 where n: "nextMessageId (prState p) w = (ri, st, w1)" by (metis prod_cases3)
    show ?case
    proof (cases "\<exists>i. ri = Done i")
      case False
      have "ri \<noteq> Crash \<longrightarrow> st = prState p" using n False by (auto elim!: nextMessageId_cases)
      with 2(2) n False show ?thesis
        by (cases ri) (auto intro!: exI [of _ "[]"])
    next
      case True
      then obtain i where ri: "ri = Done i" ..
      have i: "stNextId (prState p) \<noteq> - 1" "i = stNextId (prState p)" "st = (prState p)\<lparr>stNextId := stNextId (prState p) + 1\<rparr>"
        using n ri by (auto elim: nextMessageId_cases)
      let ?m = "\<lparr>msgId = i, clientId = stClientId st, timestampMs = now, source = rdPath (tailReader p), content = line\<rparr>"
      obtain ra wl w2 where a: "appendLog ?m (prWal p) w1 = (ra, wl, w2)" by (metis prod_cases3)
      note A = appendLog_memory [OF a]
      show ?thesis
      proof (cases "ra = Done ()")
        case False
        with A 2(2) n ri a show ?thesis
          by (cases ra) (auto simp: Let_def i(3) intro!: exI [of _ "[]"])
      next
        case appended: True
        let ?p = "p\<lparr>prState := st, prWal := wl, prMetrics := (prMetrics p)\<lparr>mtWal := mtWal (prMetrics p) + 1\<rparr>\<rparr>"
        obtain rl p2 w3 where l: "logLines lines ?p w2 = (rl, p2, w3)" by (metis prod_cases3)
        have res: "p' = p2" "r = (case rl of Done ms \<Rightarrow> Done (?m # ms) | Throw e \<Rightarrow> Throw e | Crash \<Rightarrow> Crash)"
          using 2(2) n ri a appended l by (auto simp: Let_def split: outcome.splits)
        from 2(1) [OF n [symmetric] ri HOL.refl HOL.refl a [symmetric] appended HOL.refl l]
        obtain new where new: "pendingMsgs (prWal p2) = pendingMsgs wl @ new" "walPath (prWal p2) = walPath wl"
          "length new \<le> length lines" "map content new = map fst (take (length new) lines)"
          "map timestampMs new = map snd (take (length new) lines)"
          "\<forall>m \<in> set new. clientId m = stClientId st \<and> source m = rdPath (tailReader p)"
          "\<forall>k < length new. unat (msgId (new ! k)) = unat (stNextId st) + k"
          "\<forall>ms. rl = Done ms \<longrightarrow> new = ms \<and> length ms = length lines"
          and rest: "tailReader p2 = tailReader p"
          "rl \<noteq> Crash \<longrightarrow> stFileOffset (prState p2) = stFileOffset st \<and> stFileDeviceId (prState p2) = stFileDeviceId st
             \<and> stFileInode (prState p2) = stFileInode st \<and> stClientId (prState p2) = stClientId st"
          by auto
        have up: "unat (stNextId st) = Suc (unat (stNextId (prState p)))"
          using i(1,3) by (simp add: unat_increment)
        have "unat (msgId ((?m # new) ! k)) = unat (stNextId (prState p)) + k" if "k < length (?m # new)" for k
          using that new(7) i(2) up by (cases k) auto
        moreover have "r = Done ms \<longrightarrow> ?m # new = ms \<and> length ms = length ((line, now) # lines)" for ms
          using res(2) new(8) by (auto split: outcome.splits)
        moreover have "pendingMsgs (prWal p') = pendingMsgs (prWal p) @ ?m # new" "walPath (prWal p') = walPath (prWal p)"
          using res(1) new(1,2) A appended by simp_all
        ultimately have "\<exists>new. pendingMsgs (prWal p') = pendingMsgs (prWal p) @ new \<and> walPath (prWal p') = walPath (prWal p)
            \<and> length new \<le> length ((line, now) # lines)
            \<and> map content new = map fst (take (length new) ((line, now) # lines))
            \<and> map timestampMs new = map snd (take (length new) ((line, now) # lines))
            \<and> (\<forall>m \<in> set new. clientId m = stClientId (prState p) \<and> source m = rdPath (tailReader p))
            \<and> (\<forall>k < length new. unat (msgId (new ! k)) = unat (stNextId (prState p)) + k)
            \<and> (\<forall>ms. r = Done ms \<longrightarrow> new = ms \<and> length ms = length ((line, now) # lines))"
          using new(3-6) i(3) by (intro exI [of _ "?m # new"]) simp
        moreover have "r \<noteq> Crash \<longrightarrow> rl \<noteq> Crash" using res(2) by auto
        ultimately show ?thesis using rest res(1) i(3) by simp
      qed
    qed
  qed
  then show "\<exists>new. pendingMsgs (prWal p') = pendingMsgs (prWal p) @ new \<and> walPath (prWal p') = walPath (prWal p)
      \<and> length new \<le> length lines
      \<and> map content new = map fst (take (length new) lines) \<and> map timestampMs new = map snd (take (length new) lines)
      \<and> (\<forall>m \<in> set new. clientId m = stClientId (prState p) \<and> source m = rdPath (tailReader p))
      \<and> (\<forall>k < length new. unat (msgId (new ! k)) = unat (stNextId (prState p)) + k)
      \<and> (\<forall>ms. r = Done ms \<longrightarrow> new = ms \<and> length ms = length lines)"
    and "tailReader p' = tailReader p"
    and "r \<noteq> Crash \<Longrightarrow> stFileOffset (prState p') = stFileOffset (prState p)
      \<and> stFileDeviceId (prState p') = stFileDeviceId (prState p) \<and> stFileInode (prState p') = stFileInode (prState p)
      \<and> stClientId (prState p') = stClientId (prState p)"
    by blast+
qed

lemma producerRound_result:
  assumes "producerRound env stamp p w = (r, p', w')" and "readNewLines env (tailReader p) = (Inr lines, rd)"
  shows "\<exists>new. pendingMsgs (prWal p') = pendingMsgs (prWal p) @ new \<and> length new \<le> length lines
      \<and> map content new = take (length new) lines
      \<and> (\<forall>m \<in> set new. clientId m = stClientId (prState p) \<and> source m = rdPath rd)
      \<and> (\<forall>k < length new. unat (msgId (new ! k)) = unat (stNextId (prState p)) + k)
      \<and> (\<forall>ms. r = Done ms \<longrightarrow> new = ms \<and> length ms = length lines)"
    and "r = Done ms \<Longrightarrow> stFileOffset (prState p') = of_nat (committedOffset rd)
      \<and> stFileDeviceId (prState p') = rdDeviceId rd \<and> stFileInode (prState p') = rdInode rd"
    and "r = Throw e \<Longrightarrow> stFileOffset (prState p') = stFileOffset (prState p)
      \<and> stFileDeviceId (prState p') = stFileDeviceId (prState p) \<and> stFileInode (prState p') = stFileInode (prState p)"
proof -
  let ?p1 = "p\<lparr>tailReader := rd, prMetrics := (prMetrics p)\<lparr>mtRead := mtRead (prMetrics p) + of_nat (length lines)\<rparr>\<rparr>"
  let ?lines = "zip lines (map stamp [0..<length lines])"
  obtain rl p2 w2 where l: "logLines ?lines ?p1 w = (rl, p2, w2)" by (metis prod_cases3)
  note L = logLines_result [OF l]
  obtain new where new: "pendingMsgs (prWal p2) = pendingMsgs (prWal p) @ new" "length new \<le> length lines"
    "map content new = map fst (take (length new) ?lines)"
    "\<forall>m \<in> set new. clientId m = stClientId (prState p) \<and> source m = rdPath rd"
    "\<forall>k < length new. unat (msgId (new ! k)) = unat (stNextId (prState p)) + k"
    "\<forall>ms. rl = Done ms \<longrightarrow> new = ms \<and> length ms = length lines"
    using L(1) by auto
  have c: "map content new = take (length new) lines"
    using new(2,3) by (simp flip: take_map)
  have same: "rl \<noteq> Crash \<Longrightarrow> stFileOffset (prState p2) = stFileOffset (prState p)
      \<and> stFileDeviceId (prState p2) = stFileDeviceId (prState p) \<and> stFileInode (prState p2) = stFileInode (prState p)"
    using L(3) by simp
  show "\<exists>new. pendingMsgs (prWal p') = pendingMsgs (prWal p) @ new \<and> length new \<le> length lines
      \<and> map content new = take (length new) lines
      \<and> (\<forall>m \<in> set new. clientId m = stClientId (prState p) \<and> source m = rdPath rd)
      \<and> (\<forall>k < length new. unat (msgId (new ! k)) = unat (stNextId (prState p)) + k)
      \<and> (\<forall>ms. r = Done ms \<longrightarrow> new = ms \<and> length ms = length lines)"
  proof -
    have "prWal p' = prWal p2 \<and> (\<forall>ms. r = Done ms \<longrightarrow> rl = Done ms)"
    proof (cases rl)
      case (Done ms)
      obtain rc st wc where "updateFileCheckpoint (of_nat (committedOffset rd)) (rdDeviceId rd) (rdInode rd) (prState p2) w2 = (rc, st, wc)"
        by (metis prod_cases3)
      with Done assms l show ?thesis by (cases rc) (auto simp: producerRound_def Let_def)
    qed (use assms l in \<open>auto simp: producerRound_def Let_def\<close>)
    with new(1,2,4-6) c show ?thesis by (intro exI [of _ new]) simp
  qed
  show "stFileOffset (prState p') = of_nat (committedOffset rd)
      \<and> stFileDeviceId (prState p') = rdDeviceId rd \<and> stFileInode (prState p') = rdInode rd" if "r = Done ms"
  proof -
    obtain rc st wc where u: "updateFileCheckpoint (of_nat (committedOffset rd)) (rdDeviceId rd) (rdInode rd) (prState p2) w2 = (rc, st, wc)"
      by (metis prod_cases3)
    have "\<exists>ms'. rl = Done ms'" using assms l that by (cases rl) (auto simp: producerRound_def Let_def)
    then obtain ms' where "rl = Done ms'" ..
    with assms l u that have "rc = Done ()" "p' = p2\<lparr>prState := st\<rparr>"
      by (cases rc; auto simp: producerRound_def Let_def)+
    then have "st = (prState p2)\<lparr>stFileOffset := of_nat (committedOffset rd), stFileDeviceId := rdDeviceId rd, stFileInode := rdInode rd\<rparr>"
      using u by (elim updateFileCheckpoint_cases) simp_all
    with \<open>p' = _\<close> show ?thesis by simp
  qed
  show "stFileOffset (prState p') = stFileOffset (prState p)
      \<and> stFileDeviceId (prState p') = stFileDeviceId (prState p) \<and> stFileInode (prState p') = stFileInode (prState p)" if "r = Throw e"
  proof (cases rl)
    case (Done ms)
    obtain rc st wc where u: "updateFileCheckpoint (of_nat (committedOffset rd)) (rdDeviceId rd) (rdInode rd) (prState p2) w2 = (rc, st, wc)"
      by (metis prod_cases3)
    then have "rc = Throw e" "p' = p2\<lparr>prState := st\<rparr>"
      using assms l that Done by (auto simp: producerRound_def Let_def split: outcome.splits)
    with u have "st = prState p2" by (auto elim!: updateFileCheckpoint_cases)
    with same Done \<open>p' = _\<close> show ?thesis by simp
  next
    case (Throw e')
    then have "p' = p2" using assms l that by (auto simp: producerRound_def Let_def)
    with same Throw show ?thesis by simp
  next
    case Crash
    then show ?thesis using assms l that by (auto simp: producerRound_def Let_def)
  qed
qed

lemma serializeLogMessage_large: "MaxContentLength < length (content m) \<Longrightarrow> \<exists>e. serializeLogMessage m = Inl e"
  by (cases "serializeLogMessage m") (auto simp: serializeLogMessage_iff valid_message_def)

lemma logLines_large:
  assumes "logLines lines p w = (r, p', w')" and "line \<in> fst ` set lines" and "MaxContentLength < length line"
  shows "r \<noteq> Done ms"
  using assms
proof (induction lines p w arbitrary: r p' w' ms rule: logLines.induct)
  case (2 l now lines p w)
  obtain ri st w1 where n: "nextMessageId (prState p) w = (ri, st, w1)" by (metis prod_cases3)
  show ?case
  proof (cases ri)
    case (Done i)
    let ?m = "\<lparr>msgId = i, clientId = stClientId st, timestampMs = now, source = rdPath (tailReader p), content = l\<rparr>"
    obtain ra wl w2 where a: "appendLog ?m (prWal p) w1 = (ra, wl, w2)" by (metis prod_cases3)
    show ?thesis
    proof (cases "ra = Done ()")
      case True
      then have "l \<noteq> line" using a 2(4) serializeLogMessage_large [of ?m] by (auto simp: appendLog_def)
      then have "line \<in> fst ` set lines" using 2(3) by auto
      from 2(1) [OF n [symmetric] Done HOL.refl HOL.refl a [symmetric] True HOL.refl _ this 2(4)]
      show ?thesis using 2(2) n Done a True by (auto simp: Let_def split: outcome.splits prod.splits)
    next
      case False
      with 2(2) n Done a show ?thesis by (cases ra) (auto simp: Let_def)
    qed
  qed (use 2(2) n in auto)
qed simp


section \<open>When no call fails\<close>

lemma completes_run:
  assumes "completes n m" and "all_good (sched w)" and "n \<le> length (sched w)"
  obtains x w' where "m w = (Done x, w')" and "all_good (sched w')" and "length (sched w) \<le> length (sched w') + n"
  using assms unfolding completes_def by blast

definition loggable :: "producer \<Rightarrow> string \<Rightarrow> bool" where
  "loggable p line \<longleftrightarrow> stClientId (prState p) \<noteq> [] \<and> length (stClientId (prState p)) \<le> MaxClientIdLength
     \<and> length (rdPath (tailReader p)) \<le> MaxSourceLength \<and> length line \<le> MaxContentLength
     \<and> stNextId (prState p) \<noteq> 0"

lemma logLines_completes:
  assumes "\<forall>line \<in> fst ` set lines. loggable p line" and "unat (stNextId (prState p)) + length lines < 2 ^ 64"
  shows "\<exists>n p' ms. \<forall>w. all_good (sched w) \<longrightarrow> n \<le> length (sched w) \<longrightarrow>
    (\<exists>w'. logLines lines p w = (Done ms, p', w') \<and> all_good (sched w') \<and> length (sched w) \<le> length (sched w') + n)"
  using assms
proof (induction lines arbitrary: p)
  case Nil
  show ?case by (intro exI [of _ 0] exI [of _ p] exI [of _ "[]"]) simp
next
  case (Cons l lines)
  obtain line now where l: "l = (line, now)" by (rule prod.exhaust)
  let ?st = "(prState p)\<lparr>stNextId := stNextId (prState p) + 1\<rparr>"
  let ?m = "\<lparr>msgId = stNextId (prState p), clientId = stClientId ?st, timestampMs = now, source = rdPath (tailReader p), content = line\<rparr>"
  let ?wl = "(prWal p)\<lparr>pendingMsgs := pendingMsgs (prWal p) @ [?m]\<rparr>"
  let ?p = "p\<lparr>prState := ?st, prWal := ?wl, prMetrics := (prMetrics p)\<lparr>mtWal := mtWal (prMetrics p) + 1\<rparr>\<rparr>"
  have room: "stNextId (prState p) \<noteq> - 1"
  proof
    assume "stNextId (prState p) = - 1"
    then have "unat (stNextId (prState p)) = 2 ^ 64 - 1" by (simp add: unsigned_minus_1_eq_mask mask_eq_exp_minus_1)
    with Cons.prems(2) show False by simp
  qed
  have up: "unat (stNextId ?st) = Suc (unat (stNextId (prState p)))" using unat_increment [OF room] by simp
  have nz: "stNextId ?st \<noteq> 0" using increment_neq_0 [OF room] by simp
  have "\<forall>x \<in> fst ` set lines. loggable ?p x"
    using Cons.prems(1) nz by (auto simp: loggable_def)
  moreover have "unat (stNextId (prState ?p)) + length lines < 2 ^ 64" using Cons.prems(2) up by simp
  ultimately obtain n p' ms where tl: "\<forall>w. all_good (sched w) \<longrightarrow> n \<le> length (sched w) \<longrightarrow>
    (\<exists>w'. logLines lines ?p w = (Done ms, p', w') \<and> all_good (sched w') \<and> length (sched w) \<le> length (sched w') + n)"
    using Cons.IH [of ?p] by blast
  have "valid_message ?m" using Cons.prems(1) l by (auto simp: loggable_def valid_message_def)
  then obtain f where f: "serializeLogMessage ?m = Inr f" by (simp add: serializeLogMessage_iff)
  let ?a = "1 + (1 + (length (bytes_of_string (renderState ?st)) + (2 + (1 + 3))))"
  let ?b = "1 + (1 + (length f + (2 + 3)))"
  have "\<exists>w'. logLines (l # lines) p w = (Done (?m # ms), p', w') \<and> all_good (sched w') \<and> length (sched w) \<le> length (sched w') + (?a + ?b + n)"
    if good: "all_good (sched w)" "?a + ?b + n \<le> length (sched w)" for w
  proof -
    have "?a \<le> length (sched w)" using good(2) by linarith
    with good(1) obtain x w1 where 1: "writeAtomically (stPath ?st) (bytes_of_string (renderState ?st)) w = (Done x, w1)"
      "all_good (sched w1)" "length (sched w) \<le> length (sched w1) + ?a"
      using completes_run [OF completes_writeAtomically] by blast
    have "?b \<le> length (sched w1)" using good(2) 1(3) by linarith
    with 1(2) obtain y w2 where 2: "appendDurably (walPath (prWal p)) f w1 = (Done y, w2)" "all_good (sched w2)"
      "length (sched w1) \<le> length (sched w2) + ?b"
      using completes_run [OF completes_appendDurably] by blast
    have "n \<le> length (sched w2)" using good(2) 1(3) 2(3) by linarith
    then obtain w' where 3: "logLines lines ?p w2 = (Done ms, p', w')" "all_good (sched w')" "length (sched w2) \<le> length (sched w') + n"
      using tl 2(2) by blast
    have "nextMessageId (prState p) w = (Done (stNextId (prState p)), ?st, w1)"
      using room 1(1) by (simp add: nextMessageId_def persistState_def Let_def)
    moreover have "appendLog ?m (prWal p) w1 = (Done (), ?wl, w2)"
      using f 2(1) by (simp add: appendLog_def)
    ultimately have "logLines (l # lines) p w = (Done (?m # ms), p', w')"
      using 3(1) l by (simp add: Let_def)
    with 3(2,3) 1(3) 2(3) show ?thesis by simp
  qed
  then show ?case by blast
qed

lemma producerRound_completes:
  assumes "readNewLines env (tailReader p) = (Inr lines, rd)" and "rdPath rd = rdPath (tailReader p)"
    and "\<forall>line \<in> set lines. loggable p line" and "unat (stNextId (prState p)) + length lines < 2 ^ 64"
  shows "\<exists>n p' ms. \<forall>w. all_good (sched w) \<longrightarrow> n \<le> length (sched w) \<longrightarrow> (\<exists>w'. producerRound env stamp p w = (Done ms, p', w'))"
proof -
  let ?p1 = "p\<lparr>tailReader := rd, prMetrics := (prMetrics p)\<lparr>mtRead := mtRead (prMetrics p) + of_nat (length lines)\<rparr>\<rparr>"
  let ?lines = "zip lines (map stamp [0..<length lines])"
  have "fst ` set ?lines = set lines" by (simp flip: set_map)
  then have "\<forall>line \<in> fst ` set ?lines. loggable ?p1 line" using assms(2,3) by (auto simp: loggable_def)
  then obtain n p2 ms where n: "\<forall>w. all_good (sched w) \<longrightarrow> n \<le> length (sched w) \<longrightarrow>
    (\<exists>w'. logLines ?lines ?p1 w = (Done ms, p2, w') \<and> all_good (sched w') \<and> length (sched w) \<le> length (sched w') + n)"
    using logLines_completes [of ?lines ?p1] assms(4) by auto
  let ?st = "(prState p2)\<lparr>stFileOffset := of_nat (committedOffset rd), stFileDeviceId := rdDeviceId rd, stFileInode := rdInode rd\<rparr>"
  let ?a = "1 + (1 + (length (bytes_of_string (renderState ?st)) + (2 + (1 + 3))))"
  have "\<exists>w'. producerRound env stamp p w = (Done ms, p2\<lparr>prState := ?st\<rparr>, w')"
    if good: "all_good (sched w)" "n + ?a \<le> length (sched w)" for w
  proof -
    have "n \<le> length (sched w)" using good(2) by linarith
    then obtain w1 where 1: "logLines ?lines ?p1 w = (Done ms, p2, w1)" "all_good (sched w1)" "length (sched w) \<le> length (sched w1) + n"
      using n good(1) by blast
    have "?a \<le> length (sched w1)" using good(2) 1(3) by linarith
    with 1(2) obtain x w2 where 2: "writeAtomically (stPath ?st) (bytes_of_string (renderState ?st)) w1 = (Done x, w2)"
      using completes_run [OF completes_writeAtomically] by blast
    have "\<exists>w'. updateFileCheckpoint (of_nat (committedOffset rd)) (rdDeviceId rd) (rdInode rd) (prState p2) w1 = (Done (), ?st, w')"
      using 2 by (auto simp: updateFileCheckpoint_def persistState_def Let_def)
    with 1(1) assms(1) show ?thesis by (auto simp: producerRound_def Let_def)
  qed
  then show ?thesis by blast
qed


section \<open>Properties\<close>

text \<open>
  Property C14. A round of the producer logs before it moves the checkpoint: what it adds to the log are
  messages for the first lines it read, one per line and in order, with consecutive ids from the
  next id on; the checkpoint becomes the end of the last complete line only when every line has been
  logged, and a round that fails leaves it where it was, so that the lines are read again.
\<close>

theorem producer_logs_before_checkpoint:
  assumes "producerRound env stamp p w = (r, p', w')" and "readNewLines env (tailReader p) = (Inr lines, rd)"
  shows "\<exists>new. pendingMsgs (prWal p') = pendingMsgs (prWal p) @ new
      \<and> map content new = take (length new) lines
      \<and> (\<forall>m \<in> set new. clientId m = stClientId (prState p) \<and> source m = rdPath rd)
      \<and> (\<forall>k < length new. unat (msgId (new ! k)) = unat (stNextId (prState p)) + k)
      \<and> (\<forall>ms. r = Done ms \<longrightarrow> new = ms \<and> map content ms = lines
            \<and> stFileOffset (prState p') = of_nat (committedOffset rd)
            \<and> stFileDeviceId (prState p') = rdDeviceId rd \<and> stFileInode (prState p') = rdInode rd)
      \<and> (\<forall>e. r = Throw e \<longrightarrow> stFileOffset (prState p') = stFileOffset (prState p)
            \<and> stFileDeviceId (prState p') = stFileDeviceId (prState p) \<and> stFileInode (prState p') = stFileInode (prState p))"
proof -
  obtain new where new: "pendingMsgs (prWal p') = pendingMsgs (prWal p) @ new" "map content new = take (length new) lines"
    "\<forall>m \<in> set new. clientId m = stClientId (prState p) \<and> source m = rdPath rd"
    "\<forall>k < length new. unat (msgId (new ! k)) = unat (stNextId (prState p)) + k"
    "\<forall>ms. r = Done ms \<longrightarrow> new = ms \<and> length ms = length lines"
    using producerRound_result(1) [OF assms] by blast
  moreover have "map content ms = lines" if "r = Done ms" for ms using new(2,5) that by simp
  ultimately show ?thesis
    using producerRound_result(2,3) [OF assms] by (intro exI [of _ new]) simp
qed

definition sample_producer :: producer where
  "sample_producer = \<lparr>tailReader = sample_reader 0 [],
     prState = \<lparr>stPath = ''s'', stClientId = ''a1'', stNextId = 1, stSourcePath = ''log'', stFileOffset = 0,
       stFileDeviceId = 1, stFileInode = 7\<rparr>,
     prWal = \<lparr>walPath = ''w'', pendingMsgs = []\<rparr>,
     prMetrics = \<lparr>mtRead = 0, mtWal = 0, mtConfirmed = 0, mtConfirmedBatches = 0, mtRetries = 0\<rparr>\<rparr>"


definition sample_log_disk :: world where
  "sample_log_disk = \<lparr>curDir = Map.empty, dirHist = [Map.empty], fileData = (\<lambda>_. []), fileSynced = (\<lambda>_. []),
     nextInode = 0, sched = []\<rparr>"

lemma sample_env_read:
  "readNewLines (sample_env (sample_stat 7 4) (''a'' @ [lf] @ ''bc'') [Inl 1, Inr EINTR, Inl 2, Inl 0]) (tailReader sample_producer)
    = (Inr [''a''], sample_reader 3 ''b'')"
  using sample_poll by (simp add: sample_producer_def)

lemma sample_loggable: "length line \<le> MaxContentLength \<Longrightarrow> loggable sample_producer line"
  by (simp add: loggable_def sample_producer_def sample_reader_def MaxClientIdLength_def MaxSourceLength_def)

lemma producer_logs_before_checkpoint_witness:
  "\<exists>w ms p' w'. producerRound (sample_env (sample_stat 7 4) (''a'' @ [lf] @ ''bc'') [Inl 1, Inr EINTR, Inl 2, Inl 0]) (\<lambda>k. 5)
       sample_producer w = (Done ms, p', w') \<and> map content ms = [''a''] \<and> stFileOffset (prState p') = 2"
proof -
  let ?env = "sample_env (sample_stat 7 4) (''a'' @ [lf] @ ''bc'') [Inl 1, Inr EINTR, Inl 2, Inl 0]"
  have "\<exists>n p' ms. \<forall>w. all_good (sched w) \<longrightarrow> n \<le> length (sched w) \<longrightarrow> (\<exists>w'. producerRound ?env (\<lambda>k. 5) sample_producer w = (Done ms, p', w'))"
    using sample_loggable [of "''a''"]
    by (intro producerRound_completes [OF sample_env_read]) (simp_all add: sample_producer_def sample_reader_def MaxContentLength_def)
  then obtain n p' ms where n: "\<And>w. all_good (sched w) \<Longrightarrow> n \<le> length (sched w) \<Longrightarrow>
      \<exists>w'. producerRound ?env (\<lambda>k. 5) sample_producer w = (Done ms, p', w')" by blast
  let ?w = "sample_log_disk\<lparr>sched := replicate n (Ok (Suc 0))\<rparr>"
  obtain w' where run: "producerRound ?env (\<lambda>k. 5) sample_producer ?w = (Done ms, p', w')" using n [of ?w] by auto
  from producer_logs_before_checkpoint [OF run sample_env_read]
  have "map content ms = [''a'']" "stFileOffset (prState p') = of_nat (committedOffset (sample_reader 3 ''b''))" by auto
  then have "map content ms = [''a''] \<and> stFileOffset (prState p') = 2" by (simp add: committedOffset_def)
  with run show ?thesis
    by (intro exI [of _ ?w] exI [of _ ms] exI [of _ p'] exI [of _ w']) (rule conjI)
qed



text \<open>
  Property C13. \<^verbatim>\<open>deliverWithRetry\<close> reports success only after one of its attempts received the
  acknowledgement of the last id of exactly this batch, sent as a whole; then no message up to that
  id is pending in memory. And whatever it returns, messages leave the log only on such an
  acknowledgement, and only those up to that id.
\<close>

theorem delivered_means_acknowledged:
  assumes "deliverWithRetry attempts batch s w = (r, s', w', as')"
  shows "(r = Delivered \<or> senderWal s' \<noteq> senderWal s \<longrightarrow>
      (\<exists>a \<in> set attempts. \<exists>out sends' evs'. sendLogBatchAndWaitAck batch (atSends a) (atEvents a)
           = (Returned (msgId (last batch)), out, sends', evs') \<and> deserializeLogBatch out = Inr batch))
    \<and> (r = Delivered \<longrightarrow> (\<forall>m \<in> set (pendingMsgs (senderWal s')). msgId (last batch) < msgId m))
    \<and> set (pendingMsgs (senderWal s')) \<subseteq> set (pendingMsgs (senderWal s))
    \<and> (\<forall>m \<in> set (pendingMsgs (senderWal s)). msgId (last batch) < msgId m \<longrightarrow> m \<in> set (pendingMsgs (senderWal s')))"
proof -
  obtain used where u: "attempts = used @ as'"
    and w: "senderWal s' = senderWal s \<or> (\<exists>a \<in> set used. acknowledged a batch) \<and> senderWal s' = ids_after (msgId (last batch)) (senderWal s)"
    and d: "r = Delivered \<longrightarrow> (\<exists>a \<in> set used. acknowledged a batch) \<and> senderWal s' = ids_after (msgId (last batch)) (senderWal s)"
    using deliverLoop_result [OF assms [unfolded deliverWithRetry_def]] by blast
  have "\<exists>out sends' evs'. sendLogBatchAndWaitAck batch (atSends a) (atEvents a)
           = (Returned (msgId (last batch)), out, sends', evs') \<and> deserializeLogBatch out = Inr batch"
    if ack: "acknowledged a batch" for a
  proof -
    obtain out sends' evs' where e: "sendLogBatchAndWaitAck batch (atSends a) (atEvents a)
        = (Returned (msgId (last batch)), out, sends', evs')"
      using ack unfolding acknowledged_def by blast
    moreover have "deserializeLogBatch out = Inr batch"
      using sendLogBatchAndWaitAck_returned [OF e] by (simp add: batch_codec.des_iff_ser)
    ultimately show ?thesis by blast
  qed
  then have got: "\<exists>a \<in> set attempts. \<exists>out sends' evs'. sendLogBatchAndWaitAck batch (atSends a) (atEvents a)
           = (Returned (msgId (last batch)), out, sends', evs') \<and> deserializeLogBatch out = Inr batch"
    if "\<exists>a \<in> set used. acknowledged a batch"
    using that u by fastforce
  have "r = Delivered \<or> senderWal s' \<noteq> senderWal s \<longrightarrow> (\<exists>a \<in> set used. acknowledged a batch)"
    using w d by blast
  moreover have "(r = Delivered \<longrightarrow> (\<forall>m \<in> set (pendingMsgs (senderWal s')). msgId (last batch) < msgId m))
    \<and> set (pendingMsgs (senderWal s')) \<subseteq> set (pendingMsgs (senderWal s))
    \<and> (\<forall>m \<in> set (pendingMsgs (senderWal s)). msgId (last batch) < msgId m \<longrightarrow> m \<in> set (pendingMsgs (senderWal s')))"
    using w d by (auto simp: ids_after_def)
  ultimately show ?thesis using got by blast
qed

text \<open>The first attempt cannot connect, the second one succeeds.\<close>

definition sample_sender :: sender where
  "sample_sender = \<lparr>connected = False, senderWal = \<lparr>walPath = ''w'', pendingMsgs = [sample_message 9]\<rparr>,
     senderMetrics = \<lparr>mtRead = 0, mtWal = 0, mtConfirmed = 0, mtConfirmedBatches = 0, mtRetries = 0\<rparr>, waits = []\<rparr>"

lemma sample_log_batch: "\<exists>f. serializeLogBatch [sample_message 3, sample_message 4] = Inr f"
proof -
  have "valid_batch [sample_message 3, sample_message 4]"
    by (rule small_batch_valid) (simp_all add: one_client_def ids_increasing_def sample_message_def valid_message_def limit_defs)
  then show ?thesis by (simp add: serializeLogBatch_iff)
qed

lemma sample_delivery:
  obtains attempts s' where "length attempts = 2"
    and "deliverWithRetry attempts [sample_message 3, sample_message 4] sample_sender sample_log_disk = (Delivered, s', sample_log_disk, [])"
    and "waits s' = [500]"
proof -
  let ?ms = "[sample_message 3, sample_message 4]"
  have ids: "msgId (sample_message i) = i" for i by (simp add: sample_message_def)
  obtain f where f: "serializeLogBatch ?ms = Inr f" using sample_log_batch by blast
  have "bytes_of [Segment (serializeAck 4)] = serializeAck (msgId (last ?ms)) @ []" by (simp add: ids)
  from sendLogBatchAndWaitAck_completes [OF f this] obtain sends' evs' where
    x: "sendLogBatchAndWaitAck ?ms (replicate (length f) (Inl 1)) [Segment (serializeAck 4)] = (Returned 4, f, sends', evs')"
    by (auto simp: ids)
  let ?a1 = "\<lparr>atRunning = True, atConnect = Some (RuntimeError []), atSends = [], atEvents = [], atWaited = True\<rparr>"
  let ?a2 = "\<lparr>atRunning = True, atConnect = None, atSends = replicate (length f) (Inl 1), atEvents = [Segment (serializeAck 4)], atWaited = True\<rparr>"
  have "\<exists>s'. deliverWithRetry [?a1, ?a2] ?ms sample_sender sample_log_disk = (Delivered, s', sample_log_disk, []) \<and> waits s' = [500]"
    using x by (simp add: deliverWithRetry_def tryDeliver_def sample_sender_def Let_def InitialRetryDelay_def confirmLog_def ids
        del: One_nat_def)
  with that [of "[?a1, ?a2]"] show thesis by auto
qed

lemma delivered_means_acknowledged_witness:
  "\<exists>attempts s'. deliverWithRetry attempts [sample_message 3, sample_message 4] sample_sender sample_log_disk
      = (Delivered, s', sample_log_disk, [])
    \<and> (\<exists>a \<in> set attempts. \<exists>out sends' evs'. sendLogBatchAndWaitAck [sample_message 3, sample_message 4] (atSends a) (atEvents a)
         = (Returned (msgId (sample_message 4)), out, sends', evs') \<and> deserializeLogBatch out = Inr [sample_message 3, sample_message 4])"
proof -
  obtain attempts s' where run: "deliverWithRetry attempts [sample_message 3, sample_message 4] sample_sender sample_log_disk
      = (Delivered, s', sample_log_disk, [])"
    by (rule sample_delivery)
  from delivered_means_acknowledged [OF run] run show ?thesis by (intro exI [of _ attempts] exI [of _ s']) simp
qed

text \<open>
  Failed attempts are spaced by 500 ms, 1 s, 2 s, 4 s and then 8 s each, and every one
  of them is counted.
\<close>

lemma retry_schedule:
  assumes "deliverWithRetry attempts batch s w = (r, s', w', as')"
  shows "\<exists>n \<le> length attempts. waits s' = waits s @ map (\<lambda>i. min (500 * 2 ^ i) 8000) [0..<n]
    \<and> mtRetries (senderMetrics s') = mtRetries (senderMetrics s) + of_nat n"
proof -
  obtain used n where "attempts = used @ as'" "n \<le> length used" "waits s' = waits s @ delays InitialRetryDelay n"
    "mtRetries (senderMetrics s') = mtRetries (senderMetrics s) + of_nat n"
    using deliverLoop_result [OF assms [unfolded deliverWithRetry_def]] by blast
  moreover have "delays InitialRetryDelay n = map (\<lambda>i. min (500 * 2 ^ i) 8000) [0..<n]"
    using delays_schedule [of InitialRetryDelay n] by (simp add: InitialRetryDelay_def MaxRetryDelay_def)
  ultimately show ?thesis by (intro exI [of _ n]) simp
qed

text \<open>
  Property C39. Waiting before a retry ends: with a clock that never goes back and sleeps that last at
  least as long as asked for, the loop makes at most one turn per started 100 ms of the delay, no
  sleep is longer than 100 ms, and it ends at the first turn that finds \<^verbatim>\<open>running\<close> cleared.
\<close>

theorem retry_wait_ends:
  assumes "0 \<le> delay" and "steady (start + delay * 1000000) start obs" and "nat ((delay + 99) div 100) < length obs"
  shows "\<exists>sleeps. waitForRetry start delay obs final = Some (sleeps, final)
    \<and> length sleeps \<le> nat ((delay + 99) div 100) \<and> (\<forall>d \<in> set sleeps. d \<le> 100000000)
    \<and> (\<forall>k < length obs. \<not> fst (obs ! k) \<longrightarrow> length sleeps \<le> k)"
proof -
  let ?n = "nat ((delay + 99) div 100)"
  have "delay \<le> 100 * ((delay + 99) div 100)" by linarith
  then have "start + delay * 1000000 - start \<le> int ?n * maximumSlice"
    using assms(1) by (simp add: maximumSlice_def)
  then obtain sleeps where "waitLoop (start + delay * 1000000) obs = Some sleeps" "length sleeps \<le> ?n"
    using waitLoop_ends [OF assms(2)] assms(3) by blast
  with waitLoop_sleeps [OF this(1)] show ?thesis
    by (intro exI [of _ sleeps]) (auto simp: waitForRetry_def maximumSlice_def)
qed

lemma retry_wait_ends_witness:
  "waitForRetry 0 250 [(True, 0, 0), (True, 100000000, 100000000), (True, 200000000, 200000000), (True, 250000000, 250000000)] True
     = Some ([100000000, 100000000, 50000000], True)"
proof -
  let ?obs = "[(True, 0, 0), (True, 100000000, 100000000), (True, 200000000, 200000000), (True, 250000000, 250000000)]"
  obtain sleeps where "waitForRetry 0 250 ?obs True = Some (sleeps, True)"
    using retry_wait_ends [of 250 0 ?obs True] by (auto simp: maximumSlice_def)
  then show ?thesis by (auto simp: waitForRetry_def maximumSlice_def)
qed

text \<open>
  The batches of the consumer are always accepted by the protocol: every part of at most
  ten messages of a log is a valid batch and can be serialized, and when all were delivered no
  message up to the last one is pending.
\<close>

lemma client_batches_accepted:
  assumes "valid_log c messages"
  shows "(\<forall>offset < length messages. \<exists>f. serializeLogBatch (take (min 10 (length messages - offset)) (drop offset messages)) = Inr f)
    \<and> (\<forall>attempts s w d s' w' as'. messages \<noteq> [] \<longrightarrow> sendMessages 0 attempts messages s w = (d, s', w', as') \<longrightarrow> d = Delivered \<longrightarrow>
         (\<forall>m \<in> set (pendingMsgs (senderWal s')). msgId (last messages) < msgId m))"
  using part_of_log_valid [OF assms] sendMessages_result(2) [OF _ assms]
  by (auto simp: serializeLogBatch_iff SendBatchSize_def)

end
