(* ===== verification/ClientThreads.thy ===== *)
theory ClientThreads
  imports ClientMain
begin

text \<open>
  The threads of \<^verbatim>\<open>src/src/main.cpp\<close> around the queue and the flag \<^verbatim>\<open>running\<close>: the producer, the consumer,
  the reporter of the metrics, and the main thread that waits for a signal and joins the others.
  \<^verbatim>\<open>ClientMain\<close> says what each of them computes; here they interleave, every call of the disk, the network or
  the clock ends with any result, and the calls on the queue are the ones of the code and may wait. The
  result is that the client stops: once \<^verbatim>\<open>running\<close> is false, nothing can go on for ever and nothing can
  wait for ever.
\<close>

section \<open>The threads\<close>

text \<open>
  The producer: before opening the file, before the loop condition, before a read, with \<open>n\<close> lines to
  log, with messages to push, before the sleep, after an exception, before \<^verbatim>\<open>queue.close\<close>, returned.
\<close>

datatype producer_pc =
  PStart | PTest | PRead | PLog nat "LogMessage list" | PPush "LogMessage list" | PSleep | PFail | PClose | PDone

text \<open>
  The consumer: with messages to send and before \<^verbatim>\<open>running\<close> is tested, in an attempt, in the wait before
  the next one, before the condition of its loop, before \<^verbatim>\<open>popBatch\<close>, waiting in it for more, before
  \<^verbatim>\<open>queue.close\<close>, returned.
\<close>

datatype consumer_pc =
  CSend "LogMessage list" | CTry "LogMessage list" | CRetry "LogMessage list" | CTest | CPop | CFill "LogMessage list" | CQuit | CDone

datatype reporter_pc = RWait | RPrint | RDone

datatype main_pc = MTest | MWait | MStore | MClose | MJoinProducer | MJoinConsumer | MJoinReporter | MDone | MAborted

record client_threads =
  isRunning :: bool
  messageQueue :: "LogMessage BoundedBlockingQueue"
  producerAt :: producer_pc
  consumerAt :: consumer_pc
  reporterAt :: reporter_pc
  mainAt :: main_pc

definition SendBatchMaxWait :: int where "SendBatchMaxWait = 100"

inductive producer_step :: "client_threads \<Rightarrow> client_threads \<Rightarrow> bool" where
  opens: "producerAt t = PStart \<Longrightarrow> pc \<in> {PTest, PFail} \<Longrightarrow> producer_step t (t\<lparr>producerAt := pc\<rparr>)"
| test: "producerAt t = PTest \<Longrightarrow> producer_step t (t\<lparr>producerAt := (if isRunning t then PRead else PClose)\<rparr>)"
| reads: "producerAt t = PRead \<Longrightarrow> pc = PFail \<or> pc = PLog n [] \<Longrightarrow> producer_step t (t\<lparr>producerAt := pc\<rparr>)"
| logs: "producerAt t = PLog (Suc n) ms \<Longrightarrow> pc = PFail \<or> pc = PLog n (ms @ [m]) \<Longrightarrow> producer_step t (t\<lparr>producerAt := pc\<rparr>)"
| moves_checkpoint: "producerAt t = PLog 0 ms \<Longrightarrow> pc \<in> {PFail, PPush ms} \<Longrightarrow> producer_step t (t\<lparr>producerAt := pc\<rparr>)"
| pushes: "producerAt t = PPush (m # ms) \<Longrightarrow> push m (messageQueue t) = Some (ok, q) \<Longrightarrow>
    producer_step t (t\<lparr>messageQueue := q, producerAt := (if ok then PPush ms else PDone)\<rparr>)"
| pushed: "producerAt t = PPush [] \<Longrightarrow> producer_step t (t\<lparr>producerAt := PSleep\<rparr>)"
| sleeps: "producerAt t = PSleep \<Longrightarrow> producer_step t (t\<lparr>producerAt := PTest\<rparr>)"
| fails: "producerAt t = PFail \<Longrightarrow> producer_step t (t\<lparr>isRunning := False, producerAt := PClose\<rparr>)"
| closes: "producerAt t = PClose \<Longrightarrow> producer_step t (t\<lparr>messageQueue := closeQueue (messageQueue t), producerAt := PDone\<rparr>)"

text \<open>Where a call of \<^verbatim>\<open>popBatch\<close> goes on: waiting for more, out of the loop, or with a batch to send.\<close>

definition popped :: "bool \<Rightarrow> LogMessage list \<Rightarrow> consumer_pc" where
  "popped waiting batch = (if waiting then CFill batch else if batch = [] then CDone else CSend batch)"

inductive consumer_step :: "client_threads \<Rightarrow> client_threads \<Rightarrow> bool" where
  sent: "consumerAt t = CSend [] \<Longrightarrow> consumer_step t (t\<lparr>consumerAt := CTest\<rparr>)"
| test_send: "consumerAt t = CSend ms \<Longrightarrow> ms \<noteq> [] \<Longrightarrow>
    consumer_step t (t\<lparr>consumerAt := (if isRunning t then CTry ms else CQuit)\<rparr>)"
| attempts: "consumerAt t = CTry ms \<Longrightarrow> pc \<in> {CSend (drop SendBatchSize ms), CRetry ms} \<Longrightarrow>
    consumer_step t (t\<lparr>consumerAt := pc\<rparr>)"
| waits_retry: "consumerAt t = CRetry ms \<Longrightarrow> pc \<in> (if isRunning t then {CRetry ms, CSend ms} else {CQuit}) \<Longrightarrow>
    consumer_step t (t\<lparr>consumerAt := pc\<rparr>)"
| test: "consumerAt t = CTest \<Longrightarrow> consumer_step t (t\<lparr>consumerAt := (if isRunning t then CPop else CDone)\<rparr>)"
| pops: "consumerAt t = CPop \<Longrightarrow>
    popBatch SendBatchSize SendBatchMaxWait (messageQueue t) = Some (Inr (waiting, batch, q)) \<Longrightarrow>
    consumer_step t (t\<lparr>messageQueue := q, consumerAt := popped waiting batch\<rparr>)"
| fills: "consumerAt t = CFill b \<Longrightarrow> resumeBatch SendBatchSize b (messageQueue t) = Some (waiting, batch, q) \<Longrightarrow>
    consumer_step t (t\<lparr>messageQueue := q, consumerAt := popped waiting batch\<rparr>)"
| expires: "consumerAt t = CFill b \<Longrightarrow> expireBatch b (messageQueue t) = Some (waiting, batch, q) \<Longrightarrow>
    consumer_step t (t\<lparr>messageQueue := q, consumerAt := popped waiting batch\<rparr>)"
| quits: "consumerAt t = CQuit \<Longrightarrow> consumer_step t (t\<lparr>messageQueue := closeQueue (messageQueue t), consumerAt := CDone\<rparr>)"

text \<open>\<^verbatim>\<open>waitForRetry\<close> goes on or is over while \<^verbatim>\<open>running\<close> is true, and returns false when it is not.\<close>

inductive reporter_step :: "client_threads \<Rightarrow> client_threads \<Rightarrow> bool" where
  waits_interval: "reporterAt t = RWait \<Longrightarrow> pc \<in> (if isRunning t then {RWait, RPrint} else {RDone}) \<Longrightarrow>
    reporter_step t (t\<lparr>reporterAt := pc\<rparr>)"
| prints: "reporterAt t = RPrint \<Longrightarrow> reporter_step t (t\<lparr>reporterAt := RWait\<rparr>)"

inductive main_step :: "client_threads \<Rightarrow> client_threads \<Rightarrow> bool" where
  test: "mainAt t = MTest \<Longrightarrow> main_step t (t\<lparr>mainAt := (if isRunning t then MWait else MStore)\<rparr>)"
| no_signal: "mainAt t = MWait \<Longrightarrow> main_step t (t\<lparr>mainAt := MTest\<rparr>)"
| has_signal: "mainAt t = MWait \<Longrightarrow> main_step t (t\<lparr>isRunning := False, mainAt := MStore\<rparr>)"
| wait_throws: "mainAt t = MWait \<Longrightarrow> main_step t (t\<lparr>mainAt := MAborted\<rparr>)"
| stores: "mainAt t = MStore \<Longrightarrow> main_step t (t\<lparr>isRunning := False, mainAt := MClose\<rparr>)"
| closes: "mainAt t = MClose \<Longrightarrow> main_step t (t\<lparr>messageQueue := closeQueue (messageQueue t), mainAt := MJoinProducer\<rparr>)"
| join_producer: "mainAt t = MJoinProducer \<Longrightarrow> producerAt t = PDone \<Longrightarrow> main_step t (t\<lparr>mainAt := MJoinConsumer\<rparr>)"
| join_consumer: "mainAt t = MJoinConsumer \<Longrightarrow> consumerAt t = CDone \<Longrightarrow> main_step t (t\<lparr>mainAt := MJoinReporter\<rparr>)"
| join_reporter: "mainAt t = MJoinReporter \<Longrightarrow> reporterAt t = RDone \<Longrightarrow> main_step t (t\<lparr>mainAt := MDone\<rparr>)"

text \<open>\<^verbatim>\<open>std::terminate\<close> ends the process, so nothing moves after it.\<close>

definition threads_step :: "client_threads \<Rightarrow> client_threads \<Rightarrow> bool" where
  "threads_step t u \<longleftrightarrow> mainAt t \<noteq> MAborted \<and> (producer_step t u \<or> consumer_step t u \<or> reporter_step t u \<or> main_step t u)"

definition start_threads :: "LogMessage list \<Rightarrow> client_threads" where
  "start_threads recovered = \<lparr>isRunning = True, messageQueue = \<lparr>capacity = 100, queue = [], closed = False\<rparr>,
     producerAt = PStart, consumerAt = (if recovered = [] then CTest else CSend recovered), reporterAt = RWait, mainAt = MTest\<rparr>"

inductive_cases producer_stepE: "producer_step t u"
inductive_cases consumer_stepE: "consumer_step t u"
inductive_cases reporter_stepE: "reporter_step t u"
inductive_cases main_stepE: "main_step t u"

lemmas threads_stepE = producer_stepE consumer_stepE reporter_stepE main_stepE


section \<open>The queue under the threads\<close>

text \<open>A closed queue stays closed, whatever is done to it.\<close>

lemma push_closed: "push m q = Some (ok, q') \<Longrightarrow> closed q' = closed q"
  by (auto simp: push_def split: if_splits)

lemma popBatch_closed: "popBatch n w q = Some (Inr (waiting, batch, q')) \<Longrightarrow> closed q' = closed q"
  using popBatch_step [of n w q "(waiting, batch, q')"] by (simp add: batch_step_def)

lemma resumeBatch_closed: "resumeBatch n b q = Some (waiting, batch, q') \<Longrightarrow> closed q' = closed q"
  using batchLoop_step [of n b q] by (auto simp: resumeBatch_def batch_step_def split: if_splits)

lemma expireBatch_closed: "expireBatch b q = Some (waiting, batch, q') \<Longrightarrow> q' = q \<and> \<not> waiting"
  by (auto simp: expireBatch_def split: if_splits)

lemma closeQueue_closed [simp]: "closed (closeQueue q)"
  by (simp add: closeQueue_def)

lemmas queue_keeps_closed = push_closed popBatch_closed resumeBatch_closed expireBatch_closed

text \<open>A wait that is resumed and waits again has a longer batch.\<close>

lemma resumeBatch_longer:
  assumes "resumeBatch n b q = Some (True, batch, q')" and "length b \<le> n"
  shows "length b < length batch \<and> length batch < n"
proof -
  have l: "batchLoop n b q = (True, batch, q')" and q: "queue q \<noteq> [] \<or> closed q"
    using assms(1) by (auto simp: resumeBatch_def split: if_splits)
  have s: "b @ queue q = batch @ queue q'" "closed q' = closed q" "length batch < n" "queue q' = []" "\<not> closed q'"
    using batchLoop_step [of n b q] assms(2) unfolding l by (auto simp: batch_step_def)
  then have "queue q \<noteq> []" using q by auto
  moreover have "length b + length (queue q) = length batch" using s(1,4) by (metis append_Nil2 length_append)
  ultimately show ?thesis using s(3) by (cases "queue q") auto
qed

lemma popBatch_room:
  assumes "popBatch n w q = Some (Inr (True, batch, q'))"
  shows "length batch < n"
  using popBatch_step [OF assms] by (simp add: batch_step_def)



section \<open>Stopping\<close>

text \<open>How far each thread is from its end when \<^verbatim>\<open>running\<close> is false.\<close>

fun producer_rank :: "producer_pc \<Rightarrow> nat \<times> nat" where
  "producer_rank PStart = (8, 0)"
| "producer_rank PRead = (7, 0)"
| "producer_rank (PLog n ms) = (6, n)"
| "producer_rank (PPush ms) = (5, length ms)"
| "producer_rank PSleep = (4, 0)"
| "producer_rank PTest = (3, 0)"
| "producer_rank PFail = (3, 0)"
| "producer_rank PClose = (2, 0)"
| "producer_rank PDone = (0, 0)"

fun consumer_rank :: "consumer_pc \<Rightarrow> nat \<times> nat" where
  "consumer_rank CPop = (8, 0)"
| "consumer_rank (CFill b) = (7, SendBatchSize - length b)"
| "consumer_rank (CTry ms) = (6, 0)"
| "consumer_rank (CRetry ms) = (5, 0)"
| "consumer_rank (CSend ms) = (4, 0)"
| "consumer_rank CTest = (3, 0)"
| "consumer_rank CQuit = (2, 0)"
| "consumer_rank CDone = (0, 0)"

fun reporter_rank :: "reporter_pc \<Rightarrow> nat" where
  "reporter_rank RPrint = 2" | "reporter_rank RWait = 1" | "reporter_rank RDone = 0"

fun main_rank :: "main_pc \<Rightarrow> nat" where
  "main_rank MWait = 7" | "main_rank MTest = 6" | "main_rank MStore = 5" | "main_rank MClose = 4"
| "main_rank MJoinProducer = 3" | "main_rank MJoinConsumer = 2" | "main_rank MJoinReporter = 1"
| "main_rank MDone = 0" | "main_rank MAborted = 0"

definition stop_order :: "(client_threads \<times> client_threads) set" where
  "stop_order = measures [\<lambda>t. fst (producer_rank (producerAt t)), \<lambda>t. snd (producer_rank (producerAt t)),
     \<lambda>t. fst (consumer_rank (consumerAt t)), \<lambda>t. snd (consumer_rank (consumerAt t)),
     \<lambda>t. reporter_rank (reporterAt t), \<lambda>t. main_rank (mainAt t)]"

text \<open>A batch that is waited for is never full.\<close>

definition threads_inv :: "client_threads \<Rightarrow> bool" where
  "threads_inv t \<longleftrightarrow>
     (\<forall>b. consumerAt t = CFill b \<longrightarrow> length b < SendBatchSize)
     \<and> (mainAt t \<in> {MJoinProducer, MJoinConsumer, MJoinReporter, MDone} \<longrightarrow> \<not> isRunning t \<and> closed (messageQueue t))
     \<and> (mainAt t = MClose \<longrightarrow> \<not> isRunning t)
     \<and> (mainAt t \<in> {MJoinConsumer, MJoinReporter, MDone} \<longrightarrow> producerAt t = PDone)
     \<and> (mainAt t \<in> {MJoinReporter, MDone} \<longrightarrow> consumerAt t = CDone)
     \<and> (mainAt t = MDone \<longrightarrow> reporterAt t = RDone)"

lemma producer_step_inv: "threads_inv t \<Longrightarrow> producer_step t u \<Longrightarrow> threads_inv u \<and> (\<not> isRunning t \<longrightarrow> \<not> isRunning u)"
  by (erule producer_stepE) (auto simp: threads_inv_def dest: push_closed)

lemma popped_simps [simp]:
  "popped waiting batch = CFill b \<longleftrightarrow> waiting \<and> batch = b" "popped False [] = CDone"
  by (auto simp: popped_def)

lemma consumer_step_inv:
  assumes inv: "threads_inv t" and "consumer_step t u"
  shows "threads_inv u \<and> (\<not> isRunning t \<longrightarrow> \<not> isRunning u)"
  using assms(2)
proof cases
  case (attempts ms pc)
  with inv show ?thesis by (auto simp: threads_inv_def)
next
  case (waits_retry ms pc)
  with inv show ?thesis by (auto simp: threads_inv_def split: if_splits)
next
  case (pops waiting batch q)
  have "closed q = closed (messageQueue t)" using popBatch_closed [OF pops(3)] .
  moreover have "length batch < SendBatchSize" if waiting using pops(3) that by (simp add: popBatch_room)
  ultimately show ?thesis using inv pops(1,2) by (auto simp: threads_inv_def)
next
  case (fills b waiting batch q)
  have "length b < SendBatchSize" using inv fills(2) by (simp add: threads_inv_def)
  then have "length batch < SendBatchSize" if waiting
    using fills(3) resumeBatch_longer [of SendBatchSize b "messageQueue t" batch q] that by simp
  moreover have "closed q = closed (messageQueue t)" using resumeBatch_closed [OF fills(3)] .
  ultimately show ?thesis using inv fills(1,2) by (auto simp: threads_inv_def)
next
  case (expires b waiting batch q)
  with inv expireBatch_closed [OF expires(3)] show ?thesis by (auto simp: threads_inv_def)
qed (use inv in \<open>simp_all add: threads_inv_def\<close>)

lemma reporter_step_inv: "threads_inv t \<Longrightarrow> reporter_step t u \<Longrightarrow> threads_inv u \<and> (\<not> isRunning t \<longrightarrow> \<not> isRunning u)"
  by (erule reporter_stepE) (auto simp: threads_inv_def)

lemma main_step_inv: "threads_inv t \<Longrightarrow> main_step t u \<Longrightarrow> threads_inv u \<and> (\<not> isRunning t \<longrightarrow> \<not> isRunning u)"
  by (erule main_stepE) (auto simp: threads_inv_def)

lemma threads_step_inv: "threads_inv t \<Longrightarrow> threads_step t u \<Longrightarrow> threads_inv u \<and> (\<not> isRunning t \<longrightarrow> \<not> isRunning u)"
  unfolding threads_step_def
  using producer_step_inv consumer_step_inv reporter_step_inv main_step_inv by blast

lemma start_threads_inv: "threads_inv (start_threads recovered)"
  by (simp add: threads_inv_def start_threads_def)

interpretation threads_machine: state_machine threads_step threads_inv
  by unfold_locales (auto dest: threads_step_inv)

interpretation stopping_machine: state_machine threads_step "\<lambda>t. threads_inv t \<and> \<not> isRunning t"
  by unfold_locales (auto dest: threads_step_inv)

text \<open>Every step of a client that is to stop brings it nearer to the end.\<close>

lemma popped_rank: "(waiting \<Longrightarrow> fst (consumer_rank (CFill batch)) < n) \<Longrightarrow> 4 < n \<Longrightarrow> fst (consumer_rank (popped waiting batch)) < n"
  by (simp add: popped_def)

lemma threads_step_rank:
  assumes "threads_inv t" and "\<not> isRunning t" and "threads_step t u"
  shows "(u, t) \<in> stop_order"
proof -
  have "(u, t) \<in> stop_order" if "producer_step t u"
    using that assms(2) by (auto simp: stop_order_def elim!: producer_stepE split: if_splits)
  moreover have "(u, t) \<in> stop_order" if "consumer_step t u"
    using that
  proof cases
    case (fills b waiting batch q)
    then have "length b < SendBatchSize" using assms(1) by (simp add: threads_inv_def)
    then have "length b < length batch \<and> length batch < SendBatchSize" if "waiting"
      using resumeBatch_longer [of SendBatchSize b "messageQueue t" batch q] fills(3) that by simp
    then show ?thesis using fills by (auto simp: stop_order_def popped_def)
  next
    case (expires b waiting batch q)
    then show ?thesis using expireBatch_closed [OF expires(3)] by (auto simp: stop_order_def popped_def)
  qed (use assms(2) in \<open>auto simp: stop_order_def popped_def\<close>)
  moreover have "(u, t) \<in> stop_order" if "reporter_step t u"
    using that assms(2) by (auto simp: stop_order_def elim!: reporter_stepE)
  moreover have "(u, t) \<in> stop_order" if "main_step t u"
    using that assms(2) by (auto simp: stop_order_def elim!: main_stepE)
  ultimately show ?thesis using assms(3) unfolding threads_step_def by blast
qed

text \<open>And as long as the main thread is not at its end, something can move.\<close>

lemma producer_moves:
  assumes "closed (messageQueue t)" and "producerAt t \<noteq> PDone"
  shows "\<exists>u. producer_step t u"
proof (cases "producerAt t")
  case (PLog n ms)
  then show ?thesis by (cases n) (auto intro: producer_step.intros)
next
  case (PPush ms)
  show ?thesis
  proof (cases ms)
    case (Cons m ms')
    moreover have "push m (messageQueue t) = Some (False, messageQueue t)" using assms(1) by (simp add: push_def)
    ultimately show ?thesis using PPush by (auto intro: producer_step.pushes)
  qed (use PPush in \<open>auto intro: producer_step.intros\<close>)
qed (use assms in \<open>auto intro: producer_step.intros\<close>)

lemma consumer_moves:
  assumes "closed (messageQueue t)" and "consumerAt t \<noteq> CDone"
  shows "\<exists>u. consumer_step t u"
proof (cases "consumerAt t")
  case (CSend ms)
  then show ?thesis by (cases ms) (auto intro: consumer_step.intros)
next
  case (CRetry ms)
  have "(if isRunning t then CSend ms else CQuit) \<in> (if isRunning t then {CRetry ms, CSend ms} else {CQuit})" by simp
  with consumer_step.waits_retry [OF CRetry this] show ?thesis by blast
next
  case CPop
  have "popBatch SendBatchSize SendBatchMaxWait (messageQueue t) \<noteq> None"
    "\<And>e. popBatch SendBatchSize SendBatchMaxWait (messageQueue t) \<noteq> Some (Inl e)"
    using assms(1) by (auto simp: popBatch_def SendBatchSize_def SendBatchMaxWait_def)
  then obtain waiting batch q where "popBatch SendBatchSize SendBatchMaxWait (messageQueue t) = Some (Inr (waiting, batch, q))"
    by (metis option.exhaust prod_cases3 sum.exhaust)
  with CPop show ?thesis by (blast intro: consumer_step.pops)
next
  case (CFill b)
  have "resumeBatch SendBatchSize b (messageQueue t) \<noteq> None" using assms(1) by (simp add: resumeBatch_def)
  then obtain waiting batch q where "resumeBatch SendBatchSize b (messageQueue t) = Some (waiting, batch, q)"
    by (metis option.exhaust prod_cases3)
  with CFill show ?thesis by (blast intro: consumer_step.fills)
qed (use assms in \<open>auto intro: consumer_step.intros\<close>)

lemma reporter_moves:
  assumes "reporterAt t \<noteq> RDone"
  shows "\<exists>u. reporter_step t u"
proof (cases "reporterAt t")
  case RWait
  have "(if isRunning t then RPrint else RDone) \<in> (if isRunning t then {RWait, RPrint} else {RDone})" by simp
  with reporter_step.waits_interval [OF RWait this] show ?thesis by blast
qed (use assms in \<open>auto intro: reporter_step.intros\<close>)

lemma threads_move:
  assumes inv: "threads_inv t" and "mainAt t \<notin> {MDone, MAborted}"
  shows "\<exists>u. threads_step t u"
proof (cases "mainAt t")
  case MJoinProducer
  then have "closed (messageQueue t)" using inv by (simp add: threads_inv_def)
  then show ?thesis
    using producer_moves MJoinProducer by (cases "producerAt t = PDone") (auto simp: threads_step_def intro: main_step.intros)
next
  case MJoinConsumer
  then have "closed (messageQueue t)" using inv by (simp add: threads_inv_def)
  then show ?thesis
    using consumer_moves MJoinConsumer by (cases "consumerAt t = CDone") (auto simp: threads_step_def intro: main_step.intros)
next
  case MJoinReporter
  then show ?thesis
    using reporter_moves by (cases "reporterAt t = RDone") (auto simp: threads_step_def intro: main_step.intros)
qed (use assms(2) in \<open>auto simp: threads_step_def intro: main_step.intros\<close>)


section \<open>Properties\<close>

text \<open>
  Property C7. The client stops: from any state of its threads in which \<^verbatim>\<open>running\<close> is false, whatever the
  threads are doing, it stays false, no run goes on for ever, and a run can only end when the main
  thread has joined the other three, all of which have returned, or when \<^verbatim>\<open>waitFor\<close> threw. So there
  is no deadlock between the queue, the joins and the retries.
\<close>

theorem client_stops:
  assumes "threads_step\<^sup>*\<^sup>* (start_threads recovered) t" and "\<not> isRunning t"
  shows "wf {(u, s). threads_step\<^sup>*\<^sup>* t s \<and> threads_step s u}
    \<and> (\<forall>u. threads_step\<^sup>*\<^sup>* t u \<longrightarrow> \<not> isRunning u
      \<and> ((\<exists>v. threads_step u v) \<or> mainAt u = MAborted
          \<or> mainAt u = MDone \<and> producerAt u = PDone \<and> consumerAt u = CDone \<and> reporterAt u = RDone \<and> closed (messageQueue u)))"
proof -
  have t: "threads_inv t" using threads_machine.invariant [OF assms(1) start_threads_inv] .
  have later: "threads_inv u \<and> \<not> isRunning u" if "threads_step\<^sup>*\<^sup>* t u" for u
    using stopping_machine.invariant [OF that] t assms(2) by simp
  then have "{(u, s). threads_step\<^sup>*\<^sup>* t s \<and> threads_step s u} \<subseteq> stop_order" using threads_step_rank by blast
  moreover have "wf stop_order" by (simp add: stop_order_def)
  ultimately have "wf {(u, s). threads_step\<^sup>*\<^sup>* t s \<and> threads_step s u}" by (rule wf_subset [rotated])
  moreover have "mainAt u = MDone \<Longrightarrow> producerAt u = PDone \<and> consumerAt u = CDone \<and> reporterAt u = RDone \<and> closed (messageQueue u)"
    if "threads_step\<^sup>*\<^sup>* t u" for u
    using later [OF that] by (simp add: threads_inv_def)
  ultimately show ?thesis using later threads_move by blast
qed

lemma client_stops_witness:
  "\<exists>t. threads_step\<^sup>*\<^sup>* (start_threads [sample_message 1]) t \<and> producerAt t = PRead \<and> consumerAt t = CTry [sample_message 1]
     \<and> wf {(u, s). threads_step\<^sup>*\<^sup>* t s \<and> threads_step s u}"
proof -
  let ?q = "\<lparr>capacity = 100, queue = [], closed = False\<rparr>"
  let ?t = "\<lambda>r p c m. \<lparr>isRunning = r, messageQueue = ?q, producerAt = p, consumerAt = c, reporterAt = RWait, mainAt = m\<rparr>"
  let ?ms = "[sample_message 1]"
  have 1: "threads_step (?t True PStart (CSend ?ms) MTest) (?t True PTest (CSend ?ms) MTest)"
    using producer_step.opens [of "?t True PStart (CSend ?ms) MTest" PTest] by (simp add: threads_step_def)
  have 2: "threads_step (?t True PTest (CSend ?ms) MTest) (?t True PRead (CSend ?ms) MTest)"
    using producer_step.test [of "?t True PTest (CSend ?ms) MTest"] by (simp add: threads_step_def)
  have 3: "threads_step (?t True PRead (CSend ?ms) MTest) (?t True PRead (CTry ?ms) MTest)"
    using consumer_step.test_send [of "?t True PRead (CSend ?ms) MTest" ?ms] by (simp add: threads_step_def)
  have 4: "threads_step (?t True PRead (CTry ?ms) MTest) (?t True PRead (CTry ?ms) MWait)"
    using main_step.test [of "?t True PRead (CTry ?ms) MTest"] by (simp add: threads_step_def)
  have 5: "threads_step (?t True PRead (CTry ?ms) MWait) (?t False PRead (CTry ?ms) MStore)"
    using main_step.has_signal [of "?t True PRead (CTry ?ms) MWait"] by (simp add: threads_step_def)
  have s: "start_threads ?ms = ?t True PStart (CSend ?ms) MTest" by (simp add: start_threads_def)
  have r: "threads_step\<^sup>*\<^sup>* (start_threads ?ms) (?t False PRead (CTry ?ms) MStore)"
    unfolding s using 1 2 3 4 5 by (meson converse_rtranclp_into_rtranclp rtranclp.rtrancl_refl)
  have "\<not> isRunning (?t False PRead (CTry ?ms) MStore)" by simp
  with client_stops [OF r] r show ?thesis by (intro exI [of _ "?t False PRead (CTry ?ms) MStore"]) simp
qed

end
