(* ===== verification/SharedDisk.thy ===== *)
theory SharedDisk
  imports ClientSessions WalSessions
begin

text \<open>
  The client keeps \<^verbatim>\<open>pending.wal\<close> and \<^verbatim>\<open>client.state\<close> in one directory. No operation on one of them
  touches the other, so the invariants of the two files, proved for each file on its own, hold
  together on the shared disk.
\<close>

section \<open>Confined operations\<close>

definition confined :: "path \<Rightarrow> world \<Rightarrow> world \<Rightarrow> bool" where
  "confined p w w' \<longleftrightarrow> untouched (ownNames p) w w' \<and> owns_file p w'"

lemma confined_refl [simp]: "owns_file p w \<Longrightarrow> confined p w w"
  by (simp add: confined_def)

lemma confined_sched [simp]:
  "confined p (w\<lparr>sched := rs\<rparr>) w' \<longleftrightarrow> confined p w w'" "confined p w (w'\<lparr>sched := rs\<rparr>) \<longleftrightarrow> confined p w w'"
  by (simp_all add: confined_def)

lemma confined_trans: "confined p w w1 \<Longrightarrow> confined p w1 w2 \<Longrightarrow> confined p w w2"
  unfolding confined_def using untouched_trans by blast

lemma writeAtomically_confined:
  assumes "writeAtomically p bs w = (r, w')" and "owns_file p w"
  shows "confined p w w'"
  using runsD [OF runs_writeAtomically assms(1)] assms(2)
  by (auto simp: replaced_def kept_def published_def confined_def intro: untouched_mono)

lemma appendDurably_confined:
  assumes "appendDurably p bs w = (r, w')" and "owns_file p w"
  shows "confined p w w'"
  using runsD [OF runs_appendDurably assms(1)] assms(2) by (auto simp: appended_def confined_def)

lemma readFile_confined:
  assumes "readFile p w = (r, w')" and "owns_file q w"
  shows "confined q w w'"
proof -
  have "w'\<lparr>sched := []\<rparr> = w\<lparr>sched := []\<rparr>" using readFile_result(1) [OF assms(1)] .
  then have "confined q w (w'\<lparr>sched := []\<rparr>)" using assms(2) by (simp only: confined_sched confined_refl)
  then show ?thesis by simp
qed

lemmas confined_calls = writeAtomically_confined appendDurably_confined readFile_confined

text \<open>The operations of the log.\<close>

lemma rewriteLocked_confined:
  "rewriteLocked wl w = (r, w') \<Longrightarrow> owns_file (walPath wl) w \<Longrightarrow> confined (walPath wl) w w'"
  unfolding rewriteLocked_def
  by (cases "foldl (\<lambda>acc m. bindR acc (\<lambda>bs. bindR (serializeLogMessage m) (\<lambda>frame. Inr (bs @ frame)))) (Inr []) (pendingMsgs wl)")
    (auto simp: bindW_def throwW_def doneW_def intro: writeAtomically_confined)

lemma openLog_confined:
  assumes "openLog p w = (r, w')" and "owns_file p w"
  shows "confined p w w'"
proof (cases "p = []")
  case True
  with assms show ?thesis by (simp add: openLog_def throwW_def)
next
  case False
  obtain r0 w0 where r0: "readFile p w = (r0, w0)" by (rule prod.exhaust)
  have c0: "confined p w w0" using readFile_confined [OF r0 assms(2)] .
  then have o: "owns_file p w0" by (simp add: confined_def)
  show ?thesis
  proof (cases r0)
    case (Done bs)
    show ?thesis
    proof (cases "scanLog bs 0 []")
      case (Inl e)
      with assms(1) False r0 Done c0 show ?thesis by (auto simp: openLog_def bindW_def throwW_def)
    next
      case (Inr x)
      obtain ms t where x: "x = (ms, t)" by (rule prod.exhaust)
      let ?wl = "\<lparr>walPath = p, pendingMsgs = ms\<rparr>"
      obtain r1 w1 where w1: "rewriteLocked ?wl w0 = (r1, w1)" by (rule prod.exhaust)
      have "confined p w0 w1" using rewriteLocked_confined [OF w1] o by simp
      moreover have "w' = (if t then w1 else w0)"
        using assms(1) False r0 Done Inr x w1
        by (cases r1) (auto simp: openLog_def bindW_def doneW_def Let_def split: if_splits)
      ultimately show ?thesis using c0 by (auto intro: confined_trans)
    qed
  qed (use assms(1) False r0 c0 in \<open>auto simp: openLog_def bindW_def\<close>)
qed

lemma appendLog_confined:
  "appendLog m wl w = (r, wl', w') \<Longrightarrow> owns_file (walPath wl) w \<Longrightarrow> confined (walPath wl) w w'"
  by (auto simp: appendLog_def split: sum.splits prod.splits outcome.splits intro: appendDurably_confined)

lemma confirmLog_confined:
  assumes "confirmLog k wl w = (r, wl', w')" and "owns_file (walPath wl) w"
  shows "confined (walPath wl) w w'"
  using assms rewriteLocked_confined [of "wl\<lparr>pendingMsgs := filter (\<lambda>m. \<not> msgId m \<le> k) (pendingMsgs wl)\<rparr>" w r w']
  by (auto simp: confirmLog_def Let_def split: if_splits prod.splits)

text \<open>The operations of the state file.\<close>

lemma persistState_confined:
  "persistState st w = (r, w') \<Longrightarrow> owns_file (stPath st) w \<Longrightarrow> confined (stPath st) w w'"
  unfolding persistState_def by (rule writeAtomically_confined)

lemma nextMessageId_confined:
  assumes "nextMessageId st w = (r, st', w')" and "owns_file (stPath st) w"
  shows "confined (stPath st) w w'"
  using assms persistState_confined [of "st\<lparr>stNextId := stNextId st + 1\<rparr>" w _ w']
  by (auto elim!: nextMessageId_cases)

lemma updateFileCheckpoint_confined:
  assumes "updateFileCheckpoint off device inode st w = (r, st', w')" and "owns_file (stPath st) w"
  shows "confined (stPath st) w w'"
  using assms(1)
proof (cases rule: updateFileCheckpoint_cases)
  case same
  with assms(2) show ?thesis by simp
qed (use assms(2) persistState_confined in \<open>fastforce dest: persistState_confined\<close>)+

lemma parseState_path: "parseState p text = Inr st \<Longrightarrow> stPath st = p"
  unfolding parseState_def by (auto simp: bindR_eq_Inr_iff split: if_splits)

lemma openClientState_confined:
  assumes "openClientState random p src ms w = (r, w')" and "owns_file p w"
  shows "confined p w w'"
proof (cases "p = [] \<or> src = []")
  case True
  with assms show ?thesis by (auto simp: openClientState_def throwW_def)
next
  case False
  define fresh where "fresh = \<lparr>stPath = p,
               stClientId = (if ms = [] then generateClientId random else clientId (hd ms)),
               stNextId = 1, stSourcePath = [], stFileOffset = 0, stFileDeviceId = 0, stFileInode = 0\<rparr>"
  let ?exists = "fileAt w p \<noteq> None"
  obtain r1 w1 where first: "(if ?exists then loadState p else doneW fresh) w = (r1, w1)" by (rule prod.exhaust)
  have c1: "confined p w w1"
  proof (cases ?exists)
    case True
    then obtain r0 where "readFile p w = (r0, w1)"
      using first by (cases "readFile p w") (auto simp: loadState_def bindW_def liftR_def throwW_def doneW_def split: outcome.splits sum.splits)
    then show ?thesis using readFile_confined assms(2) by blast
  qed (use first assms(2) in \<open>simp add: doneW_def\<close>)
  have path: "stPath st = p" if "r1 = Done st" for st
    using first that parseState_path by (auto simp: loadState_def bindW_def liftR_def throwW_def doneW_def fresh_def
        split: if_splits outcome.splits sum.splits prod.splits)
  let ?rest = "\<lambda>st. bindW (liftR (reconcileState src ms st)) (\<lambda>(st2, changed).
            if \<not> ?exists \<or> changed then bindW (persistState st2) (\<lambda>_. doneW st2) else doneW st2)"
  have "bindW (if ?exists then loadState p else doneW fresh) ?rest w = (r, w')"
    using assms(1) False by (simp only: openClientState_def Let_def fresh_def if_False)
  then have run: "(case r1 of Done st \<Rightarrow> ?rest st w1 | Throw e \<Rightarrow> (Throw e, w1) | Crash \<Rightarrow> (Crash, w1)) = (r, w')"
    unfolding bindW_def first by simp
  show ?thesis
  proof (cases r1)
    case (Done st)
    show ?thesis
    proof (cases "reconcileState src ms st")
      case (Inl e)
      with run Done c1 show ?thesis by (simp add: throwW_def)
    next
      case (Inr y)
      obtain st2 changed where y: "y = (st2, changed)" by (rule prod.exhaust)
      have "stPath st2 = p" using Inr y path [OF Done]
        by (auto simp: reconcileState_def Let_def bindR_eq_Inr_iff split: if_splits)
      obtain r2 w2 where p: "persistState st2 w1 = (r2, w2)" by (rule prod.exhaust)
      have "confined p w1 w2"
        using persistState_confined [OF p] \<open>stPath st2 = p\<close> c1 by (simp add: confined_def)
      with run Done Inr y p c1 show ?thesis
        by (auto simp: bindW_def doneW_def split: if_splits outcome.splits intro: confined_trans)
    qed
  qed (use run c1 in auto)
qed


section \<open>Invariants next to the other file\<close>

lemma wal_inv_beside:
  assumes "wal_inv c p s" and "confined q (walDisk s) w" and "ownNames p \<inter> ownNames q = {}"
  shows "wal_inv c p (s\<lparr>walDisk := w\<rparr>)"
proof -
  let ?t = "s\<lparr>walDisk := w\<rparr>"
  have u: "untouched (ownNames q) (walDisk s) w" "owns_file q w" using assms(2) by (simp_all add: confined_def)
  have "p \<notin> ownNames q" using assms(3) by auto
  then have f: "fileAt w p = fileAt (walDisk s) p" using untouched_fileAt [OF u(1) owns_file_wf [OF u(2)]] by simp
  then have cont: "contents w p = contents (walDisk s) p" by (rule contents_cong)
  have cov: "covers c ?t ms \<longleftrightarrow> covers c s ms" for ms by (simp add: covers_def outstanding_def)
  obtain L where "disk_within p (wal_files c L) (walDisk s)" and L: "\<forall>ms \<in> L. covers c s ms"
    using assms(1) unfolding wal_inv_def by blast
  then have "disk_within p (wal_files c L) w" using disk_within_other u assms(3) by blast
  then show ?thesis
    using assms(1) L cont by (auto simp: wal_inv_def cov)
qed

lemma session_inv_beside:
  assumes "session_inv p s" and "confined q (disk s) w" and "ownNames p \<inter> ownNames q = {}"
  shows "session_inv p (s\<lparr>disk := w\<rparr>)"
proof -
  have u: "untouched (ownNames q) (disk s) w" "owns_file q w" using assms(2) by (simp_all add: confined_def)
  obtain X S where X: "X \<subseteq> {None}" "X \<noteq> {} \<Longrightarrow> issued s = []"
    and d: "disk_within p (X \<union> state_files p S) (disk s)" and S: "\<And>st. st \<in> S \<Longrightarrow> beyond p (issued s) st"
    and l: "\<And>st. live s = Some st \<Longrightarrow> beyond p (issued s) st"
    and sorted: "sorted_wrt (<) (map snd (issued s))"
    using assms(1) unfolding session_inv_def by blast
  have "disk_within p (X \<union> state_files p S) w" using disk_within_other [OF d u assms(3)] .
  with X S l sorted show ?thesis by (intro session_invI [where X = X and S = S]) auto
qed

text \<open>Before the first message any client id will do.\<close>

lemma wal_inv_unused:
  assumes "wal_inv c p s" and "attempted s = []"
  shows "wal_inv d p s"
proof -
  have cov: "covers c s ms \<longleftrightarrow> ms = [] \<and> outstanding s = {}" for c ms
    using assms(2) by (auto simp: covers_def)
  then have "wal_files c L = wal_files d L" if "\<forall>ms \<in> L. covers c s ms" for L
    using that by (force simp: wal_files_def)
  with assms(1) cov show ?thesis unfolding wal_inv_def by metis
qed

end
