(* ===== verification/System.thy ===== *)
theory System
  imports SharedDisk ServerMain ClientMain
begin

text \<open>
  The two programs together: one client with its two files, one server with its own, the batches
  between them. The steps are the operations of the components, in the order in which
  \<^verbatim>\<open>src/src/main.cpp\<close> and \<^verbatim>\<open>src/src/ServerMain.cpp\<close> may call them, with any interleaving of producer,
  consumer and server, and with failures, process crashes and power losses anywhere. The network
  may delay, repeat and lose batches and acknowledgements.
\<close>

section \<open>The system\<close>

text \<open>
  \<open>inHand\<close> is an id given out and not yet used, \<open>sending\<close> what the consumer has still to deliver in this
  run, in its order. \<open>inFlight\<close> are all batches ever sent, \<open>acksSent\<close> the ids of the complete
  acknowledgements that answered them, and \<open>printout\<close> is everything the server ever printed.
\<close>

record system =
  ids :: session
  journal :: wal_session
  inHand :: "u64 option"
  sending :: "LogMessage list"
  inFlight :: "LogMessage list set"
  acksSent :: "u64 set"
  srv :: "ServerRun option"
  srvDisk :: world
  printout :: "LogMessage list"

abbreviation walFile :: "path \<Rightarrow> path" where "walFile dir \<equiv> dir @ ''/pending.wal''"
abbreviation stateFile :: "path \<Rightarrow> path" where "stateFile dir \<equiv> dir @ ''/client.state''"

abbreviation client_disk :: "system \<Rightarrow> sysres list \<Rightarrow> world" where
  "client_disk s rs \<equiv> on_disk (ids s) rs"

abbreviation server_disk :: "system \<Rightarrow> sysres list \<Rightarrow> world" where
  "server_disk s rs \<equiv> (srvDisk s)\<lparr>sched := rs\<rparr>"

text \<open>The client after a call: the disk, and the two objects, gone when the process died.\<close>

definition client_at :: "ClientState option \<Rightarrow> WriteAheadLog option \<Rightarrow> world \<Rightarrow> system \<Rightarrow> system" where
  "client_at st wl w s = s\<lparr>ids := (ids s)\<lparr>live := st, disk := w\<rparr>, journal := (journal s)\<lparr>wal := wl, walDisk := w\<rparr>\<rparr>"

text \<open>
  The acknowledgement that \<^verbatim>\<open>sendLogBatchAndWaitAck\<close> reads was sent by the server, at some time. The
  confirmation happens when there is a connection and the acknowledgement arrived.
\<close>

definition from_server :: "u64 set \<Rightarrow> event list \<Rightarrow> bool" where
  "from_server ks evs \<longleftrightarrow> (\<forall>k later. bytes_of evs = serializeAck k @ later \<longrightarrow> k \<in> ks)"

definition confirms :: "bool \<Rightarrow> attempt \<Rightarrow> LogMessage list \<Rightarrow> bool" where
  "confirms isConnected a batch \<longleftrightarrow> (isConnected \<or> atConnect a = None) \<and> acknowledged a batch"

text \<open>A group that arrives is a batch of this client, or another client's, with an id of its own.\<close>

definition arrives :: "string set \<Rightarrow> system \<Rightarrow> LogMessage list \<Rightarrow> bool" where
  "arrives others s ms \<longleftrightarrow> ms \<in> inFlight s \<or> clientId (hd ms) \<in> others \<and> plain_id (clientId (hd ms))"

inductive system_step :: "string set \<Rightarrow> path \<Rightarrow> path \<Rightarrow> system \<Rightarrow> system \<Rightarrow> bool" for others dir sp where
  start_client: "live (ids s) = None \<Longrightarrow> wal (journal s) = None \<Longrightarrow> newline \<notin> set logPath \<Longrightarrow>
    startClient (Some logPath) portArg (Some dir) logExists random (client_disk s rs) = (Some (Inr (port, recovered, wl, st)), w) \<Longrightarrow>
    stClientId st \<notin> others \<Longrightarrow>
    system_step others dir sp s
      ((client_at (Some st) (Some wl) w s)\<lparr>journal := (journal s)\<lparr>wal := Some wl, healthy := True, walDisk := w\<rparr>,
         inHand := None, sending := recovered\<rparr>)"
| start_client_fails: "live (ids s) = None \<Longrightarrow> wal (journal s) = None \<Longrightarrow> newline \<notin> set logPath \<Longrightarrow>
    startClient (Some logPath) portArg (Some dir) logExists random (client_disk s rs) = (r, w) \<Longrightarrow> \<nexists>x. r = Some (Inr x) \<Longrightarrow>
    system_step others dir sp s (client_at None None w s)"
| allocate: "live (ids s) = Some st \<Longrightarrow> nextMessageId st (client_disk s rs) = (r, st', w) \<Longrightarrow>
    system_step others dir sp s
      ((client_at (unless_crashed r st') (if r = Crash then None else wal (journal s)) w s)
         \<lparr>ids := \<lparr>issued = issued (ids s) @ (case r of Done i \<Rightarrow> [(stClientId st, i)] | _ \<Rightarrow> []),
                  live = unless_crashed r st', disk = w\<rparr>,
          inHand := (case r of Done i \<Rightarrow> Some i | _ \<Rightarrow> None)\<rparr>)"
| append_log: "live (ids s) = Some st \<Longrightarrow> wal (journal s) = Some wl \<Longrightarrow> healthy (journal s) \<Longrightarrow> inHand s = Some i \<Longrightarrow>
    m = \<lparr>msgId = i, clientId = stClientId st, timestampMs = now, source = logPath, content = line\<rparr> \<Longrightarrow>
    appendLog m wl (client_disk s rs) = (r, wl', w) \<Longrightarrow>
    system_step others dir sp s
      ((client_at (if r = Crash then None else Some st) (unless_crashed r wl') w s)
         \<lparr>journal := (journal s)\<lparr>attempted := attempted (journal s) @ [m],
             logged := logged (journal s) @ (if r = Done () then [m] else []),
             wal := unless_crashed r wl', healthy := (r = Done ()), walDisk := w\<rparr>,
          inHand := None, sending := sending s @ (if r = Done () then [m] else [])\<rparr>)"
| checkpoint: "live (ids s) = Some st \<Longrightarrow>
    updateFileCheckpoint off device inode st (client_disk s rs) = (r, st', w) \<Longrightarrow>
    system_step others dir sp s
      (client_at (unless_crashed r st') (if r = Crash then None else wal (journal s)) w s)"
| transmit: "wal (journal s) \<noteq> None \<Longrightarrow> 0 < n \<Longrightarrow> n \<le> SendBatchSize \<Longrightarrow> sending s \<noteq> [] \<Longrightarrow>
    system_step others dir sp s (s\<lparr>inFlight := insert (take n (sending s)) (inFlight s)\<rparr>)"
| deliver: "live (ids s) = Some st \<Longrightarrow> wal (journal s) = Some wl \<Longrightarrow> 0 < n \<Longrightarrow> take n (sending s) \<in> inFlight s \<Longrightarrow>
    from_server (acksSent s) (atEvents a) \<Longrightarrow>
    tryDeliver a (take n (sending s)) \<lparr>connected = isConnected, senderWal = wl, senderMetrics = mt, waits = ws\<rparr> (client_disk s rs)
      = (r, snd', w) \<Longrightarrow>
    system_step others dir sp s
      ((client_at (if r = Inr Crashed then None else Some st) (if r = Inr Crashed then None else Some (senderWal snd')) w s)
         \<lparr>journal := (journal s)\<lparr>acked := acked (journal s) @ (if confirms isConnected a (take n (sending s)) then [msgId (last (take n (sending s)))] else []),
             wal := (if r = Inr Crashed then None else Some (senderWal snd')), walDisk := w\<rparr>,
          sending := (if r = Inr Delivered then drop n (sending s) else sending s)\<rparr>)"
| stop_client: "system_step others dir sp s (client_at None None (disk (ids s)) s)"
| client_power_loss: "power_loss (disk (ids s)) w \<Longrightarrow> system_step others dir sp s (client_at None None w s)"
| start_server: "srv s = None \<Longrightarrow> openDedupStore sp (server_disk s rs) = (r, w) \<Longrightarrow>
    system_step others dir sp s
      (s\<lparr>srv := (case r of Done d \<Rightarrow> Some \<lparr>dedup = d, metrics = noServerMetrics, printed = []\<rparr> | _ \<Rightarrow> None), srvDisk := w\<rparr>)"
| handle: "srv s = Some sv \<Longrightarrow> receiveLogBatch tcp evs = (Returned (Some ms), evs') \<Longrightarrow> arrives others s ms \<Longrightarrow>
    handleGroup tcp ms sends sv (server_disk s rs) = (r, bs, sends', sv', w) \<Longrightarrow>
    system_step others dir sp s
      (s\<lparr>srv := (if r = Died then None else Some sv'), srvDisk := w,
         printout := printout s @ drop (length (printed sv)) (printed sv'),
         acksSent := (if ms \<in> inFlight s \<and> bs = serializeAck (msgId (last ms)) then insert (msgId (last ms)) (acksSent s) else acksSent s)\<rparr>)"
| crash_printing: "srv s = Some sv \<Longrightarrow> receiveLogBatch tcp evs = (Returned (Some ms), evs') \<Longrightarrow> arrives others s ms \<Longrightarrow>
    system_step others dir sp s (s\<lparr>srv := None, printout := printout s @ take n (fresh_messages (dedup sv) ms)\<rparr>)"
| stop_server: "system_step others dir sp s (s\<lparr>srv := None\<rparr>)"
| server_power_loss: "power_loss (srvDisk s) w \<Longrightarrow> system_step others dir sp s (s\<lparr>srv := None, srvDisk := w\<rparr>)"

abbreviation system_reach :: "string set \<Rightarrow> path \<Rightarrow> path \<Rightarrow> system \<Rightarrow> system \<Rightarrow> bool" where
  "system_reach others dir sp \<equiv> (system_step others dir sp)\<^sup>*\<^sup>*"

lemma system_once: "system_step others dir sp s t \<Longrightarrow> system_reach others dir sp s t"
  and system_on: "system_reach others dir sp s t \<Longrightarrow> system_step others dir sp t u \<Longrightarrow> system_reach others dir sp s u"
  by (auto intro: reach_intros)

definition first_system :: "path \<Rightarrow> path \<Rightarrow> system \<Rightarrow> bool" where
  "first_system dir sp s \<longleftrightarrow> first_session (stateFile dir) (ids s) \<and> first_wal (walFile dir) (journal s)
     \<and> walDisk (journal s) = disk (ids s) \<and> inHand s = None \<and> sending s = [] \<and> inFlight s = {} \<and> acksSent s = {}
     \<and> srv s = None \<and> disk_within sp {None} (srvDisk s) \<and> printout s = []"

end
