(* ===== verification/SystemClient.thy ===== *)
theory SystemClient
  imports System
begin

text \<open>
  The client's files over the steps of the system: \<^verbatim>\<open>pending.wal\<close> and \<^verbatim>\<open>client.state\<close> keep their invariants
  next to each other, and every message given to the log carries an id given out to it.
\<close>

section \<open>The client's files\<close>

definition client_inv :: "string set \<Rightarrow> path \<Rightarrow> session \<Rightarrow> wal_session \<Rightarrow> u64 option \<Rightarrow> bool" where
  "client_inv others dir i j h \<longleftrightarrow>
     session_inv (stateFile dir) i \<and> walDisk j = disk i
     \<and> (\<exists>c. wal_inv c (walFile dir) j \<and> (\<forall>m \<in> set (attempted j). clientId m = c))
     \<and> (\<forall>m \<in> set (attempted j). (clientId m, msgId m) \<in> set (issued i) \<and> msgId m \<noteq> 0
          \<and> plain_id (clientId m) \<and> clientId m \<notin> others)
     \<and> set (logged j) \<subseteq> set (attempted j)
     \<and> (\<forall>st. live i = Some st \<longrightarrow> stClientId st \<notin> others)
     \<and> (\<forall>st k. live i = Some st \<and> h = Some k \<longrightarrow> (stClientId st, k) \<in> set (issued i) \<and> k \<noteq> 0
          \<and> (\<forall>m \<in> set (attempted j). msgId m < k))"

lemma client_invD:
  assumes "client_inv others dir i j h"
  shows "session_inv (stateFile dir) i" and "walDisk j = disk i"
    and "\<exists>c. wal_inv c (walFile dir) j \<and> (\<forall>m \<in> set (attempted j). clientId m = c)"
    and "\<And>m. m \<in> set (attempted j) \<Longrightarrow> (clientId m, msgId m) \<in> set (issued i) \<and> msgId m \<noteq> 0
          \<and> plain_id (clientId m) \<and> clientId m \<notin> others"
    and "set (logged j) \<subseteq> set (attempted j)"
    and "\<And>st. live i = Some st \<Longrightarrow> stClientId st \<notin> others"
    and "\<And>st k. live i = Some st \<Longrightarrow> h = Some k \<Longrightarrow> (stClientId st, k) \<in> set (issued i) \<and> k \<noteq> 0
          \<and> (\<forall>m \<in> set (attempted j). msgId m < k)"
  using assms unfolding client_inv_def by blast+

lemma client_invI:
  assumes "session_inv (stateFile dir) i" and "walDisk j = disk i"
    and "wal_inv c (walFile dir) j" and "\<And>m. m \<in> set (attempted j) \<Longrightarrow> clientId m = c"
    and "\<And>m. m \<in> set (attempted j) \<Longrightarrow> (clientId m, msgId m) \<in> set (issued i) \<and> msgId m \<noteq> 0
          \<and> plain_id (clientId m) \<and> clientId m \<notin> others"
    and "set (logged j) \<subseteq> set (attempted j)"
    and "\<And>st. live i = Some st \<Longrightarrow> stClientId st \<notin> others"
    and "\<And>st k. live i = Some st \<Longrightarrow> h = Some k \<Longrightarrow> (stClientId st, k) \<in> set (issued i) \<and> k \<noteq> 0
          \<and> (\<forall>m \<in> set (attempted j). msgId m < k)"
  shows "client_inv others dir i j h"
  using assms unfolding client_inv_def by blast

text \<open>The two files of the client are different, with their temporaries.\<close>

lemma client_files_apart [simp]:
  "ownNames (walFile dir) \<inter> ownNames (stateFile dir) = {}"
  "ownNames (stateFile dir) \<inter> ownNames (walFile dir) = {}"
  by (auto simp: temporaryOf_def)

lemma wal_inv_owns: "wal_inv c p j \<Longrightarrow> owns_file p (walDisk j)"
  unfolding wal_inv_def by auto

lemma session_inv_owns: "session_inv p i \<Longrightarrow> owns_file p (disk i)"
  unfolding session_inv_def by auto

lemma wal_inv_drop:
  assumes "wal_inv c p j"
  shows "wal_inv c p (j\<lparr>wal := None, healthy := h\<rparr>)"
proof -
  have "covers c (j\<lparr>wal := None, healthy := h\<rparr>) ms \<longleftrightarrow> covers c j ms" for ms
    by (simp add: covers_def outstanding_def)
  with assms show ?thesis unfolding wal_inv_def by simp
qed

lemma session_inv_drop: "session_inv p i \<Longrightarrow> session_inv p (i\<lparr>live := None\<rparr>)"
  using client_step_inv client_step.stop by blast

lemma wal_inv_next:
  assumes "wal_inv c p j" and "confined q (walDisk j) w" and "ownNames p \<inter> ownNames q = {}"
  shows "wal_inv c p (j\<lparr>wal := (if dead then None else wal j), walDisk := w\<rparr>)"
proof -
  have b: "wal_inv c p (j\<lparr>walDisk := w\<rparr>)" using wal_inv_beside [OF assms] .
  show ?thesis
    using wal_inv_drop [OF b, of "healthy j"] b by (cases j) (cases dead; simp)
qed

lemma session_inv_next:
  assumes "session_inv p i" and "confined q (disk i) w" and "ownNames p \<inter> ownNames q = {}"
  shows "session_inv p (i\<lparr>live := (if dead then None else live i), disk := w\<rparr>)"
proof -
  have b: "session_inv p (i\<lparr>disk := w\<rparr>)" using session_inv_beside [OF assms] .
  show ?thesis
    using session_inv_drop [OF b] b by (cases i) (cases dead; simp)
qed


section \<open>The client's steps\<close>

lemma startClient_cases:
  assumes "startClient (Some logPath) portArg (Some dir) logExists random w = (r, w')"
  obtains (early) "w' = w" "\<nexists>x. r = Some (Inr x)"
  | (no_log) r1 where "openLog (walFile dir) w = (r1, w')" "\<And>wl. r1 \<noteq> Done wl" "\<nexists>x. r = Some (Inr x)"
  | (log) wl w1 r2 where "openLog (walFile dir) w = (Done wl, w1)"
      "openClientState random (stateFile dir) logPath (pendingMsgs wl) w1 = (r2, w')"
      "\<And>port ms wl' st. r = Some (Inr (port, ms, wl', st)) \<Longrightarrow> r2 = Done st \<and> ms = pendingMsgs wl \<and> wl' = wl"
      "\<nexists>x. r = Some (Inr x) \<Longrightarrow> \<nexists>st. r2 = Done st"
proof -
  obtain r1 w1 where l: "openLog (walFile dir) w = (r1, w1)" by (rule prod.exhaust)
  obtain pr where pr: "parsePort (case portArg of None \<Rightarrow> ''9000'' | Some t \<Rightarrow> t) = pr" by blast
  show ?thesis
  proof (cases "(\<exists>e. pr = Inl e) \<or> \<not> logExists")
    case True
    with assms pr show ?thesis by (intro early) (auto simp: startClient_def split: sum.splits if_splits)
  next
    case False
    then obtain port where port: "pr = Inr port" by (cases pr) auto
    show ?thesis
    proof (cases r1)
      case (Done wl)
      obtain r2 w2 where o: "openClientState random (stateFile dir) logPath (pendingMsgs wl) w1 = (r2, w2)"
        by (rule prod.exhaust)
      have "r = (case r2 of Throw e \<Rightarrow> Some (Inl 1) | Crash \<Rightarrow> None | Done st \<Rightarrow> Some (Inr (port, pendingMsgs wl, wl, st))) \<and> w' = w2"
        using assms pr port False l Done o by (cases r2) (simp_all add: startClient_def Let_def)
      with l o Done show ?thesis
        by (intro log [of wl w1 r2]) (auto split: outcome.splits)
    qed (use assms pr port False l in \<open>auto simp: startClient_def Let_def intro: no_log [of r1]\<close>)
  qed
qed


lemma pending_attempted:
  "wal_inv c p j \<Longrightarrow> wal j = Some wl \<Longrightarrow> set (pendingMsgs wl) \<subseteq> set (attempted j) \<and> outstanding j \<subseteq> set (pendingMsgs wl)
     \<and> valid_log c (pendingMsgs wl) \<and> walPath wl = p"
  unfolding wal_inv_def covers_def by blast

lemma client_owns:
  assumes "client_inv others dir i j h"
  shows "owns_file (walFile dir) (on_disk i rs)" and "owns_file (stateFile dir) (on_disk i rs)"
  using client_invD(1-3) [OF assms] wal_inv_owns session_inv_owns by fastforce+

lemma start_inv:
  assumes inv: "client_inv others dir i j h" and none: "live i = None" "wal j = None" and src: "newline \<notin> set logPath"
    and run: "startClient (Some logPath) portArg (Some dir) logExists random (on_disk i rs) = (r, w)"
  shows "r = Some (Inr (port, ms, wl, st)) \<Longrightarrow> stClientId st \<notin> others \<Longrightarrow> ms = pendingMsgs wl \<and>
      client_inv others dir (i\<lparr>live := Some st, disk := w\<rparr>) (j\<lparr>wal := Some wl, healthy := True, walDisk := w\<rparr>) None"
    and "\<nexists>x. r = Some (Inr x) \<Longrightarrow> client_inv others dir (i\<lparr>live := None, disk := w\<rparr>) (j\<lparr>wal := None, walDisk := w\<rparr>) h"
proof -
  note I = client_invD [OF inv]
  obtain c where c: "wal_inv c (walFile dir) j" "\<forall>m \<in> set (attempted j). clientId m = c" using I(3) by blast
  have dsk: "wal_on_disk j rs = on_disk i rs" by (simp add: I(2))
  have own: "owns_file (walFile dir) (on_disk i rs)" using client_owns [OF inv] by blast
  have result: "client_inv others dir (i\<lparr>live := li, disk := w\<rparr>) (j\<lparr>wal := wl, healthy := hl, walDisk := w\<rparr>) h'"
    if "session_inv (stateFile dir) (i\<lparr>live := li, disk := w\<rparr>)"
      and "wal_inv c (walFile dir) (j\<lparr>wal := wl, healthy := hl, walDisk := w\<rparr>)"
      and "\<And>st. li = Some st \<Longrightarrow> stClientId st \<notin> others" and "li = None \<or> h' = None" for li wl hl h'
    using that I c by (intro client_invI [where c = c]) auto
  have keep: "j\<lparr>wal := None, walDisk := w\<rparr> = j\<lparr>wal := None, healthy := healthy j, walDisk := w\<rparr>" by (cases j) simp
  have "(\<forall>port ms wl st. r = Some (Inr (port, ms, wl, st)) \<longrightarrow> stClientId st \<notin> others \<longrightarrow> ms = pendingMsgs wl \<and>
      client_inv others dir (i\<lparr>live := Some st, disk := w\<rparr>) (j\<lparr>wal := Some wl, healthy := True, walDisk := w\<rparr>) None)
    \<and> ((\<nexists>x. r = Some (Inr x)) \<longrightarrow>
      client_inv others dir (i\<lparr>live := None, disk := w\<rparr>) (j\<lparr>wal := None, healthy := healthy j, walDisk := w\<rparr>) h)"
    using run
  proof (cases rule: startClient_cases)
    case early
    then have cf: "confined (stateFile dir) (walDisk j) w" "confined (walFile dir) (disk i) w"
      using client_owns [OF inv, of rs] by (simp_all add: I(2))
    have i: "session_inv (stateFile dir) (i\<lparr>live := None, disk := w\<rparr>)"
      using session_inv_next [OF I(1) cf(2) client_files_apart(2), of True] by simp
    have "wal_inv c (walFile dir) (j\<lparr>wal := None, walDisk := w\<rparr>)"
      using wal_inv_next [OF c(1) cf(1) client_files_apart(1), of True] by simp
    note i this [unfolded keep]
    with early(2) result [where li = None and wl = None and hl = "healthy j" and h' = h] show ?thesis by simp
  next
    case (no_log r1)
    have cf: "confined (walFile dir) (disk i) w" using openLog_confined [OF no_log(1) own] by simp
    have "wal_inv c (walFile dir) (j\<lparr>wal := (case r1 of Done st \<Rightarrow> Some st | _ \<Rightarrow> None), healthy := True, walDisk := w\<rparr>)"
      using wal_step_inv [OF c(1) wal_step.open_log [OF none(2)]] no_log(1) dsk by metis
    from wal_inv_drop [OF this, of "healthy j"]
    have "wal_inv c (walFile dir) (j\<lparr>wal := None, healthy := healthy j, walDisk := w\<rparr>)" by (cases j) simp
    with no_log(3) session_inv_next [OF I(1) cf client_files_apart(2), of True]
      result [where li = None and wl = None and hl = "healthy j" and h' = h] show ?thesis by simp
  next
    case (log wl w1 r2)
    have cf: "confined (walFile dir) (disk i) w1" using openLog_confined [OF log(1) own] by simp
    let ?j = "j\<lparr>wal := Some wl, healthy := True, walDisk := w1\<rparr>"
    have j: "wal_inv c (walFile dir) ?j"
      using wal_step_inv [OF c(1) wal_step.open_log [OF none(2), of "walFile dir" rs "Done wl" w1]] log(1) dsk by simp
    have i: "session_inv (stateFile dir) (i\<lparr>disk := w1\<rparr>)"
      using session_inv_beside [OF I(1) cf] by simp
    have "\<forall>m \<in> set (pendingMsgs wl). plain_id (clientId m)"
      using pending_attempted [OF j] I(4) by auto
    then have "client_step (stateFile dir) (i\<lparr>disk := w1\<rparr>)
        ((i\<lparr>disk := w1\<rparr>)\<lparr>live := (case r2 of Done st \<Rightarrow> Some st | _ \<Rightarrow> None), disk := w\<rparr>)"
      using client_step.start [of "i\<lparr>disk := w1\<rparr>" logPath "pendingMsgs wl" random "stateFile dir" "sched w1" r2 w]
        log(2) none(1) src by simp
    from client_step_inv [OF i this]
    have i': "session_inv (stateFile dir) (i\<lparr>live := (case r2 of Done st \<Rightarrow> Some st | _ \<Rightarrow> None), disk := w\<rparr>)" by simp
    have "confined (stateFile dir) (walDisk ?j) w"
      using openClientState_confined [OF log(2)] session_inv_owns [OF i] by simp
    from wal_inv_beside [OF j this]
    have j': "wal_inv c (walFile dir) (j\<lparr>wal := Some wl, healthy := True, walDisk := w\<rparr>)" by simp
    from wal_inv_drop [OF this, of "healthy j"]
    have j'': "wal_inv c (walFile dir) (j\<lparr>wal := None, healthy := healthy j, walDisk := w\<rparr>)" by (cases j) simp
    show ?thesis
    proof (intro conjI allI impI)
      fix port ms wl' st
      assume "r = Some (Inr (port, ms, wl', st))" and o: "stClientId st \<notin> others"
      from log(3) [OF this(1)] have e: "r2 = Done st" "ms = pendingMsgs wl" "wl' = wl" by simp_all
      then show "ms = pendingMsgs wl'" by simp
      show "client_inv others dir (i\<lparr>live := Some st, disk := w\<rparr>) (j\<lparr>wal := Some wl', healthy := True, walDisk := w\<rparr>) None"
        using result [where li = "Some st" and h' = None, OF _ j'] i' e o by simp
    next
      assume "\<nexists>x. r = Some (Inr x)"
      then have "(case r2 of Done st \<Rightarrow> Some st | _ \<Rightarrow> None) = None" using log(4) by (auto split: outcome.splits)
      with i' have "session_inv (stateFile dir) (i\<lparr>live := None, disk := w\<rparr>)" by simp
      from result [OF this j''] show "client_inv others dir (i\<lparr>live := None, disk := w\<rparr>)
          (j\<lparr>wal := None, healthy := healthy j, walDisk := w\<rparr>) h" by simp
    qed
  qed
  then show "r = Some (Inr (port, ms, wl, st)) \<Longrightarrow> stClientId st \<notin> others \<Longrightarrow> ms = pendingMsgs wl \<and>
      client_inv others dir (i\<lparr>live := Some st, disk := w\<rparr>) (j\<lparr>wal := Some wl, healthy := True, walDisk := w\<rparr>) None"
    and "\<nexists>x. r = Some (Inr x) \<Longrightarrow> client_inv others dir (i\<lparr>live := None, disk := w\<rparr>) (j\<lparr>wal := None, walDisk := w\<rparr>) h"
    unfolding keep by blast+
qed

text \<open>When a call touches only one of the files, the other one's invariant is carried along.\<close>

lemma live_beyond: "session_inv p i \<Longrightarrow> live i = Some st \<Longrightarrow> beyond p (issued i) st"
  unfolding session_inv_def by blast

lemma client_inv_state:
  assumes inv: "client_inv others dir i j h" and cf: "confined (stateFile dir) (disk i) w"
    and s: "session_inv (stateFile dir) (i\<lparr>issued := out, live := li, disk := w\<rparr>)" and out: "set (issued i) \<subseteq> set out"
    and li: "\<And>st. li = Some st \<Longrightarrow> stClientId st \<notin> others"
    and h: "\<And>st k. li = Some st \<Longrightarrow> h' = Some k \<Longrightarrow> (stClientId st, k) \<in> set out \<and> k \<noteq> 0
          \<and> (\<forall>m \<in> set (attempted j). msgId m < k)"
  shows "client_inv others dir (i\<lparr>issued := out, live := li, disk := w\<rparr>) (j\<lparr>wal := (if dead then None else wal j), walDisk := w\<rparr>) h'"
proof -
  note I = client_invD [OF inv]
  obtain c where c: "wal_inv c (walFile dir) j" "\<forall>m \<in> set (attempted j). clientId m = c" using I(3) by blast
  have "confined (stateFile dir) (walDisk j) w" using cf I(2) by simp
  from wal_inv_next [OF c(1) this client_files_apart(1)]
  have "wal_inv c (walFile dir) (j\<lparr>wal := (if dead then None else wal j), walDisk := w\<rparr>)" .
  then show ?thesis using s c(2) I(4,5) out li h by (intro client_invI [where c = c]) auto
qed

lemma allocate_inv:
  assumes inv: "client_inv others dir i j h" and st: "live i = Some st" and run: "nextMessageId st (on_disk i rs) = (r, st', w)"
  shows "client_inv others dir
     \<lparr>issued = issued i @ (case r of Done k \<Rightarrow> [(stClientId st, k)] | _ \<Rightarrow> []), live = unless_crashed r st', disk = w\<rparr>
     (j\<lparr>wal := (if r = Crash then None else wal j), walDisk := w\<rparr>) (case r of Done k \<Rightarrow> Some k | _ \<Rightarrow> None)"
proof -
  note I = client_invD [OF inv]
  have b: "beyond (stateFile dir) (issued i) st" using live_beyond [OF I(1) st] .
  then have path: "stPath st = stateFile dir" and nz: "stNextId st \<noteq> 0" by (simp_all add: beyond_def ok_state_def)
  have cf: "confined (stateFile dir) (disk i) w"
    using nextMessageId_confined [OF run] client_owns [OF inv] path by simp
  have id: "stClientId st' = stClientId st" if "r \<noteq> Crash"
    using run that by (cases rule: nextMessageId_cases) simp_all
  have k: "k = stNextId st" if "r = Done k" for k using run that by (auto elim!: nextMessageId_cases)
  have older: "msgId m < stNextId st" if "m \<in> set (attempted j)" for m
    using I(4) [OF that] b unfolding beyond_def by blast
  let ?out = "issued i @ (case r of Done k \<Rightarrow> [(stClientId st, k)] | _ \<Rightarrow> [])"
  have s: "session_inv (stateFile dir) (i\<lparr>issued := ?out, live := unless_crashed r st', disk := w\<rparr>)"
    using client_step_inv [OF I(1) client_step.allocate [OF st run]] by (simp add: still_live_def unless_crashed_def)
  have eq: "i\<lparr>issued := ?out, live := unless_crashed r st', disk := w\<rparr>
      = \<lparr>issued = ?out, live = unless_crashed r st', disk = w\<rparr>" by (cases i) simp
  have hand: "(stClientId s, k) \<in> set ?out \<and> k \<noteq> 0 \<and> (\<forall>m \<in> set (attempted j). msgId m < k)"
    if "unless_crashed r st' = Some s" "(case r of Done k \<Rightarrow> Some k | _ \<Rightarrow> None) = Some k" for s k
    using that id k nz older by (auto simp: unless_crashed_def split: outcome.splits)
  have own: "stClientId s \<notin> others" if "unless_crashed r st' = Some s" for s
    using that id I(6) [OF st] by (auto simp: unless_crashed_def split: if_splits)
  have sub: "set (issued i) \<subseteq> set ?out" by simp
  from client_inv_state [OF inv cf s sub own hand] show ?thesis unfolding eq .
qed

lemma checkpoint_inv:
  assumes inv: "client_inv others dir i j h" and st: "live i = Some st"
    and run: "updateFileCheckpoint off device inode st (on_disk i rs) = (r, st', w)"
  shows "client_inv others dir (i\<lparr>live := unless_crashed r st', disk := w\<rparr>)
     (j\<lparr>wal := (if r = Crash then None else wal j), walDisk := w\<rparr>) h"
proof -
  note I = client_invD [OF inv]
  have path: "stPath st = stateFile dir"
    using live_beyond [OF I(1) st] by (simp add: beyond_def ok_state_def)
  have cf: "confined (stateFile dir) (disk i) w"
    using updateFileCheckpoint_confined [OF run] client_owns [OF inv] path by simp
  have id: "stClientId st' = stClientId st" if "r \<noteq> Crash"
    using run that by (cases rule: updateFileCheckpoint_cases) simp_all
  have same: "i\<lparr>issued := issued i, live := unless_crashed r st', disk := w\<rparr> = i\<lparr>live := unless_crashed r st', disk := w\<rparr>"
    by (cases i) simp
  have s: "session_inv (stateFile dir) (i\<lparr>issued := issued i, live := unless_crashed r st', disk := w\<rparr>)"
    using client_step_inv [OF I(1) client_step.checkpoint [OF st run]]
    unfolding same by (simp add: still_live_def unless_crashed_def)
  have hand: "(stClientId s, k) \<in> set (issued i) \<and> k \<noteq> 0 \<and> (\<forall>m \<in> set (attempted j). msgId m < k)"
    if "unless_crashed r st' = Some s" "h = Some k" for s k
    using that id I(7) [OF st] by (auto simp: unless_crashed_def split: if_splits)
  have own: "stClientId s \<notin> others" if "unless_crashed r st' = Some s" for s
    using that id I(6) [OF st] by (auto simp: unless_crashed_def split: if_splits)
  from client_inv_state [OF inv cf s subset_refl own hand] show ?thesis unfolding same .
qed

text \<open>The calls on the log, next to the state file.\<close>

lemma client_inv_wal:
  assumes inv: "client_inv others dir i j h" and cf: "confined (walFile dir) (disk i) w"
    and j: "wal_inv c (walFile dir) j'" "walDisk j' = w" "\<And>m. m \<in> set (attempted j') \<Longrightarrow> clientId m = c"
    and new: "\<And>m. m \<in> set (attempted j') \<Longrightarrow> m \<in> set (attempted j) \<or>
        (clientId m, msgId m) \<in> set (issued i) \<and> msgId m \<noteq> 0 \<and> plain_id (clientId m) \<and> clientId m \<notin> others"
    and logged: "set (logged j') \<subseteq> set (attempted j')" and h: "h' = None \<or> h' = h \<and> attempted j' = attempted j"
  shows "client_inv others dir (i\<lparr>live := (if dead then None else live i), disk := w\<rparr>) j' h'"
proof -
  note I = client_invD [OF inv]
  let ?i = "i\<lparr>live := (if dead then None else live i), disk := w\<rparr>"
  have s: "session_inv (stateFile dir) ?i" using session_inv_next [OF I(1) cf client_files_apart(2)] .
  have own: "(clientId m, msgId m) \<in> set (issued ?i) \<and> msgId m \<noteq> 0 \<and> plain_id (clientId m) \<and> clientId m \<notin> others"
    if "m \<in> set (attempted j')" for m
    using new [OF that] I(4) [of m] by auto
  have state: "stClientId st \<notin> others" if "live ?i = Some st" for st
    using that I(6) [of st] by (simp split: if_splits)
  have hand: "(stClientId st, k) \<in> set (issued ?i) \<and> k \<noteq> 0 \<and> (\<forall>m \<in> set (attempted j'). msgId m < k)"
    if "live ?i = Some st" "h' = Some k" for st k
    using h that I(7) [of st k] by (auto split: if_splits)
  have d: "walDisk j' = disk ?i" using j(2) by simp
  show ?thesis by (rule client_invI [OF s d j(1) j(3) own logged state hand])
qed

text \<open>Before the first append any client id fits the log; afterwards it is the one of the state.\<close>

lemma wal_inv_of_state:
  assumes inv: "client_inv others dir i j h" and st: "live i = Some st"
  shows "wal_inv (stClientId st) (walFile dir) j \<and> (\<forall>m \<in> set (attempted j). clientId m = stClientId st)"
proof -
  note I = client_invD [OF inv]
  obtain c where c: "wal_inv c (walFile dir) j" "\<forall>m \<in> set (attempted j). clientId m = c" using I(3) by blast
  have own: "clientId m = stClientId st" if "m \<in> set (attempted j)" for m
    using I(4) [OF that] live_beyond [OF I(1) st] unfolding beyond_def by blast
  show ?thesis
  proof (cases "attempted j = []")
    case True
    then show ?thesis using wal_inv_unused [OF c(1)] by simp
  next
    case False
    then have "hd (attempted j) \<in> set (attempted j)" by simp
    then have "c = stClientId st" using own c(2) by metis
    with c(1) own show ?thesis by blast
  qed
qed

lemma append_client_inv:
  assumes inv: "client_inv others dir i j (Some k)" and st: "live i = Some st" and wl: "wal j = Some wl" "healthy j"
    and m: "msgId m = k" "clientId m = stClientId st" and run: "appendLog m wl (on_disk i rs) = (r, wl', w)"
  shows "client_inv others dir (i\<lparr>live := (if r = Crash then None else Some st), disk := w\<rparr>)
    (j\<lparr>attempted := attempted j @ [m], logged := logged j @ (if r = Done () then [m] else []),
       wal := unless_crashed r wl', healthy := (r = Done ()), walDisk := w\<rparr>) None"
proof -
  note I = client_invD [OF inv]
  have c: "wal_inv (stClientId st) (walFile dir) j" "\<forall>m \<in> set (attempted j). clientId m = stClientId st"
    using wal_inv_of_state [OF inv st] by blast+
  have k: "(stClientId st, k) \<in> set (issued i)" "k \<noteq> 0" "\<forall>m \<in> set (attempted j). msgId m < k" using I(7) [OF st] by blast+
  have run': "appendLog m wl (wal_on_disk j rs) = (r, wl', w)" using run I(2) by simp
  have older: "\<forall>x \<in> set (attempted j). msgId x < msgId m" using k(3) m(1) by simp
  have "walPath wl = walFile dir" using c(1) wl(1) unfolding wal_inv_def by blast
  then have cf: "confined (walFile dir) (disk i) w" using appendLog_confined [OF run] client_owns [OF inv] by simp
  have plain: "plain_id (stClientId st)" using live_beyond [OF I(1) st] by (simp add: beyond_def)
  note j' = wal_step_inv [OF c(1) wal_step.append [OF wl m(2) older run']]
  show ?thesis
    unfolding st [symmetric]
  proof (rule client_inv_wal [OF inv cf j'])
    fix x assume x: "x \<in> set (attempted (j\<lparr>attempted := attempted j @ [m], logged := logged j @ (if r = Done () then [m] else []),
       wal := unless_crashed r wl', healthy := (r = Done ()), walDisk := w\<rparr>))"
    then show "clientId x = stClientId st" using c(2) m(2) by auto
    show "x \<in> set (attempted j) \<or>
        (clientId x, msgId x) \<in> set (issued i) \<and> msgId x \<noteq> 0 \<and> plain_id (clientId x) \<and> clientId x \<notin> others"
      using x k(1,2) m plain I(6) [OF st] by auto
  qed (use I(5) in auto)
qed

text \<open>Delivering: the log is confirmed exactly when the acknowledgement arrived.\<close>

lemma tryDeliver_confirms:
  assumes "tryDeliver a batch s w = (r, s', w')"
  shows "confirms (connected s) a batch \<Longrightarrow> \<exists>rc. confirmLog (msgId (last batch)) (senderWal s) w = (rc, senderWal s', w')
      \<and> (r = Inr Crashed \<longleftrightarrow> rc = Crash)"
    and "\<not> confirms (connected s) a batch \<Longrightarrow> senderWal s' = senderWal s \<and> w' = w \<and> r \<noteq> Inr Crashed \<and> r \<noteq> Inr Delivered"
proof -
  obtain x out sends' evs' where e: "sendLogBatchAndWaitAck batch (atSends a) (atEvents a) = (x, out, sends', evs')"
    by (metis prod_cases4)
  have k: "k = msgId (last batch)" if "x = Returned k" for k
    using sendLogBatchAndWaitAck_returned e that by blast
  have ack: "acknowledged a batch \<longleftrightarrow> x = Returned (msgId (last batch))"
    using e by (auto simp: acknowledged_def)
  obtain rc wl wc where c: "confirmLog (msgId (last batch)) (senderWal s) w = (rc, wl, wc)" by (metis prod_cases3)
  have "(confirms (connected s) a batch \<longrightarrow> (\<exists>rc. confirmLog (msgId (last batch)) (senderWal s) w = (rc, senderWal s', w')
      \<and> (r = Inr Crashed \<longleftrightarrow> rc = Crash)))
    \<and> (\<not> confirms (connected s) a batch \<longrightarrow> senderWal s' = senderWal s \<and> w' = w \<and> r \<noteq> Inr Crashed \<and> r \<noteq> Inr Delivered)"
  proof (cases "\<not> connected s \<and> atConnect a \<noteq> None")
    case True
    with assms show ?thesis by (auto simp: tryDeliver_def confirms_def)
  next
    case False
    show ?thesis
    proof (cases x)
      case (Returned k)
      with k have "x = Returned (msgId (last batch))" by simp
      with assms False e c ack show ?thesis
        by (cases rc) (auto simp: tryDeliver_def confirms_def Let_def)
    qed (use assms False e ack in \<open>auto simp: tryDeliver_def confirms_def Let_def\<close>)
  qed
  then show "confirms (connected s) a batch \<Longrightarrow> \<exists>rc. confirmLog (msgId (last batch)) (senderWal s) w = (rc, senderWal s', w')
      \<and> (r = Inr Crashed \<longleftrightarrow> rc = Crash)"
    and "\<not> confirms (connected s) a batch \<Longrightarrow> senderWal s' = senderWal s \<and> w' = w \<and> r \<noteq> Inr Crashed \<and> r \<noteq> Inr Delivered"
    by blast+
qed

lemma deliver_client_inv:
  assumes inv: "client_inv others dir i j h" and st: "live i = Some st" and wl: "wal j = Some wl"
    and run: "tryDeliver a batch \<lparr>connected = isConnected, senderWal = wl, senderMetrics = mt, waits = ws\<rparr> (on_disk i rs) = (r, s', w)"
  shows "client_inv others dir (i\<lparr>live := (if r = Inr Crashed then None else Some st), disk := w\<rparr>)
    (j\<lparr>acked := acked j @ (if confirms isConnected a batch then [msgId (last batch)] else []),
       wal := (if r = Inr Crashed then None else Some (senderWal s')), walDisk := w\<rparr>) h"
proof -
  note I = client_invD [OF inv] and T = tryDeliver_confirms [OF run]
  obtain c where c: "wal_inv c (walFile dir) j" "\<forall>m \<in> set (attempted j). clientId m = c" using I(3) by blast
  show ?thesis
  proof (cases "confirms isConnected a batch")
    case True
    then obtain rc where rc: "confirmLog (msgId (last batch)) wl (wal_on_disk j rs) = (rc, senderWal s', w)"
        "r = Inr Crashed \<longleftrightarrow> rc = Crash"
      using T(1) I(2) by auto
    note j' = wal_step_inv [OF c(1) wal_step.confirm [OF wl rc(1)]]
    have "walPath wl = walFile dir" using c(1) wl unfolding wal_inv_def by blast
    then have cf: "confined (walFile dir) (disk i) w"
      using confirmLog_confined [OF rc(1)] client_owns [OF inv] I(2) by simp
    have j'': "j\<lparr>acked := acked j @ (if confirms isConnected a batch then [msgId (last batch)] else []),
       wal := (if r = Inr Crashed then None else Some (senderWal s')), walDisk := w\<rparr>
      = j\<lparr>acked := acked j @ [msgId (last batch)], wal := unless_crashed rc (senderWal s'), walDisk := w\<rparr>"
      using True rc(2) by (simp add: unless_crashed_def)
    show ?thesis
      unfolding j'' st [symmetric] using c(2) I(5) by (intro client_inv_wal [OF inv cf j']) simp_all
  next
    case False
    then have e: "senderWal s' = wl" "w = on_disk i rs" "r \<noteq> Inr Crashed" using T(2) by simp_all
    have cf: "confined (stateFile dir) (walDisk j) w" "confined (walFile dir) (disk i) w"
      using e(2) client_owns [OF inv, of rs] I(2) by simp_all
    have j'': "j\<lparr>acked := acked j @ (if confirms isConnected a batch then [msgId (last batch)] else []),
       wal := (if r = Inr Crashed then None else Some (senderWal s')), walDisk := w\<rparr>
      = j\<lparr>wal := (if False then None else wal j), walDisk := w\<rparr>"
      using False e(1,3) wl by (cases j) simp
    note j' = wal_inv_next [OF c(1) cf(1) client_files_apart(1), of False]
    show ?thesis
      unfolding j'' st [symmetric] using c(2) I(5) by (intro client_inv_wal [OF inv cf(2) j']) simp_all
  qed
qed

lemma stop_client_inv:
  assumes inv: "client_inv others dir i j h" and w: "w = disk i \<or> power_loss (disk i) w"
  shows "client_inv others dir (i\<lparr>live := None, disk := w\<rparr>) (j\<lparr>wal := None, walDisk := w\<rparr>) h"
proof -
  note I = client_invD [OF inv]
  obtain c where c: "wal_inv c (walFile dir) j" "\<forall>m \<in> set (attempted j). clientId m = c" using I(3) by blast
  have "wal_inv c (walFile dir) (j\<lparr>wal := None, walDisk := w\<rparr>)"
    using w
  proof
    assume "w = disk i"
    then show ?thesis using wal_step_inv [OF c(1) wal_step.stop] I(2) by (cases j) simp
  next
    assume "power_loss (disk i) w"
    then show ?thesis using wal_step_inv [OF c(1) wal_step.lose_power] I(2) by simp
  qed
  moreover have "session_inv (stateFile dir) (i\<lparr>live := None, disk := w\<rparr>)"
    using w
  proof
    assume "w = disk i"
    then show ?thesis using session_inv_drop [OF I(1)] by (cases i) simp
  next
    assume "power_loss (disk i) w"
    then show ?thesis using client_step_inv [OF I(1) client_step.lose_power] by simp
  qed
  ultimately show ?thesis using I c(2) by (intro client_invI [where c = c]) auto
qed


section \<open>All steps\<close>

lemma step_client_inv:
  assumes inv: "client_inv others dir (ids s) (journal s) (inHand s)" and "system_step others dir sp s t"
  shows "client_inv others dir (ids t) (journal t) (inHand t)"
  using assms(2)
proof cases
  case (start_client logPath portArg logExists random rs port recovered wl st w)
  show ?thesis
    unfolding start_client(1) client_at_def
    using start_inv(1) [OF inv start_client(2-5) HOL.refl start_client(6)] by simp
next
  case (start_client_fails logPath portArg logExists random rs r w)
  show ?thesis
    unfolding start_client_fails(1) client_at_def using start_inv(2) [OF inv start_client_fails(2-6)] by simp
next
  case (allocate st rs r st' w)
  show ?thesis
    unfolding allocate(1) client_at_def using allocate_inv [OF inv allocate(2,3)] by simp
next
  case (append_log st wl k m now logPath line rs r wl' w)
  have h: "client_inv others dir (ids s) (journal s) (Some k)" using inv append_log(5) by simp
  have m: "msgId m = k" "clientId m = stClientId st" using append_log(6) by simp_all
  show ?thesis
    unfolding append_log(1) client_at_def using append_client_inv [OF h append_log(2-4) m append_log(7)] by simp
next
  case (checkpoint st off device inode rs r st' w)
  show ?thesis
    unfolding checkpoint(1) client_at_def using checkpoint_inv [OF inv checkpoint(2,3)] by simp
next
  case (deliver st wl n a isConnected mt ws rs r snd' w)
  show ?thesis
    unfolding deliver(1) client_at_def using deliver_client_inv [OF inv deliver(2,3,7)] by simp
next
  case stop_client
  show ?thesis
    unfolding stop_client client_at_def using stop_client_inv [OF inv, of "disk (ids s)"] by simp
next
  case (client_power_loss w)
  show ?thesis
    unfolding client_power_loss(1) client_at_def using stop_client_inv [OF inv] client_power_loss(2) by simp
qed (use inv in simp_all)

end
