(* ===== verification/EndToEnd.thy ===== *)
theory EndToEnd
  imports SystemClient
begin

text \<open>
  The messages over the steps of the system: what is acknowledged was printed, a watermark covers
  only printed messages, and what is neither printed nor in flight is still to be sent.
\<close>

section \<open>The messages\<close>

text \<open>
  In the following \<open>A\<close> are the messages given to \<^verbatim>\<open>append\<close>, \<open>G\<close> those for which it returned, and \<open>P\<close>
  the printed ones. An id may be acknowledged when everything logged up to it is printed; a batch
  may be in flight when everything logged up to its end is in it or printed; and the consumer has
  still to send what is not printed.
\<close>

definition acks_ok :: "LogMessage set \<Rightarrow> LogMessage set \<Rightarrow> LogMessage set \<Rightarrow> u64 set \<Rightarrow> bool" where
  "acks_ok A G P K \<longleftrightarrow> (\<forall>k \<in> K. (\<forall>x \<in> G. msgId x \<le> k \<longrightarrow> x \<in> P) \<and> (\<exists>y \<in> A. k \<le> msgId y))"

definition batch_ok :: "LogMessage set \<Rightarrow> LogMessage set \<Rightarrow> LogMessage set \<Rightarrow> LogMessage list \<Rightarrow> bool" where
  "batch_ok A G P ms \<longleftrightarrow> ms \<noteq> [] \<and> set ms \<subseteq> A \<and> (\<forall>x \<in> G. msgId x \<le> msgId (last ms) \<longrightarrow> x \<in> set ms \<or> x \<in> P)"

definition queue_ok :: "LogMessage set \<Rightarrow> LogMessage set \<Rightarrow> LogMessage set \<Rightarrow> LogMessage list \<Rightarrow> bool" where
  "queue_ok A G P Q \<longleftrightarrow> G \<subseteq> set Q \<union> P \<and> set Q \<subseteq> A \<and> sorted_wrt (<) (map msgId Q)"

text \<open>A table of watermarks, in memory or on the disk, covers only what is printed.\<close>

definition table_ok :: "string set \<Rightarrow> LogMessage set \<Rightarrow> LogMessage set \<Rightarrow> LogMessage set \<Rightarrow> watermarks \<Rightarrow> bool" where
  "table_ok others A G P T \<longleftrightarrow> ok_marks T \<and> (\<forall>x \<in> G. msgId x \<le> mark T (clientId x) \<longrightarrow> x \<in> P)
     \<and> (\<forall>d. d \<notin> others \<longrightarrow> mark T d \<noteq> 0 \<longrightarrow> (\<exists>y \<in> A. clientId y = d \<and> mark T d \<le> msgId y))"

definition server_ok ::
  "string set \<Rightarrow> path \<Rightarrow> LogMessage set \<Rightarrow> LogMessage set \<Rightarrow> LogMessage set \<Rightarrow> ServerRun option \<Rightarrow> world \<Rightarrow> bool" where
  "server_ok others sp A G P sv w \<longleftrightarrow>
     (\<exists>X S. X \<subseteq> {None} \<and> disk_within sp (X \<union> mark_files S) w \<and> (\<forall>T \<in> S. table_ok others A G P T))
     \<and> (\<forall>run. sv = Some run \<longrightarrow> ddPath (dedup run) = sp \<and> table_ok others A G P (confirmed (dedup run)))"

definition message_inv :: "string set \<Rightarrow> path \<Rightarrow> system \<Rightarrow> bool" where
  "message_inv others sp s \<longleftrightarrow>
     (let A = set (attempted (journal s)); G = set (logged (journal s)); P = set (printout s)
      in acks_ok A G P (set (acked (journal s)) \<union> acksSent s)
       \<and> (\<forall>ms \<in> inFlight s. batch_ok A G P ms)
       \<and> (wal (journal s) \<noteq> None \<longrightarrow> queue_ok A G P (sending s))
       \<and> server_ok others sp A G P (srv s) (srvDisk s)
       \<and> (\<forall>x \<in> P. x \<in> A \<or> clientId x \<in> others))"

lemmas message_defs = acks_ok_def batch_ok_def queue_ok_def table_ok_def

text \<open>Printing more keeps all of this.\<close>

lemma printing_more:
  assumes "P \<subseteq> P'"
  shows "acks_ok A G P K \<Longrightarrow> acks_ok A G P' K" and "batch_ok A G P ms \<Longrightarrow> batch_ok A G P' ms"
    and "queue_ok A G P Q \<Longrightarrow> queue_ok A G P' Q" and "table_ok others A G P T \<Longrightarrow> table_ok others A G P' T"
    and "server_ok others sp A G P sv w \<Longrightarrow> server_ok others sp A G P' sv w"
proof -
  show t: "table_ok others A G P T \<Longrightarrow> table_ok others A G P' T" for T using assms unfolding table_ok_def by blast
  show "server_ok others sp A G P sv w \<Longrightarrow> server_ok others sp A G P' sv w" unfolding server_ok_def using t by blast
qed (use assms in \<open>auto simp: message_defs\<close>)

text \<open>A new message, with an id above all earlier ones, keeps it as well.\<close>

lemma logging_more:
  assumes "\<forall>y \<in> A. msgId y < msgId m" and "msgId m \<noteq> 0" and "clientId m \<notin> others" and "G' \<subseteq> insert m G"
  shows "acks_ok A G P K \<Longrightarrow> acks_ok (insert m A) G' P K" and "batch_ok A G P ms \<Longrightarrow> batch_ok (insert m A) G' P ms"
    and "table_ok others A G P T \<Longrightarrow> table_ok others (insert m A) G' P T"
    and "server_ok others sp A G P sv w \<Longrightarrow> server_ok others sp (insert m A) G' P sv w"
proof -
  show "acks_ok (insert m A) G' P K" if old: "acks_ok A G P K"
    unfolding acks_ok_def
  proof (intro ballI conjI impI)
    fix k x assume k: "k \<in> K" and x: "x \<in> G'" "msgId x \<le> k"
    obtain y where "y \<in> A" "k \<le> msgId y" using old k unfolding acks_ok_def by blast
    then have "x \<noteq> m" using assms(1) x(2) by fastforce
    then show "x \<in> P" using old k x assms(4) unfolding acks_ok_def by blast
  qed (use old in \<open>auto simp: acks_ok_def\<close>)
  show "batch_ok (insert m A) G' P ms" if "batch_ok A G P ms"
  proof -
    have "last ms \<in> A" using that unfolding batch_ok_def by auto
    then have "\<not> msgId m \<le> msgId (last ms)" using assms(1) by (simp add: not_le)
    then show ?thesis using that assms(4) unfolding batch_ok_def by blast
  qed
  show t: "table_ok others (insert m A) G' P T" if old: "table_ok others A G P T" for T
  proof -
    have "\<not> msgId m \<le> mark T (clientId m)"
    proof (cases "mark T (clientId m) = 0")
      case True
      then show ?thesis using assms(2) by (simp add: word_le_nat_alt unsigned_eq_0_iff)
    next
      case False
      then obtain y where "y \<in> A" "mark T (clientId m) \<le> msgId y"
        using old assms(3) unfolding table_ok_def by blast
      then show ?thesis using assms(1) by fastforce
    qed
    then show ?thesis using old assms(4) unfolding table_ok_def by blast
  qed
  show "server_ok others sp A G P sv w \<Longrightarrow> server_ok others sp (insert m A) G' P sv w"
    unfolding server_ok_def using t by blast
qed


section \<open>The server's steps\<close>

lemma server_open_ok:
  assumes ok: "server_ok others sp A G P None w0" and G: "\<And>x. x \<in> G \<Longrightarrow> msgId x \<noteq> 0"
    and run: "openDedupStore sp (w0\<lparr>sched := rs\<rparr>) = (r, w)"
  shows "server_ok others sp A G P (case r of Done d \<Rightarrow> Some \<lparr>dedup = d, metrics = mt, printed = []\<rparr> | _ \<Rightarrow> None) w"
proof -
  obtain X S where X: "X \<subseteq> {None}" and d: "disk_within sp (X \<union> mark_files S) (w0\<lparr>sched := rs\<rparr>)"
    and S: "\<forall>T \<in> S. table_ok others A G P T"
    using ok unfolding server_ok_def by auto
  note O = openDedupStore_disk [OF d X run]
  have "table_ok others A G P []"
    using G by (auto simp: table_ok_def ok_marks_def mark_def find_mark_def word_le_nat_alt unsigned_eq_0_iff)
  then have "ddPath st = sp \<and> table_ok others A G P (confirmed st)" if "r = Done st" for st
    using O(2) [OF that] S by auto
  then show ?thesis
    unfolding server_ok_def using X O(1) S by (auto split: outcome.splits)
qed

text \<open>
  A group that arrives: it is the client's own and leaves nothing logged up to its end unprinted
  beside itself, or it is another client's.
\<close>

lemma group_prints:
  assumes g: "log_group ms" and T: "table_ok others A G P (confirmed st)"
    and ms: "batch_ok A G P ms" and x: "x \<in> G" "msgId x \<le> msgId (last ms)" "clientId x = clientId (hd ms)"
  shows "x \<in> P \<union> set (fresh_messages st ms)"
proof (cases "x \<in> set ms \<and> highestConfirmed st (clientId (hd ms)) < msgId x")
  case True
  then show ?thesis by (simp add: fresh_messages_def)
next
  case False
  then have "x \<notin> set ms \<or> msgId x \<le> mark (confirmed st) (clientId x)"
    using x(3) by (auto simp: highestConfirmed_mark not_less)
  then show ?thesis using ms T x unfolding batch_ok_def table_ok_def by blast
qed

definition own_or_other :: "string set \<Rightarrow> LogMessage set \<Rightarrow> LogMessage set \<Rightarrow> LogMessage set \<Rightarrow> LogMessage list \<Rightarrow> bool" where
  "own_or_other others A G P ms \<longleftrightarrow> batch_ok A G P ms \<and> (\<forall>x \<in> A. clientId x = clientId (hd ms)) \<or> clientId (hd ms) \<in> others"

lemma table_ok_put:
  assumes g: "log_group ms" and T: "table_ok others A G P (confirmed st)" and ms: "own_or_other others A G P ms"
    and A: "\<And>x. x \<in> A \<Longrightarrow> clientId x \<notin> others" and sub: "G \<subseteq> A" and c: "plain_id (clientId (hd ms))"
  shows "table_ok others A G (P \<union> set (fresh_messages st ms))
    (put_mark (clientId (hd ms)) (max (highestConfirmed st (clientId (hd ms))) (msgId (last ms))) (confirmed st))"
proof -
  let ?c = "clientId (hd ms)"
  let ?i = "max (highestConfirmed st ?c) (msgId (last ms))"
  have ok: "ok_marks (confirmed st)" using T by (simp add: table_ok_def)
  note mk = mark_put [OF ok_marks_ordered [OF ok], of ?c ?i]
  have nz: "?i \<noteq> 0" using log_group_last(3) [OF g] by (auto simp: max_def word_gt_0 not_le)
  have "x \<in> P \<union> set (fresh_messages st ms)" if x: "x \<in> G" "msgId x \<le> mark (put_mark ?c ?i (confirmed st)) (clientId x)" for x
  proof (cases "clientId x = ?c \<and> \<not> msgId x \<le> mark (confirmed st) ?c")
    case True
    then have "msgId x \<le> msgId (last ms)" using x(2) mk by (simp add: highestConfirmed_mark le_max_iff_disj)
    moreover have "batch_ok A G P ms" using True ms A sub x(1) unfolding own_or_other_def by fastforce
    ultimately show ?thesis using group_prints [OF g T _ x(1)] True by blast
  next
    case False
    then have "msgId x \<le> mark (confirmed st) (clientId x)" using x(2) mk by (auto split: if_splits)
    then show ?thesis using T x(1) unfolding table_ok_def by blast
  qed
  moreover have "\<exists>y \<in> A. clientId y = d \<and> mark (put_mark ?c ?i (confirmed st)) d \<le> msgId y"
    if d: "d \<notin> others" "mark (put_mark ?c ?i (confirmed st)) d \<noteq> 0" for d
  proof (cases "d = ?c \<and> ?i = msgId (last ms)")
    case True
    then have "last ms \<in> A" using ms d(1) unfolding own_or_other_def batch_ok_def by auto
    then show ?thesis using True mk log_group_last(4) [OF g] by (intro bexI [of _ "last ms"]) auto
  next
    case False
    then have "mark (put_mark ?c ?i (confirmed st)) d = mark (confirmed st) d"
      using mk by (auto simp: highestConfirmed_mark max_def split: if_splits)
    then show ?thesis using T d unfolding table_ok_def by simp
  qed
  ultimately show ?thesis
    using ok_marks_put [OF ok c nz] unfolding table_ok_def by blast
qed

lemma server_handle_ok:
  assumes ok: "server_ok others sp A G P (Some sv) w0" and g: "log_group ms" and ms: "own_or_other others A G P ms"
    and A: "\<And>x. x \<in> A \<Longrightarrow> clientId x \<notin> others" and sub: "G \<subseteq> A" and c: "plain_id (clientId (hd ms))"
    and run: "handleGroup tcp ms sends sv (w0\<lparr>sched := rs\<rparr>) = (r, bs, sends', sv', w)"
  shows "server_ok others sp A G (P \<union> set (fresh_messages (dedup sv) ms)) (Some sv') w"
proof -
  let ?P = "P \<union> set (fresh_messages (dedup sv) ms)"
  let ?i = "max (highestConfirmed (dedup sv) (clientId (hd ms))) (msgId (last ms))"
  obtain X S where X: "X \<subseteq> {None}" and d: "disk_within sp (X \<union> mark_files S) (w0\<lparr>sched := rs\<rparr>)"
    and S: "\<forall>T \<in> S. table_ok others A G P T"
    and sv: "ddPath (dedup sv) = sp" "table_ok others A G P (confirmed (dedup sv))"
    using ok unfolding server_ok_def by auto
  obtain r0 st where call: "confirmMark (clientId (hd ms)) ?i (dedup sv) (w0\<lparr>sched := rs\<rparr>) = (r0, st, w)"
    and st: "dedup sv' = st"
    using run g by (rule handleGroup_cases) blast+
  have okm: "ok_marks (confirmed (dedup sv))" using sv(2) by (simp add: table_ok_def)
  note D = confirmMark_disk [OF d [folded sv(1)] okm c call, unfolded sv(1)]
  note new = table_ok_put [OF g sv(2) ms A sub c]
  have more: "table_ok others A G ?P T" if "table_ok others A G P T" for T
    using printing_more(4) [OF _ that] by simp
  obtain T where "T \<subseteq> {put_mark (clientId (hd ms)) ?i (confirmed (dedup sv))}" "disk_within sp (X \<union> mark_files (T \<union> S)) w"
    using D(1) by blast
  moreover have "confirmed st = confirmed (dedup sv) \<or> confirmed st = put_mark (clientId (hd ms)) ?i (confirmed (dedup sv))"
    using call by (cases rule: confirmMark_cases) auto
  ultimately show ?thesis
    unfolding server_ok_def using X S more new sv st D(4) by (intro conjI exI [of _ X] exI [of _ "T \<union> S"]) auto
qed


section \<open>The system's invariant\<close>

definition system_inv :: "string set \<Rightarrow> path \<Rightarrow> path \<Rightarrow> system \<Rightarrow> bool" where
  "system_inv others dir sp s \<longleftrightarrow> client_inv others dir (ids s) (journal s) (inHand s) \<and> message_inv others sp s"

text \<open>Steps of the client that leave the messages alone.\<close>

lemma message_inv_keep:
  assumes "message_inv others sp s" and "attempted (journal t) = attempted (journal s)"
    and "logged (journal t) = logged (journal s)" and "acked (journal t) = acked (journal s)"
    and "wal (journal t) \<noteq> None \<Longrightarrow> wal (journal s) \<noteq> None" and "sending t = sending s"
    and "inFlight t = inFlight s" and "acksSent t = acksSent s" and "srv t = srv s" and "srvDisk t = srvDisk s"
    and "printout t = printout s"
  shows "message_inv others sp t"
  using assms unfolding message_inv_def Let_def by auto

lemma message_invD:
  assumes "message_inv others sp s"
  shows "acks_ok (set (attempted (journal s))) (set (logged (journal s))) (set (printout s)) (set (acked (journal s)) \<union> acksSent s)"
    and "\<And>ms. ms \<in> inFlight s \<Longrightarrow> batch_ok (set (attempted (journal s))) (set (logged (journal s))) (set (printout s)) ms"
    and "wal (journal s) \<noteq> None \<Longrightarrow> queue_ok (set (attempted (journal s))) (set (logged (journal s))) (set (printout s)) (sending s)"
    and "server_ok others sp (set (attempted (journal s))) (set (logged (journal s))) (set (printout s)) (srv s) (srvDisk s)"
    and "\<And>x. x \<in> set (printout s) \<Longrightarrow> x \<in> set (attempted (journal s)) \<or> clientId x \<in> others"
  using assms unfolding message_inv_def Let_def by blast+

lemma message_invI:
  assumes "acks_ok (set (attempted (journal s))) (set (logged (journal s))) (set (printout s)) (set (acked (journal s)) \<union> acksSent s)"
    and "\<And>ms. ms \<in> inFlight s \<Longrightarrow> batch_ok (set (attempted (journal s))) (set (logged (journal s))) (set (printout s)) ms"
    and "wal (journal s) \<noteq> None \<Longrightarrow> queue_ok (set (attempted (journal s))) (set (logged (journal s))) (set (printout s)) (sending s)"
    and "server_ok others sp (set (attempted (journal s))) (set (logged (journal s))) (set (printout s)) (srv s) (srvDisk s)"
    and "\<And>x. x \<in> set (printout s) \<Longrightarrow> x \<in> set (attempted (journal s)) \<or> clientId x \<in> others"
  shows "message_inv others sp s"
  using assms unfolding message_inv_def Let_def by blast

text \<open>Starting: what the log hands back is everything that is not yet acknowledged.\<close>

lemma recovered_queue:
  assumes acks: "acks_ok (set (attempted j)) (set (logged j)) P (set (acked j) \<union> K)"
    and "wal_inv c p (j\<lparr>wal := Some wl, healthy := True, walDisk := w\<rparr>)"
  shows "queue_ok (set (attempted j)) (set (logged j)) P (pendingMsgs wl)"
proof -
  let ?j = "j\<lparr>wal := Some wl, healthy := True, walDisk := w\<rparr>"
  have w: "set (pendingMsgs wl) \<subseteq> set (attempted j)" "outstanding ?j \<subseteq> set (pendingMsgs wl)" "valid_log c (pendingMsgs wl)"
    using pending_attempted [OF assms(2)] by simp_all
  have "x \<in> set (pendingMsgs wl) \<union> P" if x: "x \<in> set (logged j)" for x
  proof (cases "\<exists>k \<in> set (acked j). msgId x \<le> k")
    case True
    then show ?thesis using acks x unfolding acks_ok_def by blast
  next
    case False
    then have "x \<in> outstanding ?j" using x by (auto simp: outstanding_def not_le)
    then show ?thesis using w(2) by blast
  qed
  then show ?thesis using w(1,3) unfolding queue_ok_def valid_log_def by blast
qed

lemma sorted_take_last:
  fixes Q :: "LogMessage list"
  assumes "sorted_wrt (<) (map msgId Q)" and "x \<in> set Q" and "take n Q \<noteq> []" and "msgId x \<le> msgId (last (take n Q))"
  shows "x \<in> set (take n Q)"
proof (rule ccontr)
  assume "x \<notin> set (take n Q)"
  then have "x \<in> set (drop n Q)" using assms(2) by (metis UnE append_take_drop_id set_append)
  moreover have "sorted_wrt (<) (map msgId (take n Q) @ map msgId (drop n Q))"
    using assms(1) by (metis append_take_drop_id map_append)
  ultimately have "msgId (last (take n Q)) < msgId x"
    using assms(3) by (auto simp: sorted_wrt_append)
  with assms(4) show False by simp
qed

lemma queue_take:
  assumes "queue_ok A G P Q" and "take n Q \<noteq> []"
  shows "batch_ok A G P (take n Q)"
proof -
  have "set (take n Q) \<subseteq> A" using assms(1) set_take_subset [of n Q] unfolding queue_ok_def by blast
  then show ?thesis
    using assms sorted_take_last [of Q _ n] unfolding queue_ok_def batch_ok_def by blast
qed

lemma sorted_ids_last:
  assumes "sorted_wrt (<) (map msgId Q)" and "x \<in> set Q"
  shows "msgId x \<le> msgId (last Q)"
  using assms by (cases Q rule: rev_cases) (auto simp: sorted_wrt_append less_imp_le)

lemma queue_drop:
  assumes "queue_ok A G P Q" and "acks_ok A G P {msgId (last (take n Q))}" and "take n Q \<noteq> []"
  shows "queue_ok A G P (drop n Q)"
proof -
  have s: "sorted_wrt (<) (map msgId (take n Q) @ map msgId (drop n Q))"
    using assms(1) unfolding queue_ok_def by (metis append_take_drop_id map_append)
  have "msgId x \<le> msgId (last (take n Q))" if "x \<in> set (take n Q)" for x
    using s sorted_ids_last [OF _ that] by (simp add: sorted_wrt_append)
  moreover have "set Q = set (take n Q) \<union> set (drop n Q)" by (metis append_take_drop_id set_append)
  ultimately have "G \<subseteq> set (drop n Q) \<union> P"
    using assms(1,2) unfolding queue_ok_def acks_ok_def by blast
  moreover have "set (drop n Q) \<subseteq> A" using assms(1) set_drop_subset [of n Q] unfolding queue_ok_def by blast
  ultimately show ?thesis using s unfolding queue_ok_def by (simp add: sorted_wrt_append drop_map)
qed

text \<open>Every step keeps the messages in order.\<close>

lemma deliver_message_inv:
  assumes inv: "message_inv others sp s" and wl: "wal (journal s) = Some wl" and n: "0 < n" "take n (sending s) \<in> inFlight s"
    and net: "from_server (acksSent s) (atEvents a)"
    and run: "tryDeliver a (take n (sending s)) \<lparr>connected = isConnected, senderWal = wl, senderMetrics = mt, waits = ws\<rparr> w0 = (r, snd', w)"
  shows "message_inv others sp
      ((client_at li lw w s)
         \<lparr>journal := (journal s)\<lparr>acked := acked (journal s) @ (if confirms isConnected a (take n (sending s)) then [msgId (last (take n (sending s)))] else []),
             wal := lw, walDisk := w\<rparr>,
          sending := (if r = Inr Delivered then drop n (sending s) else sending s)\<rparr>)"
proof -
  note M = message_invD [OF inv] and T = tryDeliver_confirms [OF run]
  let ?A = "set (attempted (journal s))" and ?G = "set (logged (journal s))" and ?P = "set (printout s)"
  let ?b = "take n (sending s)"
  have ne: "?b \<noteq> []" using M(2) [OF n(2)] by (simp add: batch_ok_def)
  have q: "queue_ok ?A ?G ?P (sending s)" using M(3) wl by simp
  have k: "msgId (last ?b) \<in> acksSent s" if c: "confirms isConnected a ?b"
  proof -
    obtain out sends' evs' where "sendLogBatchAndWaitAck ?b (atSends a) (atEvents a) = (Returned (msgId (last ?b)), out, sends', evs')"
      using c unfolding confirms_def acknowledged_def by blast
    then show ?thesis using sendLogBatchAndWaitAck_returned net unfolding from_server_def by blast
  qed
  have "acks_ok ?A ?G ?P (set (acked (journal s) @ (if confirms isConnected a ?b then [msgId (last ?b)] else [])) \<union> acksSent s)"
    using M(1) k unfolding acks_ok_def by auto
  moreover have "queue_ok ?A ?G ?P (if r = Inr Delivered then drop n (sending s) else sending s)"
  proof (cases "r = Inr Delivered")
    case True
    then have "confirms isConnected a ?b" using T(2) by auto
    then have "acks_ok ?A ?G ?P {msgId (last ?b)}" using M(1) k unfolding acks_ok_def by blast
    with True queue_drop [OF q _ ne] show ?thesis by simp
  qed (use q in simp)
  ultimately show ?thesis
    using M(2,4,5) by (intro message_invI) (simp_all add: client_at_def)
qed

lemma append_message_inv:
  assumes inv: "message_inv others sp s" and wl: "wal (journal s) \<noteq> None"
    and m: "\<forall>y \<in> set (attempted (journal s)). msgId y < msgId m" "msgId m \<noteq> 0" "clientId m \<notin> others"
    and t: "attempted (journal t) = attempted (journal s) @ [m]" "logged (journal t) = logged (journal s) @ (if ok then [m] else [])"
      "acked (journal t) = acked (journal s)" "sending t = sending s @ (if ok then [m] else [])"
      "inFlight t = inFlight s" "acksSent t = acksSent s" "srv t = srv s" "srvDisk t = srvDisk s" "printout t = printout s"
  shows "message_inv others sp t"
proof -
  note M = message_invD [OF inv]
  have G: "set (logged (journal t)) \<subseteq> insert m (set (logged (journal s)))" using t(2) by auto
  have A: "set (attempted (journal t)) = insert m (set (attempted (journal s)))" using t(1) by simp
  note L = logging_more [OF m G, folded A]
  have "queue_ok (set (attempted (journal t))) (set (logged (journal t))) (set (printout t)) (sending t)"
    using M(3) [OF wl] m(1) unfolding queue_ok_def t by (auto simp: sorted_wrt_append)
  then show ?thesis
    using L M t(3,5-9) A by (intro message_invI) auto
qed

lemma handle_message_inv:
  assumes inv: "message_inv others sp s" and sv: "srv s = Some sv" and g: "log_group ms" and ms: "arrives others s ms"
    and A: "\<And>x y. x \<in> set (attempted (journal s)) \<Longrightarrow> clientId x \<notin> others \<and> plain_id (clientId x)"
      "\<And>x y. x \<in> set (attempted (journal s)) \<Longrightarrow> y \<in> set (attempted (journal s)) \<Longrightarrow> clientId x = clientId y"
    and sub: "set (logged (journal s)) \<subseteq> set (attempted (journal s))"
    and run: "handleGroup tcp ms sends sv (server_disk s rs) = (r, bs, sends', sv', w)"
  shows "message_inv others sp
      (s\<lparr>srv := (if r = Died then None else Some sv'), srvDisk := w,
         printout := printout s @ drop (length (printed sv)) (printed sv'),
         acksSent := (if ms \<in> inFlight s \<and> bs = serializeAck (msgId (last ms)) then insert (msgId (last ms)) (acksSent s) else acksSent s)\<rparr>)"
    and "message_inv others sp (s\<lparr>srv := None, printout := printout s @ take n (fresh_messages (dedup sv) ms)\<rparr>)"
proof -
  note M = message_invD [OF inv]
  let ?A = "set (attempted (journal s))" and ?G = "set (logged (journal s))" and ?P = "set (printout s)"
  let ?new = "fresh_messages (dedup sv) ms"
  have hd: "hd ms \<in> set ms" "last ms \<in> set ms" using g by (simp_all add: log_group_def)
  have own: "own_or_other others ?A ?G ?P ms"
  proof (cases "ms \<in> inFlight s")
    case True
    then have "batch_ok ?A ?G ?P ms" using M(2) by blast
    moreover from this have "hd ms \<in> ?A" using hd unfolding batch_ok_def by blast
    ultimately show ?thesis using A(2) unfolding own_or_other_def by blast
  qed (use ms in \<open>auto simp: arrives_def own_or_other_def\<close>)
  have c: "plain_id (clientId (hd ms))"
    using ms M(2) hd A(1) unfolding arrives_def batch_ok_def by blast
  have new: "x \<in> ?A \<or> clientId x \<in> others" if "x \<in> set ?new" for x
  proof -
    have x: "x \<in> set ms" using that by (simp add: fresh_messages_def)
    then have "clientId x = clientId (hd ms)" using g unfolding log_group_def by blast
    then show ?thesis using own x unfolding own_or_other_def batch_ok_def by (metis subsetD)
  qed
  have T: "table_ok others ?A ?G ?P (confirmed (dedup sv))" using M(4) sv by (simp add: server_ok_def)
  have out: "drop (length (printed sv)) (printed sv') = ?new" using handleGroup_printed [OF run] by simp
  let ?P' = "?P \<union> set ?new"
  note more = printing_more [of ?P ?P']
  have srv': "server_ok others sp ?A ?G ?P' (Some sv') w"
    using server_handle_ok [OF _ g own _ sub c run] M(4) sv A(1) by simp
  then have srv0: "server_ok others sp ?A ?G ?P' (if r = Died then None else Some sv') w" by (auto simp: server_ok_def)
  have ack: "acks_ok ?A ?G ?P' (insert (msgId (last ms)) (set (acked (journal s)) \<union> acksSent s))" if "ms \<in> inFlight s"
  proof -
    have b: "batch_ok ?A ?G ?P ms" using M(2) that by blast
    have "x \<in> ?P'" if x: "x \<in> ?G" "msgId x \<le> msgId (last ms)" for x
    proof (rule group_prints [OF g T b x])
      show "clientId x = clientId (hd ms)" using A(2) x(1) sub b hd unfolding batch_ok_def by blast
    qed
    moreover have "last ms \<in> ?A" using b hd unfolding batch_ok_def by blast
    ultimately show ?thesis using more(1) [OF _ M(1)] unfolding acks_ok_def by auto
  qed
  show "message_inv others sp
      (s\<lparr>srv := (if r = Died then None else Some sv'), srvDisk := w,
         printout := printout s @ drop (length (printed sv)) (printed sv'),
         acksSent := (if ms \<in> inFlight s \<and> bs = serializeAck (msgId (last ms)) then insert (msgId (last ms)) (acksSent s) else acksSent s)\<rparr>)"
    unfolding out using M(5) new more(1) [OF _ M(1)] more(2) [OF _ M(2)] more(3) [OF _ M(3)] srv0 ack
    by (intro message_invI) auto
  let ?Q = "?P \<union> set (take n ?new)"
  note less = printing_more [of ?P ?Q]
  have "server_ok others sp ?A ?G ?Q None (srvDisk s)"
    using less(5) [OF _ M(4)] by (simp add: server_ok_def)
  moreover have part: "\<forall>x \<in> set (take n ?new). x \<in> ?A \<or> clientId x \<in> others"
    using new in_set_takeD by meson
  ultimately show "message_inv others sp (s\<lparr>srv := None, printout := printout s @ take n ?new\<rparr>)"
    using M(5) new less(1) [OF _ M(1)] less(2) [OF _ M(2)] less(3) [OF _ M(3)]
    using part by (intro message_invI) auto
qed

lemma step_message_inv:
  assumes inv: "system_inv others dir sp s" and stp: "system_step others dir sp s t"
  shows "message_inv others sp t"
proof -
  have C: "client_inv others dir (ids s) (journal s) (inHand s)" and M: "message_inv others sp s"
    using inv by (simp_all add: system_inv_def)
  note I = client_invD [OF C] and D = message_invD [OF M]
  have A: "clientId x \<notin> others \<and> plain_id (clientId x)" if "x \<in> set (attempted (journal s))" for x
    using I(4) that by blast
  have one: "clientId x = clientId y" if "x \<in> set (attempted (journal s))" "y \<in> set (attempted (journal s))" for x y
    using I(3) that by metis
  from stp show ?thesis
  proof cases
    case (start_client logPath portArg logExists random rs port recovered wl st w)
    note S = start_inv(1) [OF C start_client(2-5) HOL.refl start_client(6)]
    obtain d where "wal_inv d (walFile dir) ((journal s)\<lparr>wal := Some wl, healthy := True, walDisk := w\<rparr>)"
      using client_invD(3) [OF conjunct2 [OF S]] by blast
    from recovered_queue [OF D(1) this] conjunct1 [OF S] D show ?thesis
      by (intro message_invI) (simp_all add: start_client(1) client_at_def)
  next
    case (append_log st wl k m now logPath line rs r wl' w)
    have k: "k \<noteq> 0" "\<forall>x \<in> set (attempted (journal s)). msgId x < k" using I(7) [OF append_log(2,5)] by blast+
    show ?thesis
      by (rule append_message_inv [OF M, of m _ "r = Done ()"])
        (use k I(6) [OF append_log(2)] in \<open>simp_all add: append_log(1,3,6) client_at_def\<close>)
  next
    case (transmit n)
    then have "take n (sending s) \<noteq> []" by simp
    with queue_take [OF D(3) this] transmit D show ?thesis
      by (intro message_invI) auto
  next
    case (deliver st wl n a isConnected mt ws rs r snd' w)
    show ?thesis unfolding deliver(1) by (rule deliver_message_inv [OF M deliver(3-7)])
  next
    case (start_server rs r w)
    have "msgId x \<noteq> 0" if "x \<in> set (logged (journal s))" for x using I(4,5) that by blast
    from server_open_ok [OF D(4) [unfolded start_server(2)] this start_server(3)] D show ?thesis
      by (intro message_invI) (simp_all add: start_server(1))
  next
    case (handle sv tcp evs ms evs' sends rs r bs sends' sv' w)
    show ?thesis
      unfolding handle(1)
      by (rule handle_message_inv(1) [OF M handle(2) receiveLogBatch_group [OF handle(3)] handle(4) A one I(5) handle(5)])
  next
    case (crash_printing sv tcp evs ms evs' n)
    obtain r bs sends' sv' w where h: "handleGroup tcp ms [] sv (server_disk s []) = (r, bs, sends', sv', w)"
      by (metis prod_cases5)
    show ?thesis
      unfolding crash_printing(1)
      by (rule handle_message_inv(2) [OF M crash_printing(2) receiveLogBatch_group [OF crash_printing(3)] crash_printing(4) A one I(5) h])
  next
    case stop_server
    with D show ?thesis by (intro message_invI) (simp_all add: server_ok_def)
  next
    case (server_power_loss w)
    have "server_ok others sp A G P None w" if "server_ok others sp A G P sv (srvDisk s)" for A G P sv
      using that disk_within_power_loss [OF _ server_power_loss(2)] unfolding server_ok_def by blast
    with D show ?thesis by (intro message_invI) (auto simp: server_power_loss(1))
  qed (auto intro!: message_inv_keep [OF M] simp: client_at_def split: if_splits)
qed

interpretation system_machine: state_machine "system_step others dir sp" "system_inv others dir sp" for others dir sp
proof
  show "system_inv others dir sp t" if "system_inv others dir sp s" "system_step others dir sp s t" for s t
    using step_client_inv step_message_inv that unfolding system_inv_def by metis
qed

lemma first_system_inv:
  assumes "first_system dir sp s"
  shows "system_inv others dir sp s"
proof -
  have f: "first_session (stateFile dir) (ids s)" "first_wal (walFile dir) (journal s)" "walDisk (journal s) = disk (ids s)"
      "inHand s = None" "sending s = []" "inFlight s = {}" "acksSent s = {}" "srv s = None"
      "disk_within sp {None} (srvDisk s)" "printout s = []"
    using assms unfolding first_system_def by blast+
  have "attempted (journal s) = []" "logged (journal s) = []" "acked (journal s) = []" "live (ids s) = None" "wal (journal s) = None"
    using f(1,2) by (simp_all add: first_wal_def first_session_def)
  moreover have "server_ok others sp {} {} {} None (srvDisk s)"
    using f(9) unfolding server_ok_def by (intro conjI exI [of _ "{None}"] exI [of _ "{}"]) (auto simp: states_of_def)
  ultimately show ?thesis
    unfolding system_inv_def
    using first_session_inv [OF f(1)] first_wal_inv [OF f(2)] f(3-8,10)
    by (auto intro!: client_invI message_invI simp: acks_ok_def)
qed

end
