(* ===== verification/Guarantees.thy ===== *)
theory Guarantees
  imports EndToEnd
begin

text \<open>
  What the two programs guarantee together. The system refines an abstract channel that delivers at
  least once: a message is offered, accepted when \<^verbatim>\<open>append\<close> returned, delivered when the server
  printed it, and forgotten, that is out of the log, only after that. So no logged message is lost.
\<close>

section \<open>Simulation\<close>

locale simulation = state_machine cstep inv for cstep :: "'c \<Rightarrow> 'c \<Rightarrow> bool" and inv :: "'c \<Rightarrow> bool" +
  fixes astep :: "'a \<Rightarrow> 'a \<Rightarrow> bool" and view :: "'c \<Rightarrow> 'a"
  assumes simulated: "inv s \<Longrightarrow> cstep s t \<Longrightarrow> astep\<^sup>*\<^sup>* (view s) (view t)"
begin

lemma refinement: "cstep\<^sup>*\<^sup>* s t \<Longrightarrow> inv s \<Longrightarrow> astep\<^sup>*\<^sup>* (view s) (view t)"
proof (induction rule: rtranclp_induct)
  case (step t u)
  then show ?case using simulated invariant by (meson rtranclp_trans)
qed simp

text \<open>What the abstract machine keeps holds of every state of the detailed one.\<close>

lemma transfers: "state_machine astep J \<Longrightarrow> J (view s) \<Longrightarrow> inv s \<Longrightarrow> cstep\<^sup>*\<^sup>* s t \<Longrightarrow> J (view t)"
  using refinement state_machine.invariant by fast

end


section \<open>The channel\<close>

record channel =
  offered :: "LogMessage set"
  accepted :: "LogMessage set"
  delivered :: "LogMessage list"
  forgotten :: "LogMessage set"

inductive channel_step :: "string set \<Rightarrow> channel \<Rightarrow> channel \<Rightarrow> bool" for others where
  offer: "m \<notin> offered c \<Longrightarrow> clientId m \<notin> others \<Longrightarrow> channel_step others c (c\<lparr>offered := insert m (offered c)\<rparr>)"
| accept: "m \<in> offered c \<Longrightarrow> channel_step others c (c\<lparr>accepted := insert m (accepted c)\<rparr>)"
| deliver: "m \<in> offered c \<or> clientId m \<in> others \<Longrightarrow> channel_step others c (c\<lparr>delivered := delivered c @ [m]\<rparr>)"
| forget: "m \<in> accepted c \<Longrightarrow> m \<in> set (delivered c) \<Longrightarrow> channel_step others c (c\<lparr>forgotten := insert m (forgotten c)\<rparr>)"

definition empty_channel :: channel where
  "empty_channel = \<lparr>offered = {}, accepted = {}, delivered = [], forgotten = {}\<rparr>"

definition channel_view :: "system \<Rightarrow> channel" where
  "channel_view s = \<lparr>offered = set (attempted (journal s)), accepted = set (logged (journal s)), delivered = printout s,
     forgotten = {x \<in> set (logged (journal s)). \<exists>k \<in> set (acked (journal s)). msgId x \<le> k}\<rparr>"

lemma deliver_many:
  assumes "\<forall>m \<in> set ms. m \<in> offered c \<or> clientId m \<in> others"
  shows "(channel_step others)\<^sup>*\<^sup>* c (c\<lparr>delivered := delivered c @ ms\<rparr>)"
  using assms
proof (induction ms rule: rev_induct)
  case (snoc m ms)
  let ?d = "c\<lparr>delivered := delivered c @ ms\<rparr>"
  have "channel_step others ?d (?d\<lparr>delivered := delivered ?d @ [m]\<rparr>)"
    using snoc.prems by (intro channel_step.deliver) simp
  then show ?case using snoc by (simp add: rtranclp.rtrancl_into_rtrancl)
qed simp

lemma forget_many:
  assumes "finite F" and "F \<subseteq> accepted c" and "F \<subseteq> set (delivered c)"
  shows "(channel_step others)\<^sup>*\<^sup>* c (c\<lparr>forgotten := F \<union> forgotten c\<rparr>)"
  using assms
proof (induction F)
  case (insert m F)
  let ?d = "c\<lparr>forgotten := F \<union> forgotten c\<rparr>"
  have "channel_step others ?d (?d\<lparr>forgotten := insert m (forgotten ?d)\<rparr>)"
    using insert.prems by (intro channel_step.forget) simp_all
  then show ?case using insert by (simp add: rtranclp.rtrancl_into_rtrancl)
qed simp


section \<open>The refinement\<close>

text \<open>All steps but an append leave the log's contents alone, print more and confirm more.\<close>

lemma step_view:
  assumes "system_step others dir sp s t"
  shows "(\<exists>m st k. live (ids s) = Some st \<and> inHand s = Some k \<and> msgId m = k \<and> clientId m = stClientId st
       \<and> attempted (journal t) = attempted (journal s) @ [m] \<and> logged (journal t) \<in> {logged (journal s), logged (journal s) @ [m]}
       \<and> acked (journal t) = acked (journal s) \<and> printout t = printout s)
    \<or> attempted (journal t) = attempted (journal s) \<and> logged (journal t) = logged (journal s)
       \<and> set (acked (journal s)) \<subseteq> set (acked (journal t)) \<and> (\<exists>new. printout t = printout s @ new)"
  using assms
proof cases
  case (append_log st wl k m now logPath line rs r wl' w)
  then show ?thesis
    by (intro disjI1 exI [of _ m] exI [of _ st] exI [of _ k]) (simp add: client_at_def)
qed (simp_all add: client_at_def subset_iff)

lemma extend_view:
  assumes inv: "system_inv others dir sp t"
    and same: "attempted (journal t) = attempted (journal s)" "logged (journal t) = logged (journal s)"
      "set (acked (journal s)) \<subseteq> set (acked (journal t))" "printout t = printout s @ new"
  shows "(channel_step others)\<^sup>*\<^sup>* (channel_view s) (channel_view t)"
proof -
  have M: "message_inv others sp t" using inv by (simp add: system_inv_def)
  note D = message_invD [OF M]
  let ?c = "(channel_view s)\<lparr>delivered := delivered (channel_view s) @ new\<rparr>"
  let ?F = "forgotten (channel_view t)"
  have "(channel_step others)\<^sup>*\<^sup>* (channel_view s) ?c"
    using D(5) same by (intro deliver_many) (auto simp: channel_view_def)
  moreover have "(channel_step others)\<^sup>*\<^sup>* ?c (?c\<lparr>forgotten := ?F \<union> forgotten ?c\<rparr>)"
  proof (rule forget_many)
    show "finite ?F" by (simp add: channel_view_def)
    show "?F \<subseteq> accepted ?c" unfolding channel_view_def by (simp add: same(2))
    have "x \<in> set (printout t)" if "x \<in> ?F" for x
      using D(1) that unfolding acks_ok_def channel_view_def by auto
    then show "?F \<subseteq> set (delivered ?c)" using same(4) by (auto simp: channel_view_def)
  qed
  moreover have "?c\<lparr>forgotten := ?F \<union> forgotten ?c\<rparr> = channel_view t"
    using same by (auto simp: channel_view_def)
  ultimately show ?thesis by (simp add: rtranclp_trans)
qed

lemma append_view:
  assumes inv: "system_inv others dir sp s" and h: "live (ids s) = Some st" "inHand s = Some k"
    and m: "msgId m = k" "clientId m = stClientId st"
    and t: "attempted (journal t) = attempted (journal s) @ [m]" "logged (journal t) \<in> {logged (journal s), logged (journal s) @ [m]}"
      "acked (journal t) = acked (journal s)" "printout t = printout s"
  shows "(channel_step others)\<^sup>*\<^sup>* (channel_view s) (channel_view t)"
proof -
  have C: "client_inv others dir (ids s) (journal s) (inHand s)" and M: "message_inv others sp s"
    using inv by (simp_all add: system_inv_def)
  have new: "\<forall>x \<in> set (attempted (journal s)). msgId x < msgId m" "clientId m \<notin> others"
    using client_invD(6,7) [OF C h(1)] h(2) m by auto
  have "\<not> msgId m \<le> a" if a: "a \<in> set (acked (journal s))" for a
  proof -
    obtain y where "y \<in> set (attempted (journal s))" "a \<le> msgId y"
      using message_invD(1) [OF M] a unfolding acks_ok_def by blast
    then show ?thesis using new(1) by fastforce
  qed
  then have f: "forgotten (channel_view t) = forgotten (channel_view s)"
    using t(2,3) by (auto simp: channel_view_def)
  let ?c = "(channel_view s)\<lparr>offered := insert m (offered (channel_view s))\<rparr>"
  have 1: "channel_step others (channel_view s) ?c"
    using new by (intro channel_step.offer) (auto simp: channel_view_def)
  show ?thesis
  proof (cases "logged (journal t) = logged (journal s)")
    case True
    then have "channel_view t = ?c" using t f by (simp add: channel_view_def)
    with 1 show ?thesis by (simp add: r_into_rtranclp)
  next
    case False
    have 2: "channel_step others ?c (?c\<lparr>accepted := insert m (accepted ?c)\<rparr>)" by (rule channel_step.accept) simp
    have "channel_view t = ?c\<lparr>accepted := insert m (accepted ?c)\<rparr>" using t f False by (auto simp: channel_view_def)
    with 1 2 show ?thesis by (simp add: converse_rtranclp_into_rtranclp r_into_rtranclp)
  qed
qed

interpretation delivery: simulation "system_step others dir sp" "system_inv others dir sp" "channel_step others" channel_view
  for others dir sp
proof
  show "(channel_step others)\<^sup>*\<^sup>* (channel_view s) (channel_view t)"
    if "system_inv others dir sp s" "system_step others dir sp s t" for s t
    using step_view [OF that(2)] extend_view append_view [OF that(1)] system_machine.preserved that by metis
qed

lemma first_view: "first_system dir sp s \<Longrightarrow> channel_view s = empty_channel"
  by (simp add: first_system_def first_wal_def channel_view_def empty_channel_def)

text \<open>What every run of the channel satisfies.\<close>

definition channel_safe :: "string set \<Rightarrow> channel \<Rightarrow> bool" where
  "channel_safe others c \<longleftrightarrow> forgotten c \<subseteq> set (delivered c) \<and> forgotten c \<subseteq> accepted c \<and> accepted c \<subseteq> offered c
    \<and> (\<forall>m \<in> set (delivered c). m \<in> offered c \<or> clientId m \<in> others)"

interpretation channel_machine: state_machine "channel_step others" "channel_safe others" for others
proof
  show "channel_safe others d" if "channel_safe others c" "channel_step others c d" for c d
    using that(2,1) by cases (auto simp: channel_safe_def)
qed

lemma channel_starts_safe: "channel_safe others empty_channel"
  by (simp add: channel_safe_def empty_channel_def)


section \<open>A line on its way\<close>

text \<open>
  When nothing fails, a line of the log goes all the way: it is logged, sent, printed, acknowledged
  and taken out of the log. Each lemma is one step of it.
\<close>

definition sample_client :: string where "sample_client = generateClientId (\<lambda>_. 0)"

definition line_message :: "u64 \<Rightarrow> string \<Rightarrow> LogMessage" where
  "line_message now line = \<lparr>msgId = 1, clientId = sample_client, timestampMs = now, source = ''app.log'', content = line\<rparr>"

lemma line_message_simps [simp]:
  "msgId (line_message now line) = 1" "clientId (line_message now line) = sample_client"
  by (simp_all add: line_message_def)

lemma line_message_valid:
  assumes "length line \<le> MaxContentLength"
  shows "valid_message (line_message now line)"
proof -
  have "length sample_client = 32" by (simp add: sample_client_def length_generateClientId)
  moreover from this have "sample_client \<noteq> []" by auto
  ultimately show ?thesis
    using assms by (simp add: valid_message_def line_message_def MaxClientIdLength_def MaxSourceLength_def)
qed

lemma line_starts:
  assumes f: "first_system dir sp s" and o: "sample_client \<notin> others"
  obtains st t where "system_step others dir sp s t" "live (ids t) = Some st" "stClientId st = sample_client" "stNextId st = 1"
    "wal (journal t) = Some \<lparr>walPath = walFile dir, pendingMsgs = []\<rparr>" "healthy (journal t)" "sending t = []"
    "attempted (journal t) = []" "logged (journal t) = []" "srv t = None" "srvDisk t = srvDisk s" "printout t = []"
proof -
  have n: "live (ids s) = None" "wal (journal s) = None" "fileAt (disk (ids s)) (walFile dir) = None"
      "fileAt (disk (ids s)) (stateFile dir) = None"
    using f by (auto simp: first_system_def first_session_def first_wal_def disk_within_def)
  define st where "st = \<lparr>stPath = stateFile dir, stClientId = sample_client, stNextId = 1, stSourcePath = ''app.log'',
     stFileOffset = 0, stFileDeviceId = 0, stFileInode = 0\<rparr>"
  let ?rs = "replicate (length (renderState st) + 8) (Ok 1)"
  let ?wl = "\<lparr>walPath = walFile dir, pendingMsgs = []\<rparr>"
  obtain w where p: "persistState st (client_disk s ?rs) = (Done (), w)" using persistState_completes by blast
  have l: "openLog (walFile dir) (client_disk s ?rs) = (Done ?wl, client_disk s ?rs)"
    using n(3) scanLog_valid [of "[]" "[]" "[]" "[]" "[]"]
    by (simp add: openLog_def bindW_def readFile_def fileAt_def doneW_def)
  have c: "openClientState (\<lambda>_. 0) (stateFile dir) ''app.log'' [] (client_disk s ?rs) = (Done st, w)"
    using p n(4) by (simp add: openClientState_def reconcileState_def st_def sample_client_def Let_def bindW_def doneW_def)
  have port: "parsePort ''9000'' = Inr 9000"
    by (simp add: parsePort_def stoull_def scanNumber_def isSpace_def isDigit_def digitsValue_def signedValue_def bindR_def)
  have "startClient (Some ''app.log'') None (Some dir) True (\<lambda>_. 0) (client_disk s ?rs) = (Some (Inr (9000, [], ?wl, st)), w)"
    using l c port by (simp add: startClient_def)
  from system_step.start_client [OF n(1,2) _ this, of others sp] o
  have "system_step others dir sp s
      ((client_at (Some st) (Some ?wl) w s)\<lparr>journal := (journal s)\<lparr>wal := Some ?wl, healthy := True, walDisk := w\<rparr>,
         inHand := None, sending := []\<rparr>)" by (simp add: st_def)
  then show thesis
  proof (rule that)
    show "stClientId st = sample_client" "stNextId st = 1" by (simp_all add: st_def)
  qed (use f in \<open>simp_all add: client_at_def first_system_def first_wal_def\<close>)
qed

lemma line_gets_id:
  assumes "live (ids s) = Some st" and "stNextId st \<noteq> - 1"
  obtains t where "system_step others dir sp s t" "live (ids t) = Some (st\<lparr>stNextId := stNextId st + 1\<rparr>)"
    "inHand t = Some (stNextId st)" "journal t = (journal s)\<lparr>walDisk := disk (ids t)\<rparr>"
    "sending t = sending s" "inFlight t = inFlight s" "srv t = srv s" "srvDisk t = srvDisk s" "printout t = printout s"
proof -
  let ?st = "st\<lparr>stNextId := stNextId st + 1\<rparr>"
  let ?rs = "replicate (length (renderState ?st) + 8) (Ok 1)"
  obtain w where "persistState ?st (client_disk s ?rs) = (Done (), w)" using persistState_completes by blast
  then have "nextMessageId st (client_disk s ?rs) = (Done (stNextId st), ?st, w)"
    using assms(2) by (simp add: nextMessageId_def Let_def)
  from system_step.allocate [OF assms(1) this, of others dir sp] show thesis
    by (rule that) (simp_all add: client_at_def unless_crashed_def)
qed

lemma line_logged:
  assumes "live (ids s) = Some st" and "stClientId st = sample_client" and "inHand s = Some 1"
    and "wal (journal s) = Some wl" and "healthy (journal s)" and "length line \<le> MaxContentLength"
  obtains t where "system_step others dir sp s t" "live (ids t) = Some st"
    "wal (journal t) = Some (wl\<lparr>pendingMsgs := pendingMsgs wl @ [line_message now line]\<rparr>)"
    "sending t = sending s @ [line_message now line]" "logged (journal t) = logged (journal s) @ [line_message now line]"
    "inFlight t = inFlight s" "srv t = srv s" "srvDisk t = srvDisk s" "printout t = printout s"
proof -
  let ?m = "line_message now line"
  let ?rs = "replicate (length (logFrame ?m) + 8) (Ok 1)"
  have "\<exists>x w'. appendDurably (walPath wl) (logFrame ?m) (client_disk s ?rs) = (Done x, w')"
    by (rule completesD [OF completes_appendDurably]) simp_all
  then obtain w where run: "appendLog ?m wl (client_disk s ?rs) = (Done (), wl\<lparr>pendingMsgs := pendingMsgs wl @ [?m]\<rparr>, w)"
    using serializeLogMessage_iff [of ?m "logFrame ?m"] line_message_valid [OF assms(6)] by (auto simp: appendLog_def)
  have m: "?m = \<lparr>msgId = 1, clientId = stClientId st, timestampMs = now, source = ''app.log'', content = line\<rparr>"
    using assms(2) by (simp add: line_message_def)
  from system_step.append_log [OF assms(1,4,5,3) m run, of others dir sp] show thesis
    by (rule that) (simp_all add: client_at_def unless_crashed_def)
qed

lemma line_batch:
  assumes "length line \<le> MaxContentLength"
  shows "valid_batch [line_message now line]"
  using line_message_valid [OF assms] by (intro small_batch_valid) (simp_all add: one_client_def ids_increasing_def)

lemma line_printed:
  assumes sv: "srv s = None" and d: "disk_within sp {None} (srvDisk s)" and sp: "sp \<noteq> []"
    and fl: "[line_message now line] \<in> inFlight s" and len: "length line \<le> MaxContentLength"
  obtains t where "system_reach others dir sp s t" "printout t = printout s @ [line_message now line]" "1 \<in> acksSent t"
    "ids t = ids s" "journal t = journal s" "sending t = sending s" "inFlight t = inFlight s"
proof -
  let ?m = "line_message now line"
  let ?sv = "\<lparr>dedup = \<lparr>ddPath = sp, confirmed = []\<rparr>, metrics = noServerMetrics, printed = []\<rparr>"
  let ?s = "s\<lparr>srv := Some ?sv, srvDisk := server_disk s []\<rparr>"
  have "openDedupStore sp (server_disk s []) = (Done \<lparr>ddPath = sp, confirmed = []\<rparr>, server_disk s [])"
    using d sp by (simp add: openDedupStore_def disk_within_def doneW_def)
  from system_step.start_server [OF sv this, of others dir] have 1: "system_step others dir sp s ?s" by simp
  have v: "valid_batch [?m]" using line_batch [OF len] .
  then obtain f where f: "serializeLogBatch [?m] = Inr f" by (simp add: serializeLogBatch_iff)
  then have "decodeLogFrame f = Inr [?m]" by (simp add: decodeLogFrame_iff)
  then obtain evs' where recv: "receiveLogBatch sample_tcp [Segment f] = (Returned (Some [?m]), evs')"
    using receiveLogBatch_frame [of sample_tcp f "[?m]" "[Segment f]" "[]"] by auto
  obtain k sends' sv' w where h: "handleGroup sample_tcp [?m] (replicate (length (serializeAck 1)) (Inl 1)) ?sv
      (server_disk ?s (replicate k (Ok 1))) = (Acked, serializeAck 1, sends', sv', w)"
    using handleGroup_completes [OF valid_batch_group [OF v] sample_tcp_accepted, of ?sv "srvDisk ?s"] by auto
  have "printed sv' = [?m]"
    using handleGroup_printed [OF h] by (simp add: fresh_messages_def highestConfirmed_def find_mark_def)
  moreover have "arrives others ?s [?m]" using fl by (simp add: arrives_def)
  ultimately have "system_step others dir sp ?s (?s\<lparr>srv := Some sv', srvDisk := w, printout := printout s @ [?m],
      acksSent := insert 1 (acksSent s)\<rparr>)"
    using system_step.handle [where s = ?s and others = others and dir = dir and sp = sp, OF _ recv _ h] fl by simp
  with 1 have "system_reach others dir sp s (?s\<lparr>srv := Some sv', srvDisk := w, printout := printout s @ [?m],
      acksSent := insert 1 (acksSent s)\<rparr>)" by (meson reach_intros)
  then show thesis by (rule that) simp_all
qed

lemma line_confirmed:
  assumes l: "live (ids s) = Some st" "wal (journal s) = Some \<lparr>walPath = p, pendingMsgs = [line_message now line]\<rparr>"
    and q: "sending s = [line_message now line]" "[line_message now line] \<in> inFlight s" "1 \<in> acksSent s"
    and len: "length line \<le> MaxContentLength"
  obtains t where "system_step others dir sp s t" "wal (journal t) = Some \<lparr>walPath = p, pendingMsgs = []\<rparr>" "sending t = []"
    "printout t = printout s" "logged (journal t) = logged (journal s)"
proof -
  let ?m = "line_message now line" and ?wl = "\<lparr>walPath = p, pendingMsgs = [line_message now line]\<rparr>"
  obtain f where f: "serializeLogBatch [?m] = Inr f" using line_batch [OF len] by (simp add: serializeLogBatch_iff)
  have b: "bytes_of [Segment (serializeAck 1)] = serializeAck (msgId (last [?m])) @ []" by simp
  obtain sends' evs' where x: "sendLogBatchAndWaitAck [?m] (replicate (length f) (Inl 1)) [Segment (serializeAck 1)] = (Returned 1, f, sends', evs')"
    using sendLogBatchAndWaitAck_completes [OF f b] by auto
  let ?a = "\<lparr>atRunning = True, atConnect = None, atSends = replicate (length f) (Inl 1), atEvents = [Segment (serializeAck 1)], atWaited = True\<rparr>"
  let ?mt = "\<lparr>mtRead = 0, mtWal = 0, mtConfirmed = 0, mtConfirmedBatches = 0, mtRetries = 0\<rparr>"
  let ?rs = "replicate 8 (Ok 1)"
  have "\<exists>y w'. writeAtomically p [] (client_disk s ?rs) = (Done y, w')"
    by (rule completesD [OF completes_writeAtomically]) simp_all
  then obtain w where "writeAtomically p [] (client_disk s ?rs) = (Done (), w)" by auto
  then have "confirmLog 1 ?wl (client_disk s ?rs) = (Done (), \<lparr>walPath = p, pendingMsgs = []\<rparr>, w)"
    by (simp add: confirmLog_def rewriteLocked_def)
  then obtain snd' where run: "tryDeliver ?a (take 1 (sending s))
      \<lparr>connected = False, senderWal = ?wl, senderMetrics = ?mt, waits = []\<rparr> (client_disk s ?rs) = (Inr Delivered, snd', w)"
    and snd': "senderWal snd' = \<lparr>walPath = p, pendingMsgs = []\<rparr>"
    using x q(1) by (auto simp: tryDeliver_def)
  have "k = 1" if "serializeAck 1 = serializeAck k @ later" for k later
    using ack_codec.self_delimiting(1) [of "\<lparr>confirmedId = 1\<rparr>" "serializeAck 1" "\<lparr>confirmedId = k\<rparr>" "serializeAck k" "[]" later] that
    by simp
  then have net: "from_server (acksSent s) (atEvents ?a)" using q(3) by (auto simp: from_server_def)
  have t: "take 1 (sending s) \<in> inFlight s" using q by simp
  from system_step.deliver [OF l _ t net run, of others dir sp] show thesis
    by (rule that) (use snd' q(1) in \<open>simp_all add: client_at_def\<close>)
qed

lemma line_travels:
  assumes f: "first_system dir sp s" and o: "sample_client \<notin> others" and sp: "sp \<noteq> []" and len: "length line \<le> MaxContentLength"
  obtains t u where "system_reach others dir sp s t" "logged (journal t) = [line_message now line]" "printout t = []"
    "system_reach others dir sp s u" "logged (journal u) = [line_message now line]" "printout u = [line_message now line]"
    "wal (journal u) = Some \<lparr>walPath = walFile dir, pendingMsgs = []\<rparr>" "sending u = []"
proof -
  let ?m = "line_message now line"
  obtain st a where a: "system_step others dir sp s a" "live (ids a) = Some st" "stClientId st = sample_client" "stNextId st = 1"
    "wal (journal a) = Some \<lparr>walPath = walFile dir, pendingMsgs = []\<rparr>" "healthy (journal a)" "sending a = []"
    "logged (journal a) = []" "srv a = None" "srvDisk a = srvDisk s" "printout a = []"
    using line_starts [OF f o] by metis
  have "stNextId st \<noteq> - 1" using a(4) by simp
  from line_gets_id [OF a(2) this] obtain b where b: "system_step others dir sp a b" "live (ids b) = Some (st\<lparr>stNextId := 2\<rparr>)"
    "inHand b = Some 1" "journal b = (journal a)\<lparr>walDisk := disk (ids b)\<rparr>" "sending b = []" "srv b = None"
    "srvDisk b = srvDisk s" "printout b = []"
    using a by (metis one_add_one)
  have "stClientId (st\<lparr>stNextId := 2\<rparr>) = sample_client" "wal (journal b) = Some \<lparr>walPath = walFile dir, pendingMsgs = []\<rparr>"
    "healthy (journal b)" "logged (journal b) = []"
    using a b(4) by simp_all
  with line_logged [OF b(2) this(1) b(3) this(2,3) len] b(5-8)
  obtain c where c: "system_step others dir sp b c" "live (ids c) = Some (st\<lparr>stNextId := 2\<rparr>)"
    "wal (journal c) = Some \<lparr>walPath = walFile dir, pendingMsgs = [?m]\<rparr>" "sending c = [?m]" "logged (journal c) = [?m]"
    "srv c = None" "srvDisk c = srvDisk s" "printout c = []"
    by (metis WriteAheadLog.select_convs(2) WriteAheadLog.update_convs(2) append_Nil)
  let ?d = "c\<lparr>inFlight := insert [?m] (inFlight c)\<rparr>"
  have d: "system_step others dir sp c ?d"
    using system_step.transmit [of c 1 others dir sp] c(3,4) by (simp add: SendBatchSize_def)
  have w: "disk_within sp {None} (srvDisk ?d)" using c(7) f by (simp add: first_system_def)
  obtain e where e: "system_reach others dir sp ?d e" "printout e = [?m]" "1 \<in> acksSent e"
    "ids e = ids c" "journal e = journal c" "sending e = [?m]" "[?m] \<in> inFlight e"
    using line_printed [OF _ w sp _ len, of now others dir] c(4,6,8) by auto
  obtain u where u: "system_step others dir sp e u" "wal (journal u) = Some \<lparr>walPath = walFile dir, pendingMsgs = []\<rparr>" "sending u = []"
    "printout u = [?m]" "logged (journal u) = [?m]"
    using line_confirmed [of e "st\<lparr>stNextId := 2\<rparr>" "walFile dir" now line others dir sp] e(2-7) c(2,3,5) len by metis
  have r: "system_reach others dir sp s c" using a(1) b(1) c(1) by (meson reach_intros)
  have "system_reach others dir sp s e" using r d e(1) by (meson reach_intros rtranclp_trans)
  then have "system_reach others dir sp s u" using u(1) by (rule rtranclp.rtrancl_into_rtrancl)
  with that [OF r c(5,8)] u show thesis by blast
qed


section \<open>Properties\<close>

text \<open>
  Property C1. No logged message is lost, whatever fails on either side: in every reachable state of the two
  programs, a message for which \<^verbatim>\<open>append\<close> returned has been printed by the server, or it is pending in
  every log that is opened from the client's disk as it is or as a power loss leaves it. And nothing
  is made up: what is printed under this client's id was given to \<^verbatim>\<open>append\<close> as it is.
\<close>

theorem no_message_lost:
  assumes "first_system dir sp s" and "system_reach others dir sp s t" and "x \<in> set (logged (journal t))"
  shows "(x \<in> set (printout t) \<or>
     (\<forall>w rs wl w'. (w = disk (ids t) \<or> power_loss (disk (ids t)) w) \<and> openLog (walFile dir) (w\<lparr>sched := rs\<rparr>) = (Done wl, w')
        \<longrightarrow> x \<in> set (pendingMsgs wl)))
   \<and> (\<forall>y \<in> set (printout t). clientId y \<notin> others \<longrightarrow> y \<in> set (attempted (journal t)))"
proof -
  have "system_inv others dir sp t" using system_machine.invariant [OF assms(2) first_system_inv [OF assms(1)]] .
  then have C: "client_inv others dir (ids t) (journal t) (inHand t)" and M: "message_inv others sp t"
    by (simp_all add: system_inv_def)
  have "x \<in> set (pendingMsgs wl)"
    if new: "x \<notin> set (printout t)" and w: "w = disk (ids t) \<or> power_loss (disk (ids t)) w"
      and l: "openLog (walFile dir) (w\<lparr>sched := rs\<rparr>) = (Done wl, w')" for w rs wl w'
  proof -
    let ?j = "(journal t)\<lparr>wal := None, walDisk := w\<rparr>"
    obtain c where "wal_inv c (walFile dir) ?j"
      using client_invD(3) [OF stop_client_inv [OF C w]] by blast
    then obtain L where d: "disk_within (walFile dir) (wal_files c L) (w\<lparr>sched := rs\<rparr>)" and L: "\<forall>ms \<in> L. covers c ?j ms"
      unfolding wal_inv_def by auto
    have "x \<in> outstanding ?j"
      using assms(3) new message_invD(1) [OF M] unfolding outstanding_def acks_ok_def by (force simp: not_le [symmetric])
    then show ?thesis using openLog_disk(2) [OF d l HOL.refl] L unfolding covers_def by blast
  qed
  with message_invD(5) [OF M] show ?thesis by blast
qed

definition sample_system :: system where
  "sample_system = \<lparr>ids = \<lparr>issued = [], live = None, disk = sample_storage\<rparr>,
     journal = \<lparr>attempted = [], logged = [], acked = [], wal = None, healthy = False, walDisk = sample_storage\<rparr>,
     inHand = None, sending = [], inFlight = {}, acksSent = {}, srv = None, srvDisk = sample_storage, printout = []\<rparr>"

lemma sample_system_first [simp]: "first_system ''c'' ''d'' sample_system"
  using sample_storage_within [of _ "[]"]
  by (simp add: first_system_def sample_system_def first_session_def first_wal_def)

lemma no_message_lost_witness:
  "\<exists>t x. system_reach {} ''c'' ''d'' sample_system t \<and> logged (journal t) = [x] \<and> printout t = [] \<and> content x = ''hello''
     \<and> (\<forall>rs wl w'. openLog (walFile ''c'') ((disk (ids t))\<lparr>sched := rs\<rparr>) = (Done wl, w') \<longrightarrow> x \<in> set (pendingMsgs wl))"
proof -
  obtain t where t: "system_reach {} ''c'' ''d'' sample_system t" "logged (journal t) = [line_message 7 ''hello'']" "printout t = []"
    by (rule line_travels [of "''c''" "''d''" sample_system "{}" "''hello''" 7]) (auto simp: MaxContentLength_def)
  have "line_message 7 ''hello'' \<notin> set (printout t)" "line_message 7 ''hello'' \<in> set (logged (journal t))" using t by simp_all
  then have "\<forall>rs wl w'. openLog (walFile ''c'') ((disk (ids t))\<lparr>sched := rs\<rparr>) = (Done wl, w') \<longrightarrow> line_message 7 ''hello'' \<in> set (pendingMsgs wl)"
    using no_message_lost [OF sample_system_first t(1)] by blast
  moreover have "content (line_message 7 ''hello'') = ''hello''" by (simp add: line_message_def)
  ultimately show ?thesis using t by blast
qed

text \<open>
  Property C2. The two programs refine a channel that delivers at least once: from the empty channel, every
  step of the system, failures included, is a sequence of its steps, in which a message is accepted
  only after it was offered, delivered only when it was offered or comes from another client, and
  forgotten only after it was delivered. So what left the log was printed.
\<close>

theorem refines_at_least_once:
  assumes "first_system dir sp s" and "system_reach others dir sp s t"
  shows "channel_view s = empty_channel
    \<and> (channel_step others)\<^sup>*\<^sup>* empty_channel (channel_view t)
    \<and> (\<forall>u. system_step others dir sp t u \<longrightarrow> (channel_step others)\<^sup>*\<^sup>* (channel_view t) (channel_view u))
    \<and> forgotten (channel_view t) \<subseteq> set (printout t)"
proof -
  have i: "system_inv others dir sp s" using first_system_inv [OF assms(1)] .
  have it: "system_inv others dir sp t" using system_machine.invariant [OF assms(2) i] .
  have r: "(channel_step others)\<^sup>*\<^sup>* empty_channel (channel_view t)"
    using delivery.refinement [OF assms(2) i] first_view [OF assms(1)] by simp
  have "channel_safe others (channel_view t)"
    using delivery.transfers [OF channel_machine.state_machine_axioms _ i assms(2)] channel_starts_safe first_view [OF assms(1)]
    by metis
  then have "forgotten (channel_view t) \<subseteq> set (printout t)"
    by (simp add: channel_safe_def channel_view_def)
  with it r delivery.simulated first_view [OF assms(1)] show ?thesis by blast
qed

lemma refines_at_least_once_witness:
  "\<exists>t. system_reach {} ''c'' ''d'' sample_system t \<and> delivered (channel_view t) = [line_message 7 ''hello'']
     \<and> (channel_step {})\<^sup>*\<^sup>* empty_channel (channel_view t)"
proof -
  obtain t where t: "system_reach {} ''c'' ''d'' sample_system t" "printout t = [line_message 7 ''hello'']"
    by (rule line_travels [of "''c''" "''d''" sample_system "{}" "''hello''" 7]) (auto simp: MaxContentLength_def)
  have "delivered (channel_view t) = [line_message 7 ''hello'']" using t(2) by (simp add: channel_view_def)
  with refines_at_least_once [OF sample_system_first t(1)] t(1) show ?thesis by blast
qed



end
