(* ===== verification/ExactlyOnce.thy ===== *)
theory ExactlyOnce
  imports Guarantees
begin

text \<open>
  How often a message is printed. At-least-once delivery allows repetitions; the watermarks bound
  them: only a step in which the server prints something and fails to store it lets a message be
  printed once more. Restarts, power losses between two groups, lost acknowledgements and repeated
  batches do not.
\<close>

section \<open>Runs with their failures\<close>

text \<open>
  A step leaves something unconfirmed when the server printed a message in it and is gone afterwards,
  or has a lower watermark for its client.
\<close>

definition unconfirmed :: "system \<Rightarrow> system \<Rightarrow> bool" where
  "unconfirmed s t \<longleftrightarrow> (\<exists>m \<in> set (drop (length (printout s)) (printout t)).
     \<forall>sv. srv t = Some sv \<longrightarrow> highestConfirmed (dedup sv) (clientId m) < msgId m)"

text \<open>\<open>system_run others dir sp n s t\<close>: a run from \<open>s\<close> to \<open>t\<close> with \<open>n\<close> such steps.\<close>

inductive system_run :: "string set \<Rightarrow> path \<Rightarrow> path \<Rightarrow> nat \<Rightarrow> system \<Rightarrow> system \<Rightarrow> bool" for others dir sp where
  refl: "system_run others dir sp 0 s s"
| step: "system_run others dir sp n s t \<Longrightarrow> system_step others dir sp t u \<Longrightarrow>
    system_run others dir sp (if unconfirmed t u then Suc n else n) s u"

lemma system_run_reach: "system_run others dir sp n s t \<Longrightarrow> system_reach others dir sp s t"
  by (induction rule: system_run.induct) (auto intro: reach_intros)

lemma system_reach_run: "system_reach others dir sp s t \<Longrightarrow> \<exists>n. system_run others dir sp n s t"
  by (induction rule: rtranclp_induct) (blast intro: system_run.intros)+


section \<open>Copies\<close>

definition copies :: "string \<Rightarrow> u64 \<Rightarrow> LogMessage list \<Rightarrow> nat" where
  "copies c i ms = length (filter (\<lambda>m. clientId m = c \<and> msgId m = i) ms)"

lemma copies_append [simp]: "copies c i (xs @ ys) = copies c i xs + copies c i ys" "copies c i [] = 0"
  by (simp_all add: copies_def)

lemma copies_none: "(\<And>m. m \<in> set ms \<Longrightarrow> clientId m = c \<Longrightarrow> msgId m \<noteq> i) \<Longrightarrow> copies c i ms = 0"
  by (auto simp: copies_def filter_empty_conv)

lemma copies_increasing:
  assumes "sorted_wrt (<) (map msgId ms)"
  shows "copies c i ms \<le> 1"
  using assms
proof (induction ms)
  case (Cons m ms)
  have c: "copies c i (m # ms) = copies c i [m] + copies c i ms" using copies_append(1) [of c i "[m]" ms] by simp
  show ?case
  proof (cases "clientId m = c \<and> msgId m = i")
    case True
    with Cons.prems have "copies c i ms = 0" by (intro copies_none) auto
    with c show ?thesis by (simp add: copies_def)
  next
    case False
    then have "copies c i [m] = 0" by (intro copies_none) auto
    with c Cons show ?thesis by simp
  qed
qed simp

text \<open>What is fresh is above the watermark, and no id occurs twice in it.\<close>

lemma fresh_copies:
  assumes "log_group ms"
  shows "copies c i (take n (fresh_messages st ms)) \<le> (if highestConfirmed st c < i \<and> i \<le> msgId (last ms) \<and> c = clientId (hd ms) then 1 else 0)"
proof -
  have "sorted_wrt (\<lambda>x y. msgId x < msgId y) ms" using assms unfolding log_group_def sorted_wrt_map by blast
  then have "sorted_wrt (<) (map msgId (take n (fresh_messages st ms)))"
    unfolding fresh_messages_def sorted_wrt_map by (intro sorted_wrt_take sorted_wrt_filter)
  note one = copies_increasing [OF this]
  have above: "clientId m = clientId (hd ms) \<and> highestConfirmed st (clientId m) < msgId m \<and> msgId m \<le> msgId (last ms)"
    if "m \<in> set (take n (fresh_messages st ms))" for m
  proof -
    have m: "m \<in> set ms" "highestConfirmed st (clientId (hd ms)) < msgId m"
      using in_set_takeD [OF that] by (simp_all add: fresh_messages_def)
    moreover have "clientId m = clientId (hd ms)" using assms m(1) unfolding log_group_def by blast
    ultimately show ?thesis using log_group_last(1) [OF assms m(1)] by simp
  qed
  have "copies c i (take n (fresh_messages st ms)) = 0" if "\<not> (highestConfirmed st c < i \<and> i \<le> msgId (last ms) \<and> c = clientId (hd ms))"
    using that above by (intro copies_none) metis
  with one show ?thesis by auto
qed


section \<open>The bound\<close>

text \<open>
  With \<open>f\<close> failures so far, a table of watermarks, in memory or on the disk, allows at most \<open>f\<close> copies of
  what is above it and one more of what is below.
\<close>

definition bounded_by :: "nat \<Rightarrow> LogMessage list \<Rightarrow> watermarks \<Rightarrow> bool" where
  "bounded_by f P T \<longleftrightarrow> ok_marks T \<and> (\<forall>c i. copies c i P \<le> f + (if i \<le> mark T c then 1 else 0))"

definition once_inv :: "path \<Rightarrow> nat \<Rightarrow> LogMessage list \<Rightarrow> ServerRun option \<Rightarrow> world \<Rightarrow> bool" where
  "once_inv sp f P sv w \<longleftrightarrow>
     (\<exists>X S. X \<subseteq> {None} \<and> disk_within sp (X \<union> mark_files S) w \<and> (\<forall>T \<in> S. bounded_by f P T) \<and> (None \<in> X \<longrightarrow> bounded_by f P []))
     \<and> (\<forall>run. sv = Some run \<longrightarrow> ddPath (dedup run) = sp \<and> bounded_by f P (confirmed (dedup run)))"

lemma bounded_by_mono: "bounded_by f P T \<Longrightarrow> f \<le> g \<Longrightarrow> bounded_by g P T"
  unfolding bounded_by_def by (meson add_right_mono le_trans)

lemma bounded_by_raise:
  assumes "bounded_by f P T" and "ok_marks U" and "\<And>c. mark T c \<le> mark U c"
  shows "bounded_by f P U"
proof -
  have "copies c i P \<le> f + (if i \<le> mark U c then 1 else 0)" for c i
  proof -
    have "copies c i P \<le> f + (if i \<le> mark T c then 1 else 0)" using assms(1) by (simp add: bounded_by_def)
    then show ?thesis using assms(3) [of c] by (auto split: if_splits)
  qed
  with assms(2) show ?thesis by (simp add: bounded_by_def)
qed

lemma bounded_by_above:
  assumes "bounded_by f P T" and "mark T c < i"
  shows "copies c i P \<le> f"
proof -
  have "copies c i P \<le> f + (if i \<le> mark T c then 1 else 0)" using assms(1) by (simp add: bounded_by_def)
  with assms(2) show ?thesis by (simp flip: not_le)
qed

text \<open>Printing what is above a table: one failure more, whatever table is looked at.\<close>

lemma bounded_by_failure:
  assumes "bounded_by f P T" and "bounded_by f P (confirmed st)" and "log_group ms"
  shows "bounded_by (Suc f) (P @ take n (fresh_messages st ms)) T"
proof -
  have "copies c i (P @ take n (fresh_messages st ms)) \<le> Suc f + (if i \<le> mark T c then 1 else 0)" for c i
  proof (cases "mark (confirmed st) c < i")
    case True
    then have "copies c i P \<le> f" by (rule bounded_by_above [OF assms(2)])
    with fresh_copies [OF assms(3), of c i n st] show ?thesis by (auto split: if_splits)
  next
    case False
    then have "copies c i (take n (fresh_messages st ms)) = 0"
      using fresh_copies [OF assms(3), of c i n st] by (auto simp: highestConfirmed_mark split: if_splits)
    then show ?thesis using assms(1) by (auto simp: bounded_by_def le_SucI)
  qed
  with assms(1) show ?thesis by (simp add: bounded_by_def)
qed

text \<open>Printing and raising the watermark: no failure.\<close>

lemma bounded_by_confirm:
  assumes T: "bounded_by f P (confirmed st)" and g: "log_group ms" and U: "ok_marks U"
    and up: "\<And>c. mark (confirmed st) c \<le> mark U c" and c: "msgId (last ms) \<le> mark U (clientId (hd ms))"
  shows "bounded_by f (P @ fresh_messages st ms) U"
proof -
  have "copies d i (P @ fresh_messages st ms) \<le> f + (if i \<le> mark U d then 1 else 0)" for d i
  proof (cases "copies d i (fresh_messages st ms) = 0")
    case True
    with bounded_by_raise [OF T U up] show ?thesis by (simp add: bounded_by_def)
  next
    case False
    with fresh_copies [OF g, of d i "length (fresh_messages st ms)" st]
    have d: "highestConfirmed st d < i" "i \<le> msgId (last ms)" "d = clientId (hd ms)" "copies d i (fresh_messages st ms) \<le> 1"
      by (auto split: if_splits)
    then have "copies d i P \<le> f" by (intro bounded_by_above [OF T]) (simp add: highestConfirmed_mark)
    moreover have "i \<le> mark U d" using c d(2,3) by simp
    ultimately show ?thesis using d(4) by simp
  qed
  with U show ?thesis by (simp add: bounded_by_def)
qed

section \<open>The server's steps\<close>

lemma once_invI:
  assumes "X \<subseteq> {None}" and "disk_within sp (X \<union> mark_files S) w" and "\<And>T. T \<in> S \<Longrightarrow> bounded_by f P T"
    and "None \<in> X \<Longrightarrow> bounded_by f P []" and "\<And>run. sv = Some run \<Longrightarrow> ddPath (dedup run) = sp \<and> bounded_by f P (confirmed (dedup run))"
  shows "once_inv sp f P sv w"
  using assms unfolding once_inv_def by blast

lemma once_invE:
  assumes "once_inv sp f P sv w"
  obtains X S where "X \<subseteq> {None}" and "\<And>rs. disk_within sp (X \<union> mark_files S) (w\<lparr>sched := rs\<rparr>)" and "\<And>T. T \<in> S \<Longrightarrow> bounded_by f P T"
    and "None \<in> X \<Longrightarrow> bounded_by f P []" and "\<And>run. sv = Some run \<Longrightarrow> ddPath (dedup run) = sp \<and> bounded_by f P (confirmed (dedup run))"
proof -
  obtain X S where XS: "X \<subseteq> {None}" "disk_within sp (X \<union> mark_files S) w" "\<forall>T \<in> S. bounded_by f P T" "None \<in> X \<longrightarrow> bounded_by f P []"
    and sv: "\<forall>run. sv = Some run \<longrightarrow> ddPath (dedup run) = sp \<and> bounded_by f P (confirmed (dedup run))"
    using assms unfolding once_inv_def by blast
  show thesis by (rule that [of X S]) (use XS sv in auto)
qed

lemma once_inv_down: "once_inv sp f P sv w \<Longrightarrow> once_inv sp f P None w"
  unfolding once_inv_def by blast

lemma once_inv_power_loss: "once_inv sp f P sv w \<Longrightarrow> power_loss w w' \<Longrightarrow> once_inv sp f P None w'"
  unfolding once_inv_def using disk_within_power_loss by blast

lemma once_inv_mono:
  assumes "once_inv sp f P sv w"
  shows "once_inv sp (Suc f) P sv w"
proof -
  have up: "bounded_by f P T \<Longrightarrow> bounded_by (Suc f) P T" for T by (erule bounded_by_mono) simp
  obtain X S where XS: "X \<subseteq> {None}" "disk_within sp (X \<union> mark_files S) w" "\<forall>T \<in> S. bounded_by f P T" "None \<in> X \<longrightarrow> bounded_by f P []"
    and sv: "\<forall>run. sv = Some run \<longrightarrow> ddPath (dedup run) = sp \<and> bounded_by f P (confirmed (dedup run))"
    using assms unfolding once_inv_def by blast
  show ?thesis by (rule once_invI [OF XS(1,2)]) (use XS(3,4) sv up in blast)+
qed

lemma open_once:
  assumes "once_inv sp f P None w0" and run: "openDedupStore sp (w0\<lparr>sched := rs\<rparr>) = (r, w)"
  shows "once_inv sp f P (case r of Done d \<Rightarrow> Some \<lparr>dedup = d, metrics = mt, printed = []\<rparr> | _ \<Rightarrow> None) w"
proof -
  obtain X S where X: "X \<subseteq> {None}" "disk_within sp (X \<union> mark_files S) (w0\<lparr>sched := rs\<rparr>)"
    and S: "\<And>T. T \<in> S \<Longrightarrow> bounded_by f P T" "None \<in> X \<Longrightarrow> bounded_by f P []"
    using assms(1) by (rule once_invE) blast
  note O = openDedupStore_disk [OF X(2,1) run]
  have "ddPath st = sp \<and> bounded_by f P (confirmed st)" if "r = Done st" for st
    using O(2) [OF that] S by auto
  with X(1) O(1) S show ?thesis
    by (intro once_invI [where X = X and S = S]) (auto split: outcome.splits)
qed

lemma crash_once:
  assumes "once_inv sp f P (Some sv) w" and "log_group ms"
  shows "once_inv sp (Suc f) (P @ take n (fresh_messages (dedup sv) ms)) None w"
proof -
  obtain X S where X: "X \<subseteq> {None}" "\<And>rs. disk_within sp (X \<union> mark_files S) (w\<lparr>sched := rs\<rparr>)"
    and S: "\<And>T. T \<in> S \<Longrightarrow> bounded_by f P T" "None \<in> X \<Longrightarrow> bounded_by f P []"
    and sv: "bounded_by f P (confirmed (dedup sv))"
    using assms(1) by (rule once_invE) blast
  have "disk_within sp (X \<union> mark_files S) w" using X(2) [of "sched w"] by simp
  with X(1) S bounded_by_failure [OF _ sv assms(2)] show ?thesis
    by (intro once_invI [where X = X and S = S]) auto
qed

text \<open>A group that is handled: when its watermark could not be stored, that is a failure.\<close>

lemma handle_once:
  assumes inv: "once_inv sp f P (Some sv) w0" and g: "log_group ms" and c: "plain_id (clientId (hd ms))"
    and run: "handleGroup tcp ms sends sv (w0\<lparr>sched := rs\<rparr>) = (r, bs, sends', sv', w)"
  defines "new \<equiv> fresh_messages (dedup sv) ms"
  shows "once_inv sp f (P @ new) (if r = Died then None else Some sv') w
    \<or> once_inv sp (Suc f) (P @ new) (if r = Died then None else Some sv') w
       \<and> (\<exists>m \<in> set new. r = Died \<or> highestConfirmed (dedup sv') (clientId m) < msgId m)"
proof -
  let ?c = "clientId (hd ms)" and ?st = "dedup sv"
  let ?i = "max (highestConfirmed ?st ?c) (msgId (last ms))"
  let ?U = "put_mark ?c ?i (confirmed ?st)"
  obtain X S where X: "X \<subseteq> {None}" and d: "disk_within sp (X \<union> mark_files S) (w0\<lparr>sched := rs\<rparr>)"
    and S: "\<And>T. T \<in> S \<Longrightarrow> bounded_by f P T" "None \<in> X \<Longrightarrow> bounded_by f P []"
    and st: "ddPath ?st = sp" "bounded_by f P (confirmed ?st)"
    using inv by (rule once_invE) blast
  have ok: "ok_marks (confirmed ?st)" using st(2) by (simp add: bounded_by_def)
  have nz: "?i \<noteq> 0" using log_group_last(3) [OF g] by (auto simp: max_def word_gt_0 not_le)
  note U = ok_marks_put [OF ok c nz]
  have mU: "mark ?U e = (if e = ?c then ?i else mark (confirmed ?st) e)" for e
    using mark_put [OF ok_marks_ordered [OF ok]] .
  have up: "mark (confirmed ?st) e \<le> mark ?U e" for e by (subst mU) (simp add: highestConfirmed_mark)
  have BU: "bounded_by f (P @ new) ?U"
    unfolding new_def by (rule bounded_by_confirm [OF st(2) g U up]) (simp add: mU)
  from run g show ?thesis
  proof (cases rule: handleGroup_cases)
    case (confirmed st')
    have r: "r \<noteq> Died" using confirmed(4) by (auto split: netout.splits)
    note D = confirmMark_disk [OF d [folded st(1)] ok c confirmed(1), unfolded st(1)]
    from confirmed(1) have "once_inv sp f (P @ new) (Some sv') w"
    proof (cases rule: confirmMark_cases)
      case stored
      then have "mark (confirmed st') ?c \<noteq> mark (confirmed ?st) ?c" using mU [of ?c] by (simp add: highestConfirmed_mark)
      then have "st' \<noteq> ?st" by blast
      then have "disk_within sp (mark_files {?U}) w" using D(2) [OF HOL.refl] stored(5) by simp
      then show ?thesis
        using BU st(1) stored(5) confirmed(2) by (intro once_invI [where X = "{}" and S = "{?U}"]) auto
    next
      case old
      then have last: "msgId (last ms) \<le> highestConfirmed ?st ?c" by simp
      have "\<not> highestConfirmed ?st ?c < msgId m" if "m \<in> set ms" for m
        using log_group_last(1) [OF g that] last by simp
      then have "new = []" by (simp add: new_def fresh_messages_def filter_empty_conv)
      then show ?thesis
        using X d S st old(4,5) confirmed(2) by (intro once_invI [where X = X and S = S]) auto
    next
      case failed
      then show ?thesis by blast
    qed simp
    with r show ?thesis by simp
  next
    case (failed r0 st')
    note D = confirmMark_disk [OF d [folded st(1)] ok c failed(1), unfolded st(1)]
    obtain T where T: "T \<subseteq> {?U}" "disk_within sp (X \<union> mark_files (T \<union> S)) w" using D(1) by blast
    have same: "dedup sv' = ?st" using failed(1) by (cases rule: confirmMark_cases) (use failed(2,3) in auto)
    show ?thesis
    proof (cases "new = []")
      case True
      with BU have "bounded_by f P ?U" by simp
      then have "once_inv sp f P (if r = Died then None else Some sv') w"
        using X T S st same by (intro once_invI [where X = X and S = "T \<union> S"]) (auto split: if_splits)
      with True show ?thesis by simp
    next
      case False
      have B: "bounded_by (Suc f) (P @ new) T'" if "bounded_by f P T'" for T'
        using bounded_by_failure [OF that st(2) g, of "length new"] by (simp add: new_def)
      have inv': "once_inv sp (Suc f) (P @ new) (if r = Died then None else Some sv') w"
        using X T S B st same bounded_by_mono [OF BU]
        by (intro once_invI [where X = X and S = "T \<union> S"]) (auto split: if_splits)
      obtain m where m: "m \<in> set new" using False by (cases new) auto
      have "m \<in> set ms" "highestConfirmed ?st ?c < msgId m" using m by (simp_all add: new_def fresh_messages_def)
      moreover from this have "clientId m = ?c" using g unfolding log_group_def by blast
      ultimately have "highestConfirmed (dedup sv') (clientId m) < msgId m" by (simp only: same)
      then have "\<exists>m \<in> set new. r = Died \<or> highestConfirmed (dedup sv') (clientId m) < msgId m" using m by blast
      with inv' show ?thesis by blast
    qed
  qed
qed


section \<open>The system's steps\<close>

abbreviation once_in :: "path \<Rightarrow> nat \<Rightarrow> system \<Rightarrow> bool" where
  "once_in sp f s \<equiv> once_inv sp f (printout s) (srv s) (srvDisk s)"

lemma arrives_plain:
  assumes "system_inv others dir sp s" and "arrives others s ms" and "log_group ms"
  shows "plain_id (clientId (hd ms))"
proof (cases "ms \<in> inFlight s")
  case True
  have "message_inv others sp s" and C: "client_inv others dir (ids s) (journal s) (inHand s)"
    using assms(1) by (simp_all add: system_inv_def)
  then have "set ms \<subseteq> set (attempted (journal s))" using message_invD(2) True unfolding batch_ok_def by blast
  moreover have "hd ms \<in> set ms" using assms(3) by (simp add: log_group_def)
  ultimately show ?thesis using client_invD(4) [OF C] by blast
qed (use assms(2) in \<open>simp add: arrives_def\<close>)

lemma step_once:
  assumes sys: "system_inv others dir sp s" and inv: "once_in sp f s" and stp: "system_step others dir sp s t"
  shows "once_in sp (if unconfirmed s t then Suc f else f) t"
proof -
  have weaker: "once_in sp (if unconfirmed s t then Suc f else f) t" if "once_in sp f t"
    using that once_inv_mono by simp
  from stp show ?thesis
  proof cases
    case (start_server rs r w)
    from open_once [OF inv [unfolded start_server(2)] start_server(3)] show ?thesis
      by (intro weaker) (simp add: start_server(1))
  next
    case (handle sv tcp evs ms evs' sends rs r bs sends' sv' w)
    have g: "log_group ms" using receiveLogBatch_group [OF handle(3)] .
    have new: "printout t = printout s @ fresh_messages (dedup sv) ms" "srv t = (if r = Died then None else Some sv')" "srvDisk t = w"
      using handleGroup_printed [OF handle(5)] by (simp_all add: handle(1))
    from handle_once [OF inv [unfolded handle(2)] g arrives_plain [OF sys handle(4) g] handle(5)]
    show ?thesis
    proof
      assume "once_inv sp f (printout s @ fresh_messages (dedup sv) ms) (if r = Died then None else Some sv') w"
      then show ?thesis by (intro weaker) (simp only: new)
    next
      assume a: "once_inv sp (Suc f) (printout s @ fresh_messages (dedup sv) ms) (if r = Died then None else Some sv') w
        \<and> (\<exists>m \<in> set (fresh_messages (dedup sv) ms). r = Died \<or> highestConfirmed (dedup sv') (clientId m) < msgId m)"
      then have "unconfirmed s t" unfolding unconfirmed_def new by auto
      with a show ?thesis by (simp only: new if_True)
    qed
  next
    case (crash_printing sv tcp evs ms evs' n)
    have g: "log_group ms" using receiveLogBatch_group [OF crash_printing(3)] .
    note c = crash_once [OF inv [unfolded crash_printing(2)] g, of n]
    show ?thesis
    proof (cases "take n (fresh_messages (dedup sv) ms) = []")
      case True
      have "once_in sp f t"
        using once_inv_down [OF inv] unfolding crash_printing(1) True by simp
      then show ?thesis by (rule weaker)
    next
      case False
      then have "unconfirmed s t" unfolding unconfirmed_def crash_printing(1) by (auto simp: ex_in_conv)
      with c show ?thesis by (simp add: crash_printing(1))
    qed
  next
    case stop_server
    with once_inv_down [OF inv] show ?thesis by (intro weaker) simp
  next
    case (server_power_loss w)
    with once_inv_power_loss [OF inv] show ?thesis by (intro weaker) simp
  qed (use inv in \<open>intro weaker; simp add: client_at_def\<close>)+
qed

lemma first_once:
  assumes "first_system dir sp s"
  shows "once_in sp 0 s"
proof -
  have "srv s = None" "disk_within sp {None} (srvDisk s)" "printout s = []"
    using assms unfolding first_system_def by blast+
  then show ?thesis
    by (intro once_invI [where X = "{None}" and S = "{}"]) (auto simp: bounded_by_def states_of_def ok_marks_def)
qed

lemma system_run_once:
  assumes "system_run others dir sp n s t" and "first_system dir sp s"
  shows "once_in sp n t"
  using assms
proof (induction rule: system_run.induct)
  case (refl s)
  then show ?case by (rule first_once)
next
  case (step n s t u)
  have "system_inv others dir sp t"
    using system_machine.invariant [OF system_run_reach [OF step(1)] first_system_inv [OF step(4)]] .
  from step_once [OF this step(3) [OF step(4)] step(2)] show ?case .
qed

section \<open>The property\<close>

text \<open>
  Property C3. A message is printed once, and at most once more for every time the server printed something
  and did not get to store it: in a run with \<open>n\<close> such steps no id of a client occurs more than \<open>n + 1\<close>
  times in all that was ever printed, through restarts of both programs, power losses, lost
  acknowledgements and repeated batches. With none, what was acknowledged is printed exactly once.
\<close>

theorem printed_once_per_failure:
  assumes "first_system dir sp s" and "system_run others dir sp n s t"
  shows "copies c i (printout t) \<le> Suc n
    \<and> (\<forall>x \<in> set (logged (journal t)). \<forall>k \<in> set (acked (journal t)). msgId x \<le> k \<longrightarrow>
         x \<in> set (printout t) \<and> (n = 0 \<longrightarrow> copies (clientId x) (msgId x) (printout t) = 1))"
proof -
  have inv: "once_in sp n t" using system_run_once [OF assms(2,1)] .
  then obtain X S where X: "X \<subseteq> {None}" "disk_within sp (X \<union> mark_files S) (srvDisk t)"
    and S: "\<And>T. T \<in> S \<Longrightarrow> bounded_by n (printout t) T" "None \<in> X \<Longrightarrow> bounded_by n (printout t) []"
    unfolding once_inv_def by blast
  have "fileAt (srvDisk t) sp \<in> X \<union> mark_files S" using X(2) by (simp add: disk_within_def)
  then have "None \<in> X \<or> S \<noteq> {}" using X(1) by (auto simp: states_of_def)
  then have "\<exists>T. bounded_by n (printout t) T" using S by blast
  then obtain T where T: "bounded_by n (printout t) T" ..
  have le: "copies d j (printout t) \<le> Suc n" for d j
  proof -
    have "copies d j (printout t) \<le> n + (if j \<le> mark T d then 1 else 0)" using T by (simp add: bounded_by_def)
    then show ?thesis by (simp split: if_splits)
  qed
  have "message_inv others sp t"
    using system_machine.invariant [OF system_run_reach [OF assms(2)] first_system_inv [OF assms(1)]] by (simp add: system_inv_def)
  from message_invD(1) [OF this] have printed: "x \<in> set (printout t)"
    if "x \<in> set (logged (journal t))" "k \<in> set (acked (journal t))" "msgId x \<le> k" for x k
    using that unfolding acks_ok_def by blast
  have "copies (clientId x) (msgId x) (printout t) \<noteq> 0" if "x \<in> set (printout t)" for x
    using that by (auto simp: copies_def filter_empty_conv)
  with le printed show ?thesis by (metis One_nat_def le_0_eq le_Suc_eq)
qed

lemma printed_once_per_failure_witness:
  "\<exists>t. system_run {''a1''} ''c'' ''d'' 0 sample_system t \<and> printout t = [sample_message 3, sample_message 4]
     \<and> copies ''a1'' 3 (printout t) \<le> 1"
proof -
  let ?ms = "[sample_message 3, sample_message 4]"
  obtain f evs' where rc: "receiveLogBatch sample_tcp [Segment f] = (Returned (Some ?ms), evs')"
    using sample_round by metis
  let ?sends = "replicate (length (serializeAck 4)) (Inl (1::nat))"
  have g: "log_group ?ms" using valid_batch_group [OF sample_batch] .
  obtain k sends' sv' w' where h: "handleGroup sample_tcp ?ms ?sends (sample_server []) (sample_storage\<lparr>sched := replicate k (Ok 1)\<rparr>)
      = (Acked, serializeAck 4, sends', sv', w')"
    using handleGroup_completes [OF g sample_tcp_accepted, of "sample_server []" sample_storage] by auto
  let ?a = "sample_system\<lparr>srv := Some (sample_server []), srvDisk := sample_storage\<lparr>sched := []\<rparr>\<rparr>"
  let ?b = "?a\<lparr>srv := Some sv', srvDisk := w', printout := ?ms\<rparr>"
  have "openDedupStore ''d'' (server_disk sample_system []) = (Done \<lparr>ddPath = ''d'', confirmed = []\<rparr>, sample_storage\<lparr>sched := []\<rparr>)"
    by (simp add: openDedupStore_def fileAt_def sample_storage_def sample_system_def doneW_def)
  from system_step.start_server [OF _ this, of "{''a1''}" "''c''"]
  have a: "system_step {''a1''} ''c'' ''d'' sample_system ?a" by (simp add: sample_system_def sample_server_def)
  have p: "printed sv' = ?ms"
    using handleGroup_printed [OF h] by (simp add: fresh_messages_def highestConfirmed_def find_mark_def sample_server_def)
  have arr: "arrives {''a1''} ?a ?ms" by (simp add: arrives_def)
  have up: "srv ?a = Some (sample_server [])" by simp
  have run: "handleGroup sample_tcp ?ms ?sends (sample_server []) (server_disk ?a (replicate k (Ok 1))) = (Acked, serializeAck 4, sends', sv', w')"
    using h by simp
  from system_step.handle [OF up rc arr run, of "''c''" "''d''"]
  have b: "system_step {''a1''} ''c'' ''d'' ?a ?b" using p by (simp add: sample_system_def sample_server_def)
  have "highestConfirmed (dedup sv') ''a1'' = 4"
    using handleGroup_marks(4) [OF h g] by (simp add: sample_server_def highestConfirmed_def find_mark_def ordered_def)
  then have ok: "\<not> unconfirmed ?a ?b" by (simp add: unconfirmed_def sample_system_def)
  have "\<not> unconfirmed sample_system ?a" by (simp add: unconfirmed_def)
  then have "system_run {''a1''} ''c'' ''d'' 0 sample_system ?a" using system_run.step [OF system_run.refl a] by simp
  from system_run.step [OF this b] ok have r: "system_run {''a1''} ''c'' ''d'' 0 sample_system ?b" by simp
  from printed_once_per_failure [OF sample_system_first r, of "''a1''" 3] have "copies ''a1'' 3 (printout ?b) \<le> 1" by simp
  with r show ?thesis by (intro exI [of _ ?b]) simp
qed

end
