(* ===== verification/SystemPrograms.thy ===== *)
theory SystemPrograms
  imports Guarantees ClientBehaviour
begin

text \<open>
  The loops of the two programs are runs of the system: a turn of the producer and a whole connection
  of the server take the machine of \<^verbatim>\<open>System\<close> from the state before to the state after, step by step. So
  what holds of the reachable states of the machine holds of the code's loops, at every point where
  they may stop or be interleaved.
\<close>

lemma own_sched [simp]: "w\<lparr>sched := sched w\<rparr> = w"
  by simp


section \<open>The client's calls\<close>

text \<open>
  The client's disk, which is \<open>w\<close> but for the results of the coming calls, and its two objects, which are
  gone when the process died.
\<close>

definition client_has :: "(ClientState \<times> WriteAheadLog) option \<Rightarrow> world \<Rightarrow> system \<Rightarrow> bool" where
  "client_has objs w s \<longleftrightarrow> live (ids s) = map_option fst objs \<and> wal (journal s) = map_option snd objs
     \<and> client_disk s (sched w) = w"

abbreviation alive_unless :: "bool \<Rightarrow> 'a \<Rightarrow> 'a option" where
  "alive_unless died x \<equiv> (if died then None else Some x)"

definition server_half :: "system \<Rightarrow> u64 set \<times> ServerRun option \<times> world \<times> LogMessage list" where
  "server_half s = (acksSent s, srv s, srvDisk s, printout s)"

lemma client_hasD: "client_has (Some (st, wl)) w s \<Longrightarrow> live (ids s) = Some st \<and> wal (journal s) = Some wl \<and> client_disk s (sched w) = w"
  by (simp add: client_has_def)

lemmas after_call = client_has_def client_at_def unless_crashed_def server_half_def

lemma id_step:
  assumes "client_has (Some (st, wl)) w s" and "nextMessageId st w = (r, st', w')"
  obtains t where "system_step others dir sp s t" "client_has (alive_unless (r = Crash) (st', wl)) w' t"
    "server_half t = server_half s" "inFlight t = inFlight s" "healthy (journal t) = healthy (journal s)"
    "sending t = sending s" "logged (journal t) = logged (journal s)" "\<And>i. r = Done i \<Longrightarrow> inHand t = Some i"
proof -
  note l = client_hasD [OF assms(1)]
  have "nextMessageId st (client_disk s (sched w)) = (r, st', w')"
    using assms(2) l by simp
  from system_step.allocate [OF _ this, of others dir sp] l show thesis
    by (intro that) (assumption | simp add: after_call)+
qed

lemma append_step:
  assumes "client_has (Some (st, wl)) w s" and "healthy (journal s)" and "inHand s = Some (msgId m)" and "clientId m = stClientId st"
    and "appendLog m wl w = (r, wl', w')"
  obtains t where "system_step others dir sp s t" "client_has (alive_unless (r = Crash) (st, wl')) w' t"
    "server_half t = server_half s" "inFlight t = inFlight s" "healthy (journal t) = (r = Done ())"
    "sending t = sending s @ (if r = Done () then [m] else [])"
    "logged (journal t) = logged (journal s) @ (if r = Done () then [m] else [])"
proof -
  note l = client_hasD [OF assms(1)]
  have run: "appendLog m wl (client_disk s (sched w)) = (r, wl', w')"
    using assms(5) l by simp
  have m: "m = \<lparr>msgId = msgId m, clientId = stClientId st, timestampMs = timestampMs m, source = source m, content = content m\<rparr>"
    using assms(4) by (cases m) simp
  from l have "live (ids s) = Some st" "wal (journal s) = Some wl" by simp_all
  from system_step.append_log [OF this assms(2,3) m run, of others dir sp] l show thesis
    by (intro that) (assumption | simp add: after_call)+
qed

lemma checkpoint_step:
  assumes "client_has (Some (st, wl)) w s" and "updateFileCheckpoint off device inode st w = (r, st', w')"
  obtains t where "system_step others dir sp s t" "client_has (alive_unless (r = Crash) (st', wl)) w' t"
    "server_half t = server_half s" "inFlight t = inFlight s" "healthy (journal t) = healthy (journal s)"
    "sending t = sending s" "logged (journal t) = logged (journal s)"
proof -
  note l = client_hasD [OF assms(1)]
  have "updateFileCheckpoint off device inode st (client_disk s (sched w)) = (r, st', w')"
    using assms(2) l by simp
  from system_step.checkpoint [OF _ this, of others dir sp] l show thesis
    by (intro that) (assumption | simp add: after_call)+
qed


section \<open>The producer\<close>

text \<open>
  \<open>produces others dir sp died ms objs w s t\<close>: from \<open>s\<close> the machine gets to \<open>t\<close>, where the client has
  these objects and this disk and has logged \<open>ms\<close>, in this order, to be sent; the server is as it was.
\<close>

definition produces :: "string set \<Rightarrow> path \<Rightarrow> path \<Rightarrow> LogMessage list \<Rightarrow> (ClientState \<times> WriteAheadLog) option \<Rightarrow> world
    \<Rightarrow> system \<Rightarrow> system \<Rightarrow> bool" where
  "produces others dir sp ms objs w s t \<longleftrightarrow> system_reach others dir sp s t \<and> client_has objs w t
     \<and> server_half t = server_half s \<and> inFlight t = inFlight s
     \<and> sending t = sending s @ ms \<and> logged (journal t) = logged (journal s) @ ms"

lemma produces_trans:
  "produces others dir sp ms objs w s t \<Longrightarrow> produces others dir sp ms' objs' w' t u
     \<Longrightarrow> produces others dir sp (ms @ ms') objs' w' s u"
  by (auto simp: produces_def intro: reach_trans)

text \<open>The loop over the lines.\<close>

lemma logLines_runs:
  assumes "logLines lines p w = (r, p', w')" and "client_has (Some (prState p, prWal p)) w s" and "healthy (journal s)"
  shows "\<exists>ms t. produces others dir sp ms (alive_unless (r = Crash) (prState p', prWal p')) w' s t
    \<and> (\<forall>ms'. r = Done ms' \<longrightarrow> ms' = ms \<and> healthy (journal t))"
  using assms
proof (induction lines p w arbitrary: r p' w' s rule: logLines.induct)
  case (1 p w)
  then show ?case by (intro exI [of _ "[]"] exI [of _ s]) (auto simp: produces_def intro: reach_intros)
next
  case (2 line now lines p w)
  obtain r1 st w1 where n: "nextMessageId (prState p) w = (r1, st, w1)" by (metis prod_cases3)
  obtain s1 where s1: "system_step others dir sp s s1" "client_has (alive_unless (r1 = Crash) (st, prWal p)) w1 s1"
    "server_half s1 = server_half s" "inFlight s1 = inFlight s" "healthy (journal s1) = healthy (journal s)"
    "sending s1 = sending s" "logged (journal s1) = logged (journal s)" "\<And>i. r1 = Done i \<Longrightarrow> inHand s1 = Some i"
    using id_step [OF 2(3) n] by metis
  from s1 have p1: "produces others dir sp [] (alive_unless (r1 = Crash) (st, prWal p)) w1 s s1"
    by (simp add: produces_def system_once)
  show ?case
  proof (cases "\<exists>i. r1 = Done i")
    case False
    then have f: "(r = Crash) = (r1 = Crash)" "\<forall>ms. r \<noteq> Done ms" "prState p' = st" "prWal p' = prWal p" "w' = w1"
      using 2(2) n by (cases r1; auto)+
    from p1 have "produces others dir sp [] (alive_unless (r = Crash) (prState p', prWal p')) w' s s1" by (simp only: f)
    with f(2) show ?thesis by blast
  next
    case True
    then obtain i where i: "r1 = Done i" by blast
    let ?m = "\<lparr>msgId = i, clientId = stClientId st, timestampMs = now, source = rdPath (tailReader p), content = line\<rparr>"
    obtain r2 wl w2 where a: "appendLog ?m (prWal p) w1 = (r2, wl, w2)" by (metis prod_cases3)
    have h1: "client_has (Some (st, prWal p)) w1 s1" "healthy (journal s1)" "inHand s1 = Some (msgId ?m)"
      "clientId ?m = stClientId st" using s1 i 2(4) by simp_all
    obtain s2 where s2: "system_step others dir sp s1 s2" "client_has (alive_unless (r2 = Crash) (st, wl)) w2 s2"
      "server_half s2 = server_half s1" "inFlight s2 = inFlight s1" "healthy (journal s2) = (r2 = Done ())"
      "sending s2 = sending s1 @ (if r2 = Done () then [?m] else [])"
      "logged (journal s2) = logged (journal s1) @ (if r2 = Done () then [?m] else [])"
      using append_step [OF h1 a] by metis
    from s2 have "produces others dir sp (if r2 = Done () then [?m] else []) (alive_unless (r2 = Crash) (st, wl)) w2 s1 s2"
      by (simp add: produces_def system_once)
    from produces_trans [OF p1 this]
    have p2: "produces others dir sp (if r2 = Done () then [?m] else []) (alive_unless (r2 = Crash) (st, wl)) w2 s s2" by simp
    show ?thesis
    proof (cases "r2 = Done ()")
      case False
      then have f: "(r = Crash) = (r2 = Crash)" "\<forall>ms. r \<noteq> Done ms" "prState p' = st" "prWal p' = wl" "w' = w2"
        using 2(2) n i a by (cases r2; auto simp: Let_def)+
      from p2 False have "produces others dir sp [] (alive_unless (r = Crash) (prState p', prWal p')) w' s s2"
        by (simp only: f if_False)
      with f(2) show ?thesis by blast
    next
      case True
      let ?p = "p\<lparr>prState := st, prWal := wl, prMetrics := (prMetrics p)\<lparr>mtWal := mtWal (prMetrics p) + 1\<rparr>\<rparr>"
      obtain rl p3 w3 where l: "logLines lines ?p w2 = (rl, p3, w3)" by (metis prod_cases3)
      have "client_has (Some (prState ?p, prWal ?p)) w2 s2" "healthy (journal s2)" using s2 True by simp_all
      from 2(1) [OF n [symmetric] i HOL.refl HOL.refl a [symmetric] True HOL.refl l this] obtain ms t where
        m: "produces others dir sp ms (alive_unless (rl = Crash) (prState p3, prWal p3)) w3 s2 t"
          "\<forall>ms'. rl = Done ms' \<longrightarrow> ms' = ms \<and> healthy (journal t)" by blast
      have res: "p' = p3" "w' = w3" "(rl = Crash) = (r = Crash)" "r = Done ms' \<Longrightarrow> \<exists>xs. rl = Done xs \<and> ms' = ?m # xs" for ms'
        using 2(2) n i a True l by (cases rl; auto simp: Let_def)+
      from produces_trans [OF p2 m(1)] True res(1-3)
      have "produces others dir sp (?m # ms) (alive_unless (r = Crash) (prState p', prWal p')) w' s t" by auto
      moreover have "\<forall>ms'. r = Done ms' \<longrightarrow> ms' = ?m # ms \<and> healthy (journal t)" using res(4) m(2) by auto
      ultimately show ?thesis by blast
    qed
  qed
qed

text \<open>One turn, and the loop over the turns.\<close>

lemma producerRound_runs:
  assumes "producerRound env stamp p w = (r, p', w')" and "client_has (Some (prState p, prWal p)) w s" and "healthy (journal s)"
  shows "\<exists>ms t. produces others dir sp ms (alive_unless (r = Crash) (prState p', prWal p')) w' s t
    \<and> (\<forall>ms'. r = Done ms' \<longrightarrow> ms' = ms \<and> healthy (journal t))"
proof -
  obtain r1 rd where rd: "readNewLines env (tailReader p) = (r1, rd)" by fastforce
  show ?thesis
  proof (cases r1)
    case (Inl e)
    then have "r = Throw e" "prState p' = prState p" "prWal p' = prWal p" "w' = w"
      using assms(1) rd by (auto simp: producerRound_def)
    with assms(2) show ?thesis
      by (intro exI [of _ "[]"] exI [of _ s]) (simp add: produces_def rtranclp.rtrancl_refl)
  next
    case (Inr lines)
    let ?p1 = "p\<lparr>tailReader := rd, prMetrics := (prMetrics p)\<lparr>mtRead := mtRead (prMetrics p) + of_nat (length lines)\<rparr>\<rparr>"
    let ?lines = "zip lines (map stamp [0..<length lines])"
    obtain rl p2 w2 where l: "logLines ?lines ?p1 w = (rl, p2, w2)" by (metis prod_cases3)
    have "client_has (Some (prState ?p1, prWal ?p1)) w s" using assms(2) by simp
    from logLines_runs [OF l this assms(3)] obtain ms t where
      t: "produces others dir sp ms (alive_unless (rl = Crash) (prState p2, prWal p2)) w2 s t"
        "\<forall>ms'. rl = Done ms' \<longrightarrow> ms' = ms \<and> healthy (journal t)" by blast
    show ?thesis
    proof (cases "\<exists>ms'. rl = Done ms'")
      case False
      then have f: "(rl = Crash) = (r = Crash)" "\<forall>ms. r \<noteq> Done ms" "p2 = p'" "w2 = w'"
        using assms(1) rd Inr l by (cases rl; auto simp: producerRound_def Let_def)+
      from t(1) have "produces others dir sp ms (alive_unless (r = Crash) (prState p', prWal p')) w' s t" by (simp only: f)
      with f(2) show ?thesis by blast
    next
      case True
      then have rl: "rl = Done ms" and h: "healthy (journal t)" using t(2) by blast+
      obtain rc st w3 where c: "updateFileCheckpoint (of_nat (committedOffset rd)) (rdDeviceId rd) (rdInode rd) (prState p2) w2 = (rc, st, w3)"
        by (metis prod_cases3)
      have res: "(rc = Crash) = (r = Crash)" "st = prState p'" "prWal p2 = prWal p'" "w3 = w'" "\<forall>ms'. r = Done ms' \<longrightarrow> ms' = ms"
        using assms(1) rd Inr l rl c by (cases rc; auto simp: producerRound_def Let_def)+
      have "client_has (Some (prState p2, prWal p2)) w2 t" using t(1) rl by (simp add: produces_def)
      from checkpoint_step [OF this c] obtain u where
        u: "system_step others dir sp t u" "client_has (alive_unless (rc = Crash) (st, prWal p2)) w3 u"
        "server_half u = server_half t" "inFlight u = inFlight t" "healthy (journal u) = healthy (journal t)"
        "sending u = sending t" "logged (journal u) = logged (journal t)" by metis
      from u have "produces others dir sp [] (alive_unless (rc = Crash) (st, prWal p2)) w3 t u"
        by (simp add: produces_def system_once)
      from produces_trans [OF t(1) this]
      have "produces others dir sp ms (alive_unless (r = Crash) (prState p', prWal p')) w' s u"
        unfolding res by (simp only: append_Nil2)
      with res(5) h u(5) show ?thesis by blast
    qed
  qed
qed

lemma pushAll_prefix: "pushAll ms rs = (qs, ok) \<Longrightarrow> \<exists>ms2. ms = qs @ ms2 \<and> (ok = Some True \<longrightarrow> ms2 = [])"
  by (induction ms rs arbitrary: qs ok rule: pushAll.induct) (auto split: if_splits prod.splits)

lemma producerLoop_runs:
  assumes "producerLoop rounds p w = (r, qs, p', w')" and "client_has (Some (prState p, prWal p)) w s" and "healthy (journal s)"
  shows "\<exists>ms t. produces others dir sp ms (alive_unless (r = ReaderCrashed) (prState p', prWal p')) w' s t \<and> (\<exists>rest'. ms = qs @ rest')"
  using assms
proof (induction rounds p w arbitrary: r qs p' w' s rule: producerLoop.induct)
  case (1 p w)
  then show ?case by (intro exI [of _ "[]"] exI [of _ s]) (auto simp: produces_def intro: reach_intros)
next
  case (2 running env stamp pushes rounds p w)
  show ?case
  proof (cases running)
    case False
    with 2(2,3) show ?thesis by (intro exI [of _ "[]"] exI [of _ s]) (auto simp: produces_def intro: reach_intros)
  next
    case True
    obtain r1 p1 w1 where n: "producerRound env stamp p w = (r1, p1, w1)" by (metis prod_cases3)
    from producerRound_runs [OF n 2(3,4)] obtain ms t where
      t: "produces others dir sp ms (alive_unless (r1 = Crash) (prState p1, prWal p1)) w1 s t"
        "\<forall>ms'. r1 = Done ms' \<longrightarrow> ms' = ms \<and> healthy (journal t)" by blast
    show ?thesis
    proof (cases "\<exists>ms'. r1 = Done ms'")
      case False
      then have f: "(r1 = Crash) = (r = ReaderCrashed)" "qs = []" "p1 = p'" "w1 = w'"
        using 2(2) True n by (cases r1; auto)+
      from t(1) have "produces others dir sp ms (alive_unless (r = ReaderCrashed) (prState p', prWal p')) w' s t" by (simp only: f)
      with f(2) show ?thesis by blast
    next
      case ran: True
      then have r1: "r1 = Done ms" and h: "healthy (journal t)" using t(2) by blast+
      obtain q ok where q: "pushAll ms pushes = (q, ok)" by fastforce
      from pushAll_prefix [OF q] obtain ms2 where ms2: "ms = q @ ms2" "ok = Some True \<Longrightarrow> ms2 = []" by blast
      show ?thesis
      proof (cases "ok = Some True")
        case False
        then have f: "r \<noteq> ReaderCrashed" "qs = q" "p1 = p'" "w1 = w'"
          using 2(2) True n r1 q by (cases ok; auto split: bool.splits)+
        from t(1) r1 f(1) have "produces others dir sp ms (alive_unless (r = ReaderCrashed) (prState p', prWal p')) w' s t"
          by (simp add: f)
        with f(2) ms2(1) show ?thesis by blast
      next
        case ok: True
        obtain r2 q2 p2 w2 where l: "producerLoop rounds p1 w1 = (r2, q2, p2, w2)" by (metis prod_cases4)
        have f: "r = r2" "qs = q @ q2" "p' = p2" "w' = w2" using 2(2) True n r1 q ok l by auto
        have "client_has (Some (prState p1, prWal p1)) w1 t" using t(1) r1 by (simp add: produces_def)
        from 2(1) [OF _ n [symmetric] r1 HOL.refl q [symmetric] ok TrueI [THEN eqTrueI] l this h] True obtain ms3 u where
          u: "produces others dir sp ms3 (alive_unless (r2 = ReaderCrashed) (prState p2, prWal p2)) w2 t u" "\<exists>rest'. ms3 = q2 @ rest'"
          by blast
        from produces_trans [OF t(1) u(1)] u(2) ms2 ok f show ?thesis by (metis append_Nil2 append_assoc)
      qed
    qed
  qed
qed

section \<open>The server\<close>

text \<open>
  The server's disk, its store and what it printed. The counters are not compared: the machine counts no
  connections, and no call depends on a counter.
\<close>

definition server_has :: "ServerRun option \<Rightarrow> world \<Rightarrow> system \<Rightarrow> bool" where
  "server_has run w s \<longleftrightarrow> server_disk s (sched w) = w \<and> map_option dedup (srv s) = map_option dedup run
     \<and> map_option printed (srv s) = map_option printed run"

definition client_half :: "system \<Rightarrow> session \<times> wal_session \<times> u64 option \<times> LogMessage list \<times> LogMessage list set" where
  "client_half s = (ids s, journal s, inHand s, sending s, inFlight s)"

lemma handleGroup_metrics:
  assumes "handleGroup tcp ms sends sv w = (r, bs, sends', sv', w')"
  shows "\<exists>mt'. handleGroup tcp ms sends (sv\<lparr>metrics := mt\<rparr>) w = (r, bs, sends', sv'\<lparr>metrics := mt'\<rparr>, w')"
proof -
  let ?c = "clientId (hd ms)"
  let ?latest = "fst (snd (processMessages (highestConfirmed (dedup sv) ?c) ms (highestConfirmed (dedup sv) ?c) (metrics sv)))"
  obtain r1 st w1 where c: "confirmMark ?c ?latest (dedup sv) w = (r1, st, w1)" by (metis prod_cases3)
  obtain r2 b2 s2 where a: "sendAck tcp (msgId (last ms)) sends = (r2, b2, s2)" by (metis prod_cases3)
  show ?thesis
    using assms c a
    by (cases r1; cases r2; cases sv; auto simp: handleGroup_def Let_def processMessages_result)
qed

lemma server_has_other_metrics:
  assumes "server_has (Some sv) w s"
  obtains mt where "srv s = Some (sv\<lparr>metrics := mt\<rparr>)" "server_disk s (sched w) = w"
proof -
  obtain sv0 where "srv s = Some sv0" "dedup sv0 = dedup sv" "printed sv0 = printed sv" "server_disk s (sched w) = w"
    using assms by (cases "srv s") (auto simp: server_has_def)
  then show thesis by (intro that [of "metrics sv0"]) (cases sv; cases sv0; simp)
qed

definition serves :: "string set \<Rightarrow> path \<Rightarrow> path \<Rightarrow> LogMessage list \<Rightarrow> ServerRun option \<Rightarrow> world \<Rightarrow> system \<Rightarrow> system \<Rightarrow> bool" where
  "serves others dir sp new run w s t \<longleftrightarrow> system_reach others dir sp s t \<and> server_has run w t
     \<and> client_half t = client_half s \<and> printout t = printout s @ new"

lemma serves_trans:
  "serves others dir sp new run w s t \<Longrightarrow> serves others dir sp new' run' w' t u \<Longrightarrow> serves others dir sp (new @ new') run' w' s u"
  by (auto simp: serves_def intro: reach_trans)

lemma group_step:
  assumes "handleGroup tcp ms sends sv w = (r, bs, sends', sv', w')" and "server_has (Some sv) w s"
    and "receiveLogBatch tcp evs = (Returned (Some ms), evs')" and "arrives others s ms"
  obtains t where "serves others dir sp (fresh_messages (dedup sv) ms) (alive_unless (r = Died) sv') w' s t"
proof -
  obtain mt where srv: "srv s = Some (sv\<lparr>metrics := mt\<rparr>)" and w: "server_disk s (sched w) = w"
    using server_has_other_metrics [OF assms(2)] .
  obtain mt' where h: "handleGroup tcp ms sends (sv\<lparr>metrics := mt\<rparr>) w = (r, bs, sends', sv'\<lparr>metrics := mt'\<rparr>, w')"
    using handleGroup_metrics [OF assms(1)] by blast
  have "handleGroup tcp ms sends (sv\<lparr>metrics := mt\<rparr>) (server_disk s (sched w)) = (r, bs, sends', sv'\<lparr>metrics := mt'\<rparr>, w')"
    using h w by simp
  from system_step.handle [OF srv assms(3,4) this, of dir sp]
  obtain t where r: "system_step others dir sp s t" and t: "srv t = (if r = Died then None else Some (sv'\<lparr>metrics := mt'\<rparr>))"
      "srvDisk t = w'" "printout t = printout s @ fresh_messages (dedup sv) ms" "client_half t = client_half s"
    by (rule that) (simp_all add: client_half_def handleGroup_printed [OF assms(1)])
  from t have "serves others dir sp (fresh_messages (dedup sv) ms) (alive_unless (r = Died) sv') w' s t"
    by (simp add: serves_def server_has_def system_once [OF r])
  then show thesis by (rule that)
qed

text \<open>The groups that the loop of a connection may take from its stream all satisfy \<open>P\<close>.\<close>

fun groups_in :: "nat \<Rightarrow> TcpServer \<Rightarrow> event list \<Rightarrow> (LogMessage list \<Rightarrow> bool) \<Rightarrow> bool" where
  "groups_in 0 tcp evs P = True"
| "groups_in (Suc n) tcp evs P \<longleftrightarrow>
     (case receiveLogBatch tcp evs of (Returned (Some ms), evs') \<Rightarrow> P ms \<and> groups_in n tcp evs' P | _ \<Rightarrow> True)"

lemma serves_nothing: "server_has run w s \<Longrightarrow> serves others dir sp [] run w s s"
  by (simp add: serves_def rtranclp.rtrancl_refl)

lemma serves_arrives: "serves others dir sp new run w s t \<Longrightarrow> arrives others t = arrives others s"
  by (auto simp: serves_def client_half_def arrives_def)

lemma serveConnection_runs:
  assumes "serveConnection n tcp evs sends sv w = (e, bs, sv', w')" and "server_has (Some sv) w s"
    and "groups_in n tcp evs (arrives others s)"
  shows "\<exists>new t. printed sv' = printed sv @ new \<and> serves others dir sp new (alive_unless (e = ProcessDied) sv') w' s t"
  using assms
proof (induction n arbitrary: evs sends sv w s bs)
  case 0
  then show ?case using serves_nothing by fastforce
next
  case (Suc n)
  obtain g evs1 where g: "receiveLogBatch tcp evs = (g, evs1)" by fastforce
  show ?case
  proof (cases "\<exists>ms. g = Returned (Some ms)")
    case False
    then have "sv' = sv \<and> w' = w \<and> e \<noteq> ProcessDied"
      using Suc.prems(1) g by (auto split: netout.splits option.splits)
    with Suc.prems(2) serves_nothing show ?thesis by fastforce
  next
    case True
    then obtain ms where ms: "receiveLogBatch tcp evs = (Returned (Some ms), evs1)" using g by blast
    obtain r b1 s1 sv1 w1 where h: "handleGroup tcp ms sends sv w = (r, b1, s1, sv1, w1)" by (metis prod_cases5)
    have "arrives others s ms" using Suc.prems(3) ms by simp
    from group_step [OF h Suc.prems(2) ms this] obtain u where
      u: "serves others dir sp (fresh_messages (dedup sv) ms) (alive_unless (r = Died) sv1) w1 s u" .
    show ?thesis
    proof (cases "r = Acked")
      case False
      then have "sv' = sv1 \<and> w' = w1 \<and> (e = ProcessDied) = (r = Died)"
        using Suc.prems(1) ms h by (cases r) auto
      with u handleGroup_printed [OF h] show ?thesis by metis
    next
      case True
      obtain b2 where c: "serveConnection n tcp evs1 s1 sv1 w1 = (e, b2, sv', w')"
        using Suc.prems(1) ms h True by (auto split: prod.splits)
      have "server_has (Some sv1) w1 u" "groups_in n tcp evs1 (arrives others u)"
        using u True Suc.prems(3) ms serves_arrives [OF u] by (simp_all add: serves_def)
      from Suc.IH [OF c this] obtain new t where
        t: "printed sv' = printed sv1 @ new" "serves others dir sp new (alive_unless (e = ProcessDied) sv') w' u t" by blast
      have "printed sv' = printed sv @ fresh_messages (dedup sv) ms @ new" using t(1) handleGroup_printed [OF h] by simp
      with serves_trans [OF u t(2)] show ?thesis by blast
    qed
  qed
qed

text \<open>The connections of a whole run, and the run itself, from the opening of the store to its end.\<close>

fun conn_groups :: "TcpServer \<Rightarrow> (LogMessage list \<Rightarrow> bool) \<Rightarrow> exn + accepted \<Rightarrow> bool" where
  "conn_groups tcp P (Inr (Client n evs sends)) = groups_in n tcp evs P"
| "conn_groups tcp P _ = True"

lemma serverLoop_runs:
  assumes "serverLoop tcp cs sv w = (r, sv', w')" and "server_has (Some sv) w s"
    and "\<forall>c \<in> set cs. conn_groups tcp (arrives others s) c"
  shows "\<exists>new t. printed sv' = printed sv @ new \<and> serves others dir sp new (alive_unless (r = None) sv') w' s t"
  using assms
proof (induction tcp cs sv w arbitrary: s rule: serverLoop.induct)
  case (4 tcp n evs sends cs sv w)
  let ?sv1 = "sv\<lparr>metrics := (metrics sv)\<lparr>mtConnections := mtConnections (metrics sv) + 1\<rparr>\<rparr>"
  obtain e bs sv1 w1 where c: "serveConnection n tcp evs sends ?sv1 w = (e, bs, sv1, w1)" by (metis prod_cases4)
  have "server_has (Some ?sv1) w s" using 4(5) by (simp add: server_has_def)
  moreover have "groups_in n tcp evs (arrives others s)" using 4(6) by simp
  ultimately obtain new u where
    u: "printed sv1 = printed ?sv1 @ new" "serves others dir sp new (alive_unless (e = ProcessDied) sv1) w1 s u"
    using serveConnection_runs [OF c] by blast
  consider (ends) "e = ProcessDied \<or> e = Blocked" | (more) "e \<noteq> ProcessDied" "e \<noteq> Blocked" by blast
  then show ?case
  proof cases
    case ends
    then have "sv' = sv1 \<and> w' = w1 \<and> (r = None) = (e = ProcessDied)"
      using 4(4) c by (auto simp: Let_def)
    with u show ?thesis by auto
  next
    case more
    then have l: "serverLoop tcp cs sv1 w1 = (r, sv', w')" using 4(4) c by (cases e) (auto simp: Let_def)
    have h: "server_has (Some sv1) w1 u" "\<forall>c \<in> set cs. conn_groups tcp (arrives others u) c"
      using u(2) more 4(6) serves_arrives [OF u(2)] by (simp_all add: serves_def)
    note ih = 4(1-3) [OF HOL.refl c [symmetric] _ HOL.refl HOL.refl l h]
    have "\<exists>new t. printed sv' = printed sv1 @ new \<and> serves others dir sp new (alive_unless (r = None) sv') w' u t"
      using more by (cases e) (rule ih; simp)+
    then obtain new2 t where t: "printed sv' = printed sv1 @ new2" "serves others dir sp new2 (alive_unless (r = None) sv') w' u t"
      by blast
    have "printed sv' = printed sv @ new @ new2" using t(1) u(1) by simp
    with serves_trans [OF u(2) t(2)] show ?thesis by blast
  qed
qed (use serves_nothing in fastforce)+

text \<open>The store is opened as a step, and the end of the process is one.\<close>

lemma open_step:
  assumes "openDedupStore sp w = (r, w')" and "srv s = None" and "server_disk s (sched w) = w"
  obtains t where "serves others dir sp [] (case r of Done st \<Rightarrow> Some \<lparr>dedup = st, metrics = noServerMetrics, printed = []\<rparr> | _ \<Rightarrow> None) w' s t"
proof -
  have "openDedupStore sp (server_disk s (sched w)) = (r, w')" using assms(1,3) by simp
  from system_step.start_server [where others = others and dir = dir, OF assms(2) this] obtain t where
    t: "system_step others dir sp s t" "srvDisk t = w'" "printout t = printout s" "client_half t = client_half s"
      "srv t = (case r of Done st \<Rightarrow> Some \<lparr>dedup = st, metrics = noServerMetrics, printed = []\<rparr> | _ \<Rightarrow> None)"
    by (rule that) (simp_all add: client_half_def)
  then show thesis by (intro that [of t]) (simp add: serves_def server_has_def system_once)
qed

lemma serves_stops:
  assumes "serves others dir sp new run w s t"
  obtains u where "serves others dir sp new None w s u"
proof -
  from system_step.stop_server [of others dir sp t] have "serves others dir sp [] None w t (t\<lparr>srv := None\<rparr>)"
    using assms by (simp add: serves_def server_has_def client_half_def system_once)
  from serves_trans [OF assms this] show thesis by (intro that) simp
qed

lemma serverMain_ends:
  assumes "serverMain portArg (Some sp) sig made conns w = (code, run, w')"
  shows "(\<exists>st w1 port tcp r sv. openDedupStore sp w = (Done st, w1) \<and> made port = Inr tcp
      \<and> serverLoop tcp conns \<lparr>dedup = st, metrics = noServerMetrics, printed = []\<rparr> w1 = (r, sv, w') \<and> run = Some sv)
    \<or> run = None \<and> (w' = w \<or> (\<exists>r. openDedupStore sp w = (r, w') \<and> (\<nexists>st. r = Done st)))"
  using assms by (auto simp: serverMain_def split: sum.splits outcome.splits prod.splits if_splits option.splits netout.splits)

text \<open>
  Property C5. A whole run of the server program is a run of the machine, whatever its arguments, the
  outcomes of its calls and the point where it stops or dies: the machine gets to the same disk, with
  the same messages printed and the client untouched, and with the process gone, by itself or killed
  where it waits. The streams carry only groups that may arrive.
\<close>

theorem server_runs_machine:
  assumes "serverMain portArg (Some sp) sig made conns (server_disk s rs) = (code, run, w')" and "srv s = None"
    and "\<And>port tcp. made port = Inr tcp \<Longrightarrow> \<forall>c \<in> set conns. conn_groups tcp (arrives others s) c"
  shows "\<exists>t. system_reach others dir sp s t \<and> server_disk t (sched w') = w' \<and> client_half t = client_half s
    \<and> printout t = printout s @ (case run of None \<Rightarrow> [] | Some sv \<Rightarrow> printed sv) \<and> srv t = None"
proof -
  consider (ran) st w1 port tcp r sv where "openDedupStore sp (server_disk s rs) = (Done st, w1)" "made port = Inr tcp"
      "serverLoop tcp conns \<lparr>dedup = st, metrics = noServerMetrics, printed = []\<rparr> w1 = (r, sv, w')" "run = Some sv"
    | (nothing) "run = None" "w' = server_disk s rs"
    | (unopened) r :: "DedupStore outcome" where "run = None" "openDedupStore sp (server_disk s rs) = (r, w')" "\<nexists>st. r = Done st"
    using serverMain_ends [OF assms(1)] by blast
  then show ?thesis
  proof cases
    case (ran st w1 port tcp r sv)
    note o = ran(1) and m = ran(2) and l = ran(3) and run = ran(4)
  obtain t where t: "serves others dir sp [] (Some \<lparr>dedup = st, metrics = noServerMetrics, printed = []\<rparr>) w1 s t"
    using open_step [OF o assms(2)] by auto
  then have h: "server_has (Some \<lparr>dedup = st, metrics = noServerMetrics, printed = []\<rparr>) w1 t" by (simp add: serves_def)
  have c: "\<forall>c \<in> set conns. conn_groups tcp (arrives others t) c" using assms(3) [OF m] serves_arrives [OF t] by simp
  from serverLoop_runs [OF l h c, where dir = dir and sp = sp] obtain new u where
    u: "printed sv = new" "serves others dir sp new (alive_unless (r = None) sv) w' t u" by auto
  from serves_stops [OF serves_trans [OF t u(2)]] obtain v where "serves others dir sp new None w' s v" by auto
  with u(1) run show ?thesis by (auto simp: serves_def server_has_def)
  next
    case nothing
    with assms(2) show ?thesis by (intro exI [of _ s]) (simp add: rtranclp.rtrancl_refl)
  next
    case (unopened r)
    then have "(case r of Done st \<Rightarrow> Some \<lparr>dedup = st, metrics = noServerMetrics, printed = []\<rparr> | _ \<Rightarrow> None) = None"
      by (simp split: outcome.split)
    with open_step [OF unopened(2) assms(2), of others dir] obtain t where "serves others dir sp [] None w' s t" by auto
    with unopened(1) show ?thesis by (auto simp: serves_def server_has_def)
  qed
qed

lemma server_runs_machine_witness:
  "\<exists>t rs w' conns sv. system_reach {''a1''} ''c'' ''d'' sample_system t
     \<and> serverMain None (Some ''d'') None (\<lambda>port. Inr sample_tcp) conns (server_disk sample_system rs) = (Some 0, Some sv, w')
     \<and> printed sv = [sample_message 3, sample_message 4] \<and> server_disk t (sched w') = w' \<and> printout t = [sample_message 3, sample_message 4]"
proof -
  let ?ms = "[sample_message 3, sample_message 4]" and ?sends = "replicate (length (serializeAck 4)) (Inl (1::nat))"
  obtain f evs' k sends' sv w' where rc: "receiveLogBatch sample_tcp [Segment f] = (Returned (Some ?ms), evs')"
    and run: "serverMain None (Some ''d'') None (\<lambda>port. Inr sample_tcp) [Inr (Client 1 [Segment f] ?sends), Inr NoClient]
          (sample_storage\<lparr>sched := replicate k (Ok 1)\<rparr>) = (Some 0, Some sv, w')"
    and p: "printed sv = ?ms"
    by (rule sample_server_run)
  let ?conns = "[Inr (Client 1 [Segment f] ?sends), Inr NoClient]"
  have disk: "server_disk sample_system (replicate k (Ok 1)) = sample_storage\<lparr>sched := replicate k (Ok 1)\<rparr>"
    by (simp add: sample_system_def)
  have up: "srv sample_system = None" by (simp add: sample_system_def)
  have "\<forall>c \<in> set ?conns. conn_groups tcp (arrives {''a1''} sample_system) c" if "Inr sample_tcp = (Inr tcp :: TcpServer result)" for tcp
    using that rc by (auto simp: arrives_def)
  from server_runs_machine [OF run [folded disk] up this, where dir = "''c''"] p obtain t where
    "system_reach {''a1''} ''c'' ''d'' sample_system t" "server_disk t (sched w') = w'" "printout t = ?ms"
    by (auto simp: sample_system_def)
  with run [folded disk] p show ?thesis by blast
qed

text \<open>
  Property C4. A whole run of the client up to the sending is a run of the machine, whatever its
  arguments, the lines it reads, the outcomes of its calls and the point where it stops or dies: the
  machine gets to the same disk and the same two objects, with the server untouched; what the consumer
  has to send are the recovered messages and then the newly logged ones, of which the producer has
  put an initial part into the queue, in this order.
\<close>

theorem client_runs_machine:
  assumes "startClient (Some logPath) portArg (Some dir) logExists random (client_disk s rs) = (Some (Inr (port, recovered, wl, st)), w1)"
    and "live (ids s) = None" and "wal (journal s) = None" and "newline \<notin> set logPath" and "stClientId st \<notin> others"
    and "producerThread logPath opened rounds st wl mt w1 = ((r, flag1, flag2), qs, (st', wl', mt'), w')"
  shows "\<exists>ms t. system_reach others dir sp s t \<and> client_has (alive_unless (r = ReaderCrashed) (st', wl')) w' t
    \<and> server_half t = server_half s \<and> sending t = recovered @ ms \<and> logged (journal t) = logged (journal s) @ ms
    \<and> prefix qs ms"
proof -
  from system_step.start_client [where sp = sp, OF assms(2,3,4,1,5)] obtain a where
    a: "system_step others dir sp s a" "client_has (Some (st, wl)) w1 a" "server_half a = server_half s" "healthy (journal a)"
      "sending a = recovered" "logged (journal a) = logged (journal s)" "inFlight a = inFlight s"
    by (rule that) (simp_all add: after_call)
  have "\<exists>ms t. produces others dir sp ms (alive_unless (r = ReaderCrashed) (st', wl')) w' a t \<and> prefix qs ms"
  proof (cases "newFileTailReader logPath (stFileOffset st) (stFileDeviceId st) (stFileInode st) opened")
    case (Inl e)
    with assms(6) a(2) show ?thesis
      by (intro exI [of _ "[]"] exI [of _ a]) (auto simp: producerThread_def produces_def rtranclp.rtrancl_refl)
  next
    case (Inr rd)
    let ?p = "\<lparr>tailReader = rd, prState = st, prWal = wl, prMetrics = mt\<rparr>"
    obtain p1 where l: "producerLoop rounds ?p w1 = (r, qs, p1, w')" and p1: "prState p1 = st'" "prWal p1 = wl'"
      using assms(6) Inr by (auto simp: producerThread_def split: prod.splits)
    have "client_has (Some (prState ?p, prWal ?p)) w1 a" using a(2) by simp
    from producerLoop_runs [OF l this a(4), where others = others and dir = dir and sp = sp]
    show ?thesis unfolding prefix_def p1 by blast
  qed
  then obtain ms t where t: "produces others dir sp ms (alive_unless (r = ReaderCrashed) (st', wl')) w' a t" "prefix qs ms" by blast
  have "system_reach others dir sp s t"
    using t(1) reach_trans [OF _ system_once [OF a(1)]] by (simp add: produces_def)
  with t a show ?thesis by (intro exI [of _ ms] exI [of _ t]) (simp add: produces_def)
qed

lemma client_runs_machine_witness:
  "\<exists>t rs port recovered wl st w1 rounds mt out qs x w' m.
     startClient (Some ''log'') None (Some ''c'') True (\<lambda>_. 0) (client_disk sample_system rs) = (Some (Inr (port, recovered, wl, st)), w1)
     \<and> producerThread ''log'' (Inr (Inr (sample_stat 7 4))) rounds st wl mt w1 = (out, qs, x, w')
     \<and> qs = [m] \<and> content m = ''a'' \<and> system_reach {} ''c'' ''d'' sample_system t \<and> client_disk t (sched w') = w' \<and> m \<in> set (logged (journal t))"
proof -
  let ?env = "sample_env (sample_stat 7 4) (''a'' @ [lf] @ ''bc'') [Inl 1, Inr EINTR, Inl 2, Inl 0]"
  define st where "st = \<lparr>stPath = stateFile ''c'', stClientId = sample_client, stNextId = 1, stSourcePath = ''log'',
     stFileOffset = 0, stFileDeviceId = 0, stFileInode = 0\<rparr>"
  let ?wl = "\<lparr>walPath = walFile ''c'', pendingMsgs = []\<rparr>"
  let ?mt = "\<lparr>mtRead = 0, mtWal = 0, mtConfirmed = 0, mtConfirmedBatches = 0, mtRetries = 0\<rparr>"
  let ?p = "\<lparr>tailReader = sample_reader 0 [], prState = st, prWal = ?wl, prMetrics = ?mt\<rparr>"
  have rd: "readNewLines ?env (tailReader ?p) = (Inr [''a''], sample_reader 3 ''b'')"
    using sample_env_read by (simp add: sample_producer_def)
  have len: "length sample_client = 32" by (simp add: sample_client_def length_generateClientId)
  then have ne: "sample_client \<noteq> []" by auto
  have "\<exists>n p' ms. \<forall>w. all_good (sched w) \<longrightarrow> n \<le> length (sched w) \<longrightarrow> (\<exists>w'. producerRound ?env (\<lambda>k. 5) ?p w = (Done ms, p', w'))"
    using len ne by (intro producerRound_completes [OF rd])
      (simp_all add: loggable_def st_def sample_reader_def MaxClientIdLength_def MaxSourceLength_def MaxContentLength_def)
  then obtain n p' ms where n: "\<And>w. all_good (sched w) \<Longrightarrow> n \<le> length (sched w) \<Longrightarrow>
      \<exists>w'. producerRound ?env (\<lambda>k. 5) ?p w = (Done ms, p', w')" by blast
  let ?k = "1 + (1 + (length (bytes_of_string (renderState st)) + (2 + (1 + 3))))"
  let ?w = "sample_storage\<lparr>sched := replicate (?k + n) (Ok 1)\<rparr>"
  have disk: "client_disk sample_system (replicate (?k + n) (Ok 1)) = ?w" by (simp add: sample_system_def)
  have good: "all_good (sched ?w)" "?k \<le> length (sched ?w)" by (auto simp: list_all_iff)
  obtain x w1 where w1: "writeAtomically (stPath st) (bytes_of_string (renderState st)) ?w = (Done x, w1)"
    "all_good (sched w1)" "length (sched ?w) \<le> length (sched w1) + ?k"
    using completes_run [OF completes_writeAtomically good] by blast
  then have "n \<le> length (sched w1)" by simp
  with n [of w1] w1(2) obtain w' where round: "producerRound ?env (\<lambda>k. 5) ?p w1 = (Done ms, p', w')" by blast
  have content: "map content ms = [''a'']" using producerRound_result(1) [OF round rd] by fastforce
  then obtain m where m: "ms = [m]" "content m = ''a''" by auto
  have "persistState st ?w = (Done (), w1)" using w1(1) by (simp add: persistState_def)
  then have c: "openClientState (\<lambda>_. 0) (stateFile ''c'') ''log'' [] ?w = (Done st, w1)"
    by (simp add: openClientState_def reconcileState_def st_def sample_client_def Let_def bindW_def doneW_def fileAt_def sample_storage_def)
  have l: "openLog (walFile ''c'') ?w = (Done ?wl, ?w)"
    using scanLog_valid [of "[]" "[]" "[]" "[]" "[]"]
    by (simp add: openLog_def bindW_def readFile_def fileAt_def doneW_def sample_storage_def)
  have port: "parsePort ''9000'' = Inr 9000"
    by (simp add: parsePort_def stoull_def scanNumber_def isSpace_def isDigit_def digitsValue_def signedValue_def bindR_def)
  have start: "startClient (Some ''log'') None (Some ''c'') True (\<lambda>_. 0) (client_disk sample_system (replicate (?k + n) (Ok 1))) = (Some (Inr (9000, [], ?wl, st)), w1)"
    unfolding disk using l c port by (simp add: startClient_def)
  let ?rounds = "[(True, ?env, \<lambda>k. 5, [True])]"
  have "newFileTailReader ''log'' 0 0 0 (Inr (Inr (sample_stat 7 4))) = Inr (sample_reader 0 [])"
    by (simp add: newFileTailReader_def openCurrentFile_def sample_stat_def sample_reader_def Let_def)
  then have prod: "producerThread ''log'' (Inr (Inr (sample_stat 7 4))) ?rounds st ?wl ?mt w1
      = ((StillReading, False, False), [m], (prState p', prWal p', prMetrics p'), w')"
    using round m(1) by (simp add: producerThread_def st_def)
  have h: "live (ids sample_system) = None" "wal (journal sample_system) = None" "newline \<notin> set ''log''" "stClientId st \<notin> {}"
    by (simp_all add: sample_system_def)
  from client_runs_machine [OF start h prod, where sp = "''d''"] obtain ms2 t where
    r: "system_reach {} ''c'' ''d'' sample_system t" and d: "client_disk t (sched w') = w'" and "logged (journal t) = ms2" "prefix [m] ms2"
    by (auto simp: client_has_def sample_system_def)
  then have lg: "m \<in> set (logged (journal t))" by (auto simp: prefix_def)
  show ?thesis
    by (intro exI conjI, rule start, rule prod, rule HOL.refl, rule m(2), rule r, rule d, rule lg)
qed

section \<open>The consumer\<close>

text \<open>
  What an attempt reads from its connection was sent by the server by then: wherever the machine is,
  with the batch in flight, the server can get to where these acknowledgements are out.
\<close>

definition answered :: "string set \<Rightarrow> path \<Rightarrow> path \<Rightarrow> system \<Rightarrow> LogMessage list \<Rightarrow> attempt \<Rightarrow> bool" where
  "answered others dir sp s batch a \<longleftrightarrow> (\<forall>u. system_reach others dir sp s u \<and> batch \<in> inFlight u \<longrightarrow>
     (\<exists>v. system_reach others dir sp u v \<and> client_half v = client_half u \<and> from_server (acksSent v) (atEvents a)))"

lemma same_client_half:
  "client_half v = client_half u \<Longrightarrow> client_has objs w u \<Longrightarrow> client_has objs w v"
  by (simp add: client_half_def client_has_def)

lemma attempt_step:
  assumes h: "client_has (Some (st, senderWal sd)) w s" and b: "take n (sending s) \<in> inFlight s" "0 < n"
    and net: "from_server (acksSent s) (atEvents a)" and run: "tryDeliver a (take n (sending s)) sd w = (r, sd', w')"
  obtains t where "system_step others dir sp s t" "client_has (alive_unless (r = Inr Crashed) (st, senderWal sd')) w' t"
    "sending t = (if r = Inr Delivered then drop n (sending s) else sending s)" "inFlight t = inFlight s"
    "logged (journal t) = logged (journal s)"
proof -
  note l = client_hasD [OF h]
  have "\<lparr>connected = connected sd, senderWal = senderWal sd, senderMetrics = senderMetrics sd, waits = waits sd\<rparr> = sd"
    by (cases sd) simp
  with run l have "tryDeliver a (take n (sending s)) \<lparr>connected = connected sd, senderWal = senderWal sd, senderMetrics = senderMetrics sd, waits = waits sd\<rparr>
      (client_disk s (sched w)) = (r, sd', w')" by metis
  from system_step.deliver [OF _ _ b(2,1) net this, of st others dir sp] l show thesis
    by (intro that) (assumption | simp add: client_has_def client_at_def)+
qed

text \<open>The retries of one batch, with the server working in between.\<close>

lemma deliverLoop_runs:
  assumes "deliverLoop as delay (take n (sending s)) sd w = (d, sd', w', as')"
    and "client_has (Some (st, senderWal sd)) w s" and "take n (sending s) \<in> inFlight s" and "0 < n"
    and "\<forall>a \<in> set as. answered others dir sp s (take n (sending s)) a"
  shows "\<exists>t. system_reach others dir sp s t \<and> client_has (alive_unless (d = Crashed) (st, senderWal sd')) w' t
    \<and> sending t = (if d = Delivered then drop n (sending s) else sending s) \<and> logged (journal t) = logged (journal s)"
  using assms
proof (induction as arbitrary: delay sd w s)
  case Nil
  then show ?case by (intro exI [of _ s]) (auto intro: rtranclp.rtrancl_refl)
next
  case (Cons a as)
  let ?b = "take n (sending s)"
  show ?case
  proof (cases "atRunning a")
    case False
    with Cons.prems(1,2) show ?thesis by (intro exI [of _ s]) (auto intro: rtranclp.rtrancl_refl)
  next
    case running: True
    obtain v where v: "system_reach others dir sp s v" "client_half v = client_half s" "from_server (acksSent v) (atEvents a)"
      using Cons.prems(3,5) rtranclp.rtrancl_refl [of "system_step others dir sp" s] unfolding answered_def by auto
    have same: "sending v = sending s" "inFlight v = inFlight s" "journal v = journal s" using v(2) by (simp_all add: client_half_def)
    obtain r sd1 w1 where a: "tryDeliver a ?b sd w = (r, sd1, w1)" by (metis prod_cases3)
    have "take n (sending v) \<in> inFlight v" using Cons.prems(3) same by simp
    from attempt_step [OF same_client_half [OF v(2) Cons.prems(2)] this Cons.prems(4) v(3) a [folded same(1)]]
    obtain t where t: "system_step others dir sp v t" "client_has (alive_unless (r = Inr Crashed) (st, senderWal sd1)) w1 t"
      "sending t = (if r = Inr Delivered then drop n (sending s) else sending s)" "inFlight t = inFlight s"
      "logged (journal t) = logged (journal s)" unfolding same by metis
    have st: "system_reach others dir sp s t" using v(1) t(1) by (rule system_on)
    show ?thesis
    proof (cases r)
      case (Inr d')
      then have "d = d'" "sd' = sd1" "w' = w1" using Cons.prems(1) running a by simp_all
      with t st Inr show ?thesis by (intro exI [of _ t]) auto
    next
      case (Inl e)
      let ?sd = "sd1\<lparr>connected := False, waits := waits sd1 @ [delay],
        senderMetrics := (senderMetrics sd1)\<lparr>mtRetries := mtRetries (senderMetrics sd1) + 1\<rparr>\<rparr>"
      show ?thesis
      proof (cases "atWaited a")
        case False
        then have "d = GivenUp" "senderWal sd' = senderWal sd1" "w' = w1"
          using Cons.prems(1) running a Inl by (auto simp: Let_def)
        with t st Inl show ?thesis by (intro exI [of _ t]) auto
      next
        case True
        have q: "sending t = sending s" using t(3) Inl by simp
        have nxt: "deliverLoop as (min (delay * 2) MaxRetryDelay) (take n (sending t)) ?sd w1 = (d, sd', w', as')"
          using Cons.prems(1) running a Inl True q by (simp add: Let_def)
        have h: "client_has (Some (st, senderWal ?sd)) w1 t" using t(2) Inl by simp
        have "answered others dir sp t (take n (sending t)) x" if "x \<in> set as" for x
          using Cons.prems(5) that reach_trans [OF _ st] unfolding answered_def q by (metis list.set_intros(2))
        with Cons.IH [OF nxt h _ Cons.prems(4)] Cons.prems(3) t(4) q obtain u where
          u: "system_reach others dir sp t u" "client_has (alive_unless (d = Crashed) (st, senderWal sd')) w' u"
          "sending u = (if d = Delivered then drop n (sending t) else sending t)" "logged (journal u) = logged (journal t)" by auto
        with reach_trans [OF u(1) st] q t(5) show ?thesis by auto
      qed
    qed
  qed
qed

text \<open>
  Property C6. Delivering a batch with all its retries is a run of the machine in which the server works in
  between: whatever the attempts meet and however the call ends, the machine gets to the same disk
  and the same log in memory; the batch leaves what is to be sent exactly when the call says so. What
  an attempt reads was sent by the server before.
\<close>

theorem delivery_runs_machine:
  assumes "deliverWithRetry attempts batch sd w = (d, sd', w', as')" and "client_has (Some (st, senderWal sd)) w s"
    and "batch = take n (sending s)" and "batch \<noteq> []" and "n \<le> SendBatchSize"
    and "\<forall>a \<in> set attempts. answered others dir sp s batch a"
  shows "\<exists>t. system_reach others dir sp s t \<and> client_has (alive_unless (d = Crashed) (st, senderWal sd')) w' t
    \<and> sending t = (if d = Delivered then drop n (sending s) else sending s) \<and> logged (journal t) = logged (journal s)"
proof -
  let ?s = "s\<lparr>inFlight := insert (take n (sending s)) (inFlight s)\<rparr>"
  have n: "0 < n" "sending s \<noteq> []" using assms(3,4) by (auto intro: gr0I)
  then have r: "system_reach others dir sp s ?s"
    using assms(2,5) by (intro system_once system_step.transmit) (simp_all add: client_has_def)
  have "answered others dir sp ?s batch a" if "a \<in> set attempts" for a
    using assms(6) that reach_trans [OF _ r] unfolding answered_def by blast
  then have "\<forall>a \<in> set attempts. answered others dir sp ?s (take n (sending ?s)) a" using assms(3) by simp
  moreover have "deliverLoop attempts InitialRetryDelay (take n (sending ?s)) sd w = (d, sd', w', as')"
    using assms(1,3) by (simp add: deliverWithRetry_def)
  moreover have "client_has (Some (st, senderWal sd)) w ?s" using assms(2) by (simp add: client_has_def)
  ultimately obtain t where "system_reach others dir sp ?s t" "client_has (alive_unless (d = Crashed) (st, senderWal sd')) w' t"
    "sending t = (if d = Delivered then drop n (sending ?s) else sending ?s)" "logged (journal t) = logged (journal ?s)"
    using deliverLoop_runs [of attempts InitialRetryDelay n ?s sd w d sd' w' as' st others dir sp] n(1) by auto
  with reach_trans [OF _ r, of t] show ?thesis by (intro exI [of _ t]) simp
qed

lemma acksSent_grow: "system_reach others dir sp s t \<Longrightarrow> acksSent s \<subseteq> acksSent t"
  by (erule reach_grows) (auto simp: client_at_def elim!: system_step.cases)

text \<open>A state for the example: one line is sent and acknowledged, and the client has not read it yet.\<close>

lemma line_awaits_ack:
  obtains e st where "system_reach {} ''c'' ''d'' sample_system e" "1 \<in> acksSent e" "sending e = [line_message 7 ''hello'']"
    "client_has (Some (st, \<lparr>walPath = walFile ''c'', pendingMsgs = [line_message 7 ''hello'']\<rparr>)) (client_disk e rs) e"
proof -
  let ?m = "line_message 7 ''hello''" and ?p = "walFile ''c''"
  have len: "length ''hello'' \<le> MaxContentLength" by (simp add: MaxContentLength_def)
  obtain st a where a: "system_step {} ''c'' ''d'' sample_system a" "live (ids a) = Some st" "stClientId st = sample_client" "stNextId st = 1"
    "wal (journal a) = Some \<lparr>walPath = ?p, pendingMsgs = []\<rparr>" "healthy (journal a)" "sending a = []" "srv a = None"
    "srvDisk a = sample_storage"
  proof -
    have "srvDisk sample_system = sample_storage" "sample_client \<notin> {}" by (simp_all add: sample_system_def)
    with line_starts [OF sample_system_first, of "{}"] show thesis using that by metis
  qed
  have "stNextId st \<noteq> - 1" using a(4) by simp
  from line_gets_id [OF a(2) this, of "{}" "''c''" "''d''"] obtain b where
    b: "system_step {} ''c'' ''d'' a b" "live (ids b) = Some (st\<lparr>stNextId := 2\<rparr>)" "inHand b = Some 1"
    "journal b = (journal a)\<lparr>walDisk := disk (ids b)\<rparr>" "sending b = []" "srv b = None" "srvDisk b = sample_storage"
    using a by (metis one_add_one)
  have h: "stClientId (st\<lparr>stNextId := 2\<rparr>) = sample_client" "wal (journal b) = Some \<lparr>walPath = ?p, pendingMsgs = []\<rparr>"
    "healthy (journal b)" using a b(4) by simp_all
  obtain c where c: "system_step {} ''c'' ''d'' b c" "live (ids c) = Some (st\<lparr>stNextId := 2\<rparr>)"
    "wal (journal c) = Some \<lparr>walPath = ?p, pendingMsgs = [?m]\<rparr>" "sending c = [?m]" "srv c = None" "srvDisk c = sample_storage"
    using line_logged [OF b(2) h(1) b(3) h(2,3) len, of "{}" "''c''" "''d''" 7] b(5-7)
    by (metis WriteAheadLog.select_convs(2) WriteAheadLog.update_convs(2) append_Nil)
  let ?d = "c\<lparr>inFlight := insert [?m] (inFlight c)\<rparr>"
  have d: "system_step {} ''c'' ''d'' c ?d"
    using system_step.transmit [of c 1 "{}" "''c''" "''d''"] c(3,4) by (simp add: SendBatchSize_def)
  obtain e where e: "system_reach {} ''c'' ''d'' ?d e" "1 \<in> acksSent e" "ids e = ids c" "journal e = journal c" "sending e = [?m]"
    using line_printed [of ?d "''d''" 7 "''hello''" "{}" "''c''"] c(4-6) len sample_storage_within [of "''d''" "[]"] by auto
  have se: "system_reach {} ''c'' ''d'' sample_system e"
    by (rule reach_trans [OF e(1)]) (rule system_on [OF _ d], rule system_on [OF _ c(1)],
      rule system_on [OF _ b(1)], rule system_once [OF a(1)])
  show thesis
    by (rule that [OF se e(2,5)]) (use c(2,3) e(3,4) in \<open>simp add: client_has_def\<close>)
qed

text \<open>The first attempt is refused a connection, the second one gets the acknowledgement.\<close>

lemma delivery_runs_machine_witness:
  "\<exists>s t w d as. system_reach {} ''c'' ''d'' sample_system s \<and> length (sending s) = 1 \<and> length as = 2
     \<and> fst (deliverWithRetry as (sending s) d w) = Delivered \<and> system_reach {} ''c'' ''d'' s t \<and> sending t = []"
proof -
  let ?m = "line_message 7 ''hello''" and ?p = "walFile ''c''"
  have len: "length ''hello'' \<le> MaxContentLength" by (simp add: MaxContentLength_def)
  obtain e st where e: "system_reach {} ''c'' ''d'' sample_system e" "1 \<in> acksSent e" "sending e = [?m]"
    and has: "client_has (Some (st, \<lparr>walPath = ?p, pendingMsgs = [?m]\<rparr>)) (client_disk e (replicate 8 (Ok 1))) e"
    by (rule line_awaits_ack)
  obtain f where f: "serializeLogBatch [?m] = Inr f" using line_batch [OF len] by (simp add: serializeLogBatch_iff)
  have bytes: "bytes_of [Segment (serializeAck 1)] = serializeAck (msgId (last [?m])) @ []" by simp
  obtain sends' evs' where x: "sendLogBatchAndWaitAck [?m] (replicate (length f) (Inl 1)) [Segment (serializeAck 1)] = (Returned 1, f, sends', evs')"
    using sendLogBatchAndWaitAck_completes [OF f bytes] by auto
  let ?x = "\<lparr>atRunning = True, atConnect = Some (SystemError ECONNREFUSED ''connect''), atSends = [], atEvents = [], atWaited = True\<rparr>"
  let ?y = "\<lparr>atRunning = True, atConnect = None, atSends = replicate (length f) (Inl 1), atEvents = [Segment (serializeAck 1)], atWaited = True\<rparr>"
  let ?sd = "\<lparr>connected = False, senderWal = \<lparr>walPath = ?p, pendingMsgs = [?m]\<rparr>,
    senderMetrics = \<lparr>mtRead = 0, mtWal = 0, mtConfirmed = 0, mtConfirmedBatches = 0, mtRetries = 0\<rparr>, waits = []\<rparr>"
  let ?w = "client_disk e (replicate 8 (Ok 1))"
  have "\<exists>y w'. writeAtomically ?p [] ?w = (Done y, w')"
    by (rule completesD [OF completes_writeAtomically]) simp_all
  then obtain w where "writeAtomically ?p [] ?w = (Done (), w)" by auto
  then have "confirmLog 1 \<lparr>walPath = ?p, pendingMsgs = [?m]\<rparr> ?w = (Done (), \<lparr>walPath = ?p, pendingMsgs = []\<rparr>, w)"
    by (simp add: confirmLog_def rewriteLocked_def)
  then obtain sd' w' as' where run: "deliverWithRetry [?x, ?y] [?m] ?sd ?w = (Delivered, sd', w', as')"
    using x by (simp add: deliverWithRetry_def tryDeliver_def Let_def)
  have "k = 1" if "serializeAck 1 = serializeAck k @ later" for k later
    using ack_codec.self_delimiting(1) [of "\<lparr>confirmedId = 1\<rparr>" "serializeAck 1" "\<lparr>confirmedId = k\<rparr>" "serializeAck k" "[]" later] that
    by simp
  then have "from_server (acksSent u) (atEvents ?x) \<and> from_server (acksSent u) (atEvents ?y)" if "system_reach {} ''c'' ''d'' e u" for u
    using acksSent_grow [OF that] e(2) by (auto simp: from_server_def)
  then have ans: "\<forall>a \<in> set [?x, ?y]. answered {} ''c'' ''d'' e [?m] a"
    unfolding answered_def using rtranclp.rtrancl_refl [of "system_step {} ''c'' ''d''"] by auto
  have has2: "client_has (Some (st, senderWal ?sd)) ?w e" using has by simp
  have one: "[?m] = take 1 (sending e)" "[?m] \<noteq> []" "1 \<le> SendBatchSize" using e(3) by (simp_all add: SendBatchSize_def)
  from delivery_runs_machine [OF run has2 one ans] obtain t where t: "system_reach {} ''c'' ''d'' e t" "sending t = []"
    using e(3) by auto
  have "fst (deliverWithRetry [?x, ?y] (sending e) ?sd ?w) = Delivered" using run e(3) by simp
  moreover have "length (sending e) = 1" "length [?x, ?y] = 2" using e(3) by simp_all
  ultimately show ?thesis using e(1) t by blast
qed

end
