(* ===== verification/Console.thy ===== *)
theory Console
  imports ServerMain ClientMain "HOL-Library.Signed_Division"
begin

text \<open>
  What the two programs write on standard output: the lines of \<^verbatim>\<open>src/src/ServerMain.cpp\<close> as a list of
  entries that follows the control flow of the program, the text of every entry byte for byte, the
  two functions \<^verbatim>\<open>printMetrics\<close>, and the clock that stamps the messages. The lemmas show that the metrics
  lines count the lines above them, and that the printed messages can be read back from the text.
\<close>

section \<open>Text\<close>

text \<open>The texts of the code are UTF-8; characters outside of ASCII are written by their bytes.\<close>

definition utf8 :: "nat list \<Rightarrow> string" where
  "utf8 bs = map char_of bs"

text \<open>\<^verbatim>\<open>operator<<\<close> for \<^verbatim>\<open>std::uint64_t\<close> and for \<^verbatim>\<open>std::int64_t\<close>.\<close>

definition showU64 :: "u64 \<Rightarrow> string" where
  "showU64 w = decimal (unat w)"

definition showI64 :: "u64 \<Rightarrow> string" where
  "showI64 w = (if sint w < 0 then CHR ''-'' # decimal (nat (- sint w)) else decimal (nat (sint w)))"

text \<open>\<^verbatim>\<open>printMetrics\<close> of the server and of the client.\<close>

definition printServerMetrics :: "ServerMetrics \<Rightarrow> string" where
  "printServerMetrics mt =
     ''['' @ utf8 [0xE6, 0x8C, 0x87, 0xE6, 0xA0, 0x87] @ ''] '' @ utf8 [0xE8, 0xBF, 0x9E, 0xE6, 0x8E, 0xA5] @ ''='' @ showU64 (mtConnections mt)
     @ utf8 [0xEF, 0xBC, 0x8C, 0xE6, 0x89, 0xB9, 0xE6, 0xAC, 0xA1] @ ''='' @ showU64 (mtBatches mt)
     @ utf8 [0xEF, 0xBC, 0x8C, 0xE6, 0x94, 0xB6, 0xE5, 0x88, 0xB0] @ ''='' @ showU64 (mtReceived mt)
     @ utf8 [0xEF, 0xBC, 0x8C, 0xE6, 0x9C, 0x89, 0xE6, 0x95, 0x88] @ ''='' @ showU64 (mtProcessed mt)
     @ utf8 [0xEF, 0xBC, 0x8C, 0xE9, 0x87, 0x8D, 0xE5, 0xA4, 0x8D] @ ''='' @ showU64 (mtDuplicates mt) @ [newline]"

definition printClientMetrics :: "ClientMetrics \<Rightarrow> nat \<Rightarrow> nat \<Rightarrow> string" where
  "printClientMetrics mt backlog walPending =
     ''['' @ utf8 [0xE6, 0x8C, 0x87, 0xE6, 0xA0, 0x87] @ ''] '' @ utf8 [0xE5, 0xB7, 0xB2, 0xE8, 0xAF, 0xBB, 0xE5, 0x8F, 0x96] @ ''='' @ showU64 (mtRead mt)
     @ utf8 [0xEF, 0xBC, 0x8C, 0xE5, 0xB7, 0xB2, 0xE5, 0x86, 0x99] @ '' WAL='' @ showU64 (mtWal mt)
     @ utf8 [0xEF, 0xBC, 0x8C, 0xE5, 0xB7, 0xB2, 0xE7, 0xA1, 0xAE, 0xE8, 0xAE, 0xA4] @ ''='' @ showU64 (mtConfirmed mt)
     @ utf8 [0xEF, 0xBC, 0x8C, 0xE7, 0xA1, 0xAE, 0xE8, 0xAE, 0xA4, 0xE6, 0x89, 0xB9, 0xE6, 0xAC, 0xA1] @ ''='' @ showU64 (mtConfirmedBatches mt)
     @ utf8 [0xEF, 0xBC, 0x8C, 0xE9, 0x87, 0x8D, 0xE8, 0xAF, 0x95] @ ''='' @ showU64 (mtRetries mt)
     @ utf8 [0xEF, 0xBC, 0x8C, 0xE9, 0x98, 0x9F, 0xE5, 0x88, 0x97, 0xE7, 0xA7, 0xAF, 0xE5, 0x8E, 0x8B] @ ''='' @ decimal backlog
     @ utf8 [0xEF, 0xBC, 0x8C] @ ''WAL '' @ utf8 [0xE5, 0xBE, 0x85, 0xE7, 0xA1, 0xAE, 0xE8, 0xAE, 0xA4] @ ''='' @ decimal walPending @ [newline]"

text \<open>
  \<^verbatim>\<open>currentTimestampMs\<close>: the system clock counts nanoseconds since 1970; \<^verbatim>\<open>duration_cast\<close> to milliseconds
  divides towards zero.
\<close>

definition currentTimestampMs :: "int \<Rightarrow> u64" where
  "currentTimestampMs now = word_of_int (now sdiv 1000000)"


section \<open>The server's standard output\<close>

text \<open>The statements of \<^verbatim>\<open>main\<close> that write to \<^verbatim>\<open>std::cout\<close>, with the values they write.\<close>

datatype console =
    Listening u16
  | WaitingForClient
  | ClientConnected
  | SkippedDuplicate string u64
  | PrintedLog LogMessage
  | BatchConfirmed nat u64 u64
  | MetricsLine ServerMetrics
  | ClientGone
  | ServerStopped

fun consoleLine :: "console \<Rightarrow> string" where
  "consoleLine (Listening port) = ''LogBridge '' @ utf8 [0xE6, 0x9C, 0x8D, 0xE5, 0x8A, 0xA1, 0xE7, 0xAB, 0xAF, 0xE6, 0xAD, 0xA3, 0xE5, 0x9C, 0xA8, 0xE7, 0x9B, 0x91, 0xE5, 0x90, 0xAC, 0xE7, 0xAB, 0xAF, 0xE5, 0x8F, 0xA3] @ '' '' @ decimal (unat port) @ [newline]"
| "consoleLine WaitingForClient = utf8 [0xE7, 0xAD, 0x89, 0xE5, 0xBE, 0x85, 0xE5, 0xAE, 0xA2, 0xE6, 0x88, 0xB7, 0xE7, 0xAB, 0xAF, 0xE8, 0xBF, 0x9E, 0xE6, 0x8E, 0xA5] @ ''...'' @ [newline]"
| "consoleLine ClientConnected = utf8 [0xE5, 0xAE, 0xA2, 0xE6, 0x88, 0xB7, 0xE7, 0xAB, 0xAF, 0xE5, 0xB7, 0xB2, 0xE8, 0xBF, 0x9E, 0xE6, 0x8E, 0xA5] @ [newline]"
| "consoleLine (SkippedDuplicate client i) =
     utf8 [0xE8, 0xB7, 0xB3, 0xE8, 0xBF, 0x87, 0xE9, 0x87, 0x8D, 0xE5, 0xA4, 0x8D, 0xE6, 0x97, 0xA5, 0xE5, 0xBF, 0x97, 0xEF, 0xBC, 0x9A] @ ''client='' @ client @ '' id='' @ showU64 i @ [newline]"
| "consoleLine (PrintedLog m) =
     CHR ''['' # showU64 (msgId m) @ ''] '' @ showI64 (timestampMs m) @ '' '' @ source m @ '' | '' @ content m @ [newline]"
| "consoleLine (BatchConfirmed n upTo watermark) =
     utf8 [0xE5, 0xB7, 0xB2, 0xE7, 0xA1, 0xAE, 0xE8, 0xAE, 0xA4, 0xE6, 0x89, 0xB9, 0xE6, 0xAC, 0xA1, 0xEF, 0xBC, 0x9A] @ decimal n
     @ '' '' @ utf8 [0xE6, 0x9D, 0xA1, 0xEF, 0xBC, 0x8C, 0xE6, 0xB6, 0x88, 0xE6, 0x81, 0xAF] @ '' ID='' @ showU64 upTo
     @ utf8 [0xEF, 0xBC, 0x8C, 0xE5, 0x8E, 0xBB, 0xE9, 0x87, 0x8D, 0xE6, 0xB0, 0xB4, 0xE4, 0xBD, 0x8D] @ ''='' @ showU64 watermark @ [newline]"
| "consoleLine (MetricsLine mt) = printServerMetrics mt"
| "consoleLine ClientGone = utf8 [0xE5, 0xAE, 0xA2, 0xE6, 0x88, 0xB7, 0xE7, 0xAB, 0xAF, 0xE5, 0xB7, 0xB2, 0xE6, 0x96, 0xAD, 0xE5, 0xBC, 0x80] @ [newline]"
| "consoleLine ServerStopped = ''LogBridge '' @ utf8 [0xE6, 0x9C, 0x8D, 0xE5, 0x8A, 0xA1, 0xE7, 0xAB, 0xAF, 0xE5, 0xB7, 0xB2, 0xE5, 0xAE, 0x89, 0xE5, 0x85, 0xA8, 0xE5, 0x81, 0x9C, 0xE6, 0xAD, 0xA2] @ [newline]"

definition consoleText :: "console list \<Rightarrow> string" where
  "consoleText es = concat (map consoleLine es)"

text \<open>The loop over the messages of a group, and the rest of the round.\<close>

fun processConsole :: "string \<Rightarrow> u64 \<Rightarrow> LogMessage list \<Rightarrow> console list" where
  "processConsole client previous [] = []"
| "processConsole client previous (m # ms) =
     (if msgId m \<le> previous then SkippedDuplicate client (msgId m) # processConsole client previous ms
      else PrintedLog m # processConsole client previous ms)"

definition groupConsole ::
  "TcpServer \<Rightarrow> LogMessage list \<Rightarrow> (nat + errno) list \<Rightarrow> ServerRun \<Rightarrow> world \<Rightarrow> console list" where
  "groupConsole tcp messages sends sv w =
     (let mt1 = (metrics sv)\<lparr>mtReceived := mtReceived (metrics sv) + of_nat (length messages)\<rparr>;
          client = clientId (hd messages);
          previous = highestConfirmed (dedup sv) client;
          (out, latest, mt2) = processMessages previous messages previous mt1;
          shown = processConsole client previous messages
      in case confirmMark client latest (dedup sv) w of
           (Done persisted, st, w') \<Rightarrow>
             (case sendAck tcp (msgId (last messages)) sends of
                (Returned _, bs, sends') \<Rightarrow>
                  shown @ [BatchConfirmed (length messages) (msgId (last messages)) persisted,
                           MetricsLine (mt2\<lparr>mtBatches := mtBatches mt2 + 1\<rparr>)]
              | _ \<Rightarrow> shown)
         | _ \<Rightarrow> shown)"

text \<open>
  One connection. \<open>still\<close> is the load of \<^verbatim>\<open>running\<close> after a client that left in order; after a test that
  was false it is false, since nothing sets \<^verbatim>\<open>running\<close> again.
\<close>

fun connectionConsole ::
  "nat \<Rightarrow> bool \<Rightarrow> TcpServer \<Rightarrow> event list \<Rightarrow> (nat + errno) list \<Rightarrow> ServerRun \<Rightarrow> world \<Rightarrow> console list" where
  "connectionConsole 0 still tcp evs sends sv w = []"
| "connectionConsole (Suc n) still tcp evs sends sv w =
     (case receiveLogBatch tcp evs of
        (Returned None, evs') \<Rightarrow> if still then [ClientGone] else []
      | (Returned (Some messages), evs') \<Rightarrow>
          groupConsole tcp messages sends sv w
          @ (case handleGroup tcp messages sends sv w of
               (Acked, bs, sends', sv', w') \<Rightarrow> connectionConsole n still tcp evs' sends' sv' w'
             | _ \<Rightarrow> [])
      | _ \<Rightarrow> [])"

text \<open>
  The loop over the connections and what follows it: the last metrics line and the farewell, unless
  an exception left the loop.
\<close>

fun serverConsole ::
  "TcpServer \<Rightarrow> ((exn + accepted) \<times> bool) list \<Rightarrow> ServerRun \<Rightarrow> world \<Rightarrow> console list" where
  "serverConsole tcp [] sv w = [MetricsLine (metrics sv), ServerStopped]"
| "serverConsole tcp ((Inl e, still) # cs) sv w = [WaitingForClient]"
| "serverConsole tcp ((Inr NoClient, still) # cs) sv w = [WaitingForClient, MetricsLine (metrics sv), ServerStopped]"
| "serverConsole tcp ((Inr (Client n evs sends), still) # cs) sv w =
     (let sv1 = sv\<lparr>metrics := (metrics sv)\<lparr>mtConnections := mtConnections (metrics sv) + 1\<rparr>\<rparr>
      in [WaitingForClient, ClientConnected] @ connectionConsole n still tcp evs sends sv1 w
         @ (case serveConnection n tcp evs sends sv1 w of
              (ProcessDied, _, sv', w') \<Rightarrow> []
            | (Blocked, _, sv', w') \<Rightarrow> []
            | (_, _, sv', w') \<Rightarrow> serverConsole tcp cs sv' w'))"

definition serverMainConsole ::
  "string option \<Rightarrow> string option \<Rightarrow> exn option \<Rightarrow> (u16 \<Rightarrow> TcpServer result) \<Rightarrow> ((exn + accepted) \<times> bool) list \<Rightarrow> world
     \<Rightarrow> console list" where
  "serverMainConsole portArg pathArg sigs made conns w =
     (case parseServerPort (case portArg of None \<Rightarrow> ''9000'' | Some t \<Rightarrow> t) of
        Inl e \<Rightarrow> []
      | Inr port \<Rightarrow>
          if sigs \<noteq> None then []
          else case made port of
            Inl e \<Rightarrow> []
          | Inr tcp \<Rightarrow>
              (case openDedupStore (case pathArg of None \<Rightarrow> ''.logbridge-server/dedup.state'' | Some p \<Rightarrow> p) w of
                 (Done st, w1) \<Rightarrow>
                   Listening (portNumber tcp)
                   # serverConsole tcp conns \<lparr>dedup = st, metrics = noServerMetrics, printed = []\<rparr> w1
               | _ \<Rightarrow> []))"



section \<open>The metrics lines count the lines above them\<close>

text \<open>The metrics as a reader of the output would count them, entry by entry.\<close>

fun count_entry :: "console \<Rightarrow> ServerMetrics \<Rightarrow> ServerMetrics" where
  "count_entry ClientConnected mt = mt\<lparr>mtConnections := mtConnections mt + 1\<rparr>"
| "count_entry (BatchConfirmed n k j) mt = mt\<lparr>mtBatches := mtBatches mt + 1\<rparr>"
| "count_entry (PrintedLog m) mt = mt\<lparr>mtReceived := mtReceived mt + 1, mtProcessed := mtProcessed mt + 1\<rparr>"
| "count_entry (SkippedDuplicate c i) mt = mt\<lparr>mtReceived := mtReceived mt + 1, mtDuplicates := mtDuplicates mt + 1\<rparr>"
| "count_entry _ mt = mt"

definition counted :: "console list \<Rightarrow> ServerMetrics \<Rightarrow> ServerMetrics" where
  "counted es mt = fold count_entry es mt"

fun truthful :: "ServerMetrics \<Rightarrow> console list \<Rightarrow> bool" where
  "truthful mt [] = True"
| "truthful mt (e # es) = ((case e of MetricsLine m \<Rightarrow> m = mt | _ \<Rightarrow> True) \<and> truthful (count_entry e mt) es)"

fun printed_logs :: "console list \<Rightarrow> LogMessage list" where
  "printed_logs [] = []"
| "printed_logs (PrintedLog m # es) = m # printed_logs es"
| "printed_logs (_ # es) = printed_logs es"

lemma counted_simps [simp]:
  "counted [] mt = mt" "counted (e # es) mt = counted es (count_entry e mt)"
  "counted (es @ fs) mt = counted fs (counted es mt)"
  by (simp_all add: counted_def)

lemma truthful_append [simp]: "truthful mt (es @ fs) \<longleftrightarrow> truthful mt es \<and> truthful (counted es mt) fs"
  by (induction es arbitrary: mt) auto

lemma truthful_split: "truthful mt (es @ MetricsLine m # fs) \<Longrightarrow> m = counted es mt"
  by simp

lemma printed_logs_append [simp]: "printed_logs (es @ fs) = printed_logs es @ printed_logs fs"
  by (induction es rule: printed_logs.induct) simp_all

text \<open>An account of a part of a run: its entries, and the run before and after it.\<close>

definition accounts :: "console list \<Rightarrow> ServerRun \<Rightarrow> ServerRun \<Rightarrow> bool" where
  "accounts es sv sv' \<longleftrightarrow> truthful (metrics sv) es \<and> metrics sv' = counted es (metrics sv)
     \<and> printed sv' = printed sv @ printed_logs es"

lemma accounts_trans: "accounts es sv sv1 \<Longrightarrow> accounts fs sv1 sv2 \<Longrightarrow> accounts (es @ fs) sv sv2"
  by (simp add: accounts_def)

lemma accounts_Nil [simp]: "accounts [] sv sv"
  by (simp add: accounts_def)

lemma processConsole_counts:
  fixes previous :: u64 and mt :: ServerMetrics
  defines "new \<equiv> filter (\<lambda>m. previous < msgId m)" and "old \<equiv> filter (\<lambda>m. msgId m \<le> previous)"
  shows "counted (processConsole client previous ms) mt
      = mt\<lparr>mtReceived := mtReceived mt + of_nat (length ms), mtProcessed := mtProcessed mt + of_nat (length (new ms)),
           mtDuplicates := mtDuplicates mt + of_nat (length (old ms))\<rparr>"
    and "printed_logs (processConsole client previous ms) = new ms"
    and "truthful mt (processConsole client previous ms)"
  unfolding new_def old_def
  by (induction ms arbitrary: mt) (auto simp: not_le add.assoc)

lemma groupConsole_accounts:
  assumes "handleGroup tcp ms sends sv w = (r, bs, sends', sv', w')"
  shows "accounts (groupConsole tcp ms sends sv w) sv sv'"
proof -
  let ?p = "highestConfirmed (dedup sv) (clientId (hd ms))"
  let ?mt = "(metrics sv)\<lparr>mtReceived := mtReceived (metrics sv) + of_nat (length ms)\<rparr>"
  obtain out latest mt2 where p: "processMessages ?p ms ?p ?mt = (out, latest, mt2)" by (metis prod_cases3)
  have mt2: "mt2 = counted (processConsole (clientId (hd ms)) ?p ms) (metrics sv)"
    and out: "out = printed_logs (processConsole (clientId (hd ms)) ?p ms)"
    using p by (auto simp: processMessages_result processConsole_counts Let_def)
  obtain r1 st w1 where c: "confirmMark (clientId (hd ms)) latest (dedup sv) w = (r1, st, w1)" by (metis prod_cases3)
  obtain r2 b2 s2 where a: "sendAck tcp (msgId (last ms)) sends = (r2, b2, s2)" by (metis prod_cases3)
  show ?thesis
    using assms p c a by (cases r1; cases r2)
      (auto simp: handleGroup_def groupConsole_def accounts_def Let_def mt2 out processConsole_counts(3))
qed

lemma connectionConsole_accounts:
  assumes "serveConnection n tcp evs sends sv w = (e, bs, sv', w')"
  shows "accounts (connectionConsole n still tcp evs sends sv w) sv sv'"
  using assms
proof (induction n arbitrary: evs sends sv w bs)
  case (Suc n)
  obtain r evs1 where recv: "receiveLogBatch tcp evs = (r, evs1)" by (rule prod.exhaust)
  show ?case
  proof (cases "\<exists>ms. r = Returned (Some ms)")
    case False
    with Suc.prems recv show ?thesis by (auto simp: accounts_def split: netout.splits option.splits)
  next
    case True
    then obtain ms where r: "r = Returned (Some ms)" ..
    obtain rd bs1 sends1 sv1 w1 where h: "handleGroup tcp ms sends sv w = (rd, bs1, sends1, sv1, w1)" by (metis prod_cases5)
    note G = groupConsole_accounts [OF h]
    show ?thesis
    proof (cases "rd = Acked")
      case False
      with Suc.prems recv r h have "sv' = sv1" by (auto split: round.splits)
      with G False recv r h show ?thesis by (cases rd) simp_all
    next
      case acked: True
      obtain bs2 where "serveConnection n tcp evs1 sends1 sv1 w1 = (e, bs2, sv', w')"
        using Suc.prems recv r h acked by (auto split: prod.splits)
      from accounts_trans [OF G Suc.IH [OF this]] show ?thesis using recv r h acked by simp
    qed
  qed
qed simp

lemma serverConsole_accounts:
  assumes "serverLoop tcp (map fst cs) sv w = (r, sv', w')"
  shows "accounts (serverConsole tcp cs sv w) sv sv'"
  using assms
proof (induction tcp cs sv w rule: serverConsole.induct)
  case (4 tcp n evs sends still cs sv w)
  let ?sv1 = "sv\<lparr>metrics := (metrics sv)\<lparr>mtConnections := mtConnections (metrics sv) + 1\<rparr>\<rparr>"
  obtain e bs sv1 w1 where c: "serveConnection n tcp evs sends ?sv1 w = (e, bs, sv1, w1)" by (metis prod_cases4)
  have "accounts [WaitingForClient, ClientConnected] sv ?sv1" by (simp add: accounts_def)
  from accounts_trans [OF this connectionConsole_accounts [OF c, of still]]
  have one: "accounts ([WaitingForClient, ClientConnected] @ connectionConsole n still tcp evs sends ?sv1 w) sv sv1" .
  show ?case
  proof (cases "e = ProcessDied \<or> e = Blocked")
    case True
    with 4(4) c have "sv' = sv1" by (auto simp: Let_def)
    with one True c show ?thesis by (auto simp: Let_def)
  next
    case False
    then have rest: "serverLoop tcp (map fst cs) sv1 w1 = (r, sv', w')" using 4(4) c by (cases e) (auto simp: Let_def)
    have "accounts (serverConsole tcp cs sv1 w1) sv1 sv'"
      using 4(1-3) c rest False by (cases e) auto
    from accounts_trans [OF one this] show ?thesis using c False by (cases e) (auto simp: Let_def)
  qed
qed (auto simp: accounts_def)

lemma serverMainConsole_accounts:
  assumes "serverMain portArg pathArg sigs made (map fst conns) w = (code, run, w')"
  shows "case run of None \<Rightarrow> serverMainConsole portArg pathArg sigs made conns w = []
    | Some sv \<Rightarrow> accounts (serverMainConsole portArg pathArg sigs made conns w)
        \<lparr>dedup = dedup sv, metrics = noServerMetrics, printed = []\<rparr> sv"
proof (cases run)
  case None
  with assms show ?thesis
    by (auto simp: serverMain_def serverMainConsole_def split: sum.splits if_splits outcome.splits prod.splits option.splits netout.splits)
next
  case (Some sv)
  with assms show ?thesis
    by (auto simp: serverMain_def serverMainConsole_def accounts_def noServerMetrics_def
        split: sum.splits if_splits outcome.splits prod.splits option.splits netout.splits
        dest!: serverConsole_accounts)
qed


section \<open>Reading the output back\<close>

text \<open>
  A line of the output that shows a message, as a reader of the text takes it apart: the id, the
  time, and the source and the content as one text.
\<close>

definition readLogLine :: "string \<Rightarrow> (nat \<times> int \<times> string) option" where
  "readLogLine line =
     (let ds = takeWhile isDigit (tl line); after = dropWhile isDigit (tl line)
      in if line = [] \<or> hd line \<noteq> CHR ''['' \<or> ds = [] \<or> take 2 after \<noteq> ''] '' then None
         else case scanNumber (drop 2 after) of (neg, ts, txt) \<Rightarrow>
           Some (digitsValue ds, if neg then - int (digitsValue ts) else int (digitsValue ts), drop 1 txt))"

definition shown :: "LogMessage \<Rightarrow> nat \<times> int \<times> string" where
  "shown m = (unat (msgId m), sint (timestampMs m), source m @ '' | '' @ content m)"

text \<open>What the program's own tail reader makes of the text, line by line.\<close>

definition readConsole :: "string \<Rightarrow> (nat \<times> int \<times> string) list" where
  "readConsole text = List.map_filter readLogLine (fst (splitLines text))"

text \<open>An entry whose texts do not break its line.\<close>

fun one_line :: "console \<Rightarrow> bool" where
  "one_line (SkippedDuplicate client i) \<longleftrightarrow> newline \<notin> set client"
| "one_line (PrintedLog m) \<longleftrightarrow> newline \<notin> set (source m) \<and> newline \<notin> set (content m)
     \<and> (content m = [] \<or> last (content m) \<noteq> CHR 0x0D)"
| "one_line _ \<longleftrightarrow> True"

lemma utf8_high: "\<forall>b \<in> set bs. 128 \<le> b \<and> b < 256 \<Longrightarrow> c \<in> set (utf8 bs) \<Longrightarrow> 128 \<le> (of_char c :: nat)"
  by (auto simp: utf8_def)

lemma utf8_last: "\<forall>b \<in> set bs. 128 \<le> b \<and> b < 256 \<Longrightarrow> bs \<noteq> [] \<Longrightarrow> 128 \<le> (of_char (last (utf8 bs)) :: nat)"
  by (rule utf8_high, assumption, rule last_in_set) (simp add: utf8_def)

lemma utf8_plain [simp]:
  assumes "\<forall>b \<in> set bs. 128 \<le> b \<and> b < 256"
  shows "newline \<notin> set (utf8 bs)" and "c \<in> set (utf8 bs) \<Longrightarrow> \<not> isDigit c"
  using utf8_high [OF assms] by (fastforce simp: isDigit_def)+

lemma decimal_plain [simp]: "newline \<notin> set (decimal n)"
  using decimal_set by fastforce

lemma showI64_plain [simp]: "newline \<notin> set (showI64 w)"
  by (simp add: showI64_def)

lemma scanNumber_showI64:
  "\<exists>neg ts. scanNumber (showI64 w @ CHR '' '' # cs) = (neg, ts, CHR '' '' # cs)
     \<and> (if neg then - int (digitsValue ts) else int (digitsValue ts)) = sint w"
proof (cases "sint w < 0")
  case True
  then show ?thesis by (auto simp: showI64_def scanNumber_def takeWhile_decimal_append)
next
  case False
  then show ?thesis by (auto simp: showI64_def)
qed

text \<open>Every entry is one line, and only the printed messages read as messages.\<close>

lemma no_carriage_return: "l \<noteq> [] \<Longrightarrow> last l \<noteq> CHR 0x0D \<Longrightarrow> dropCarriageReturn l = l"
  by (simp add: dropCarriageReturn_def)

lemma last_plain [simp]:
  "last (decimal n) \<noteq> CHR 0x0D"
  "\<forall>b \<in> set bs. 128 \<le> b \<and> b < 256 \<Longrightarrow> bs \<noteq> [] \<Longrightarrow> last (utf8 bs) \<noteq> CHR 0x0D"
  using decimal_set [OF last_in_set [OF decimal_nonempty [of n]]] utf8_last [of bs]
  by (force simp: isDigit_def)+

lemma utf8_Nil [simp]: "utf8 bs = [] \<longleftrightarrow> bs = []"
  by (simp add: utf8_def)

lemma readLogLine_other:
  assumes "\<forall>b \<in> set bs. 128 \<le> b \<and> b < 256" and "bs \<noteq> []"
  shows "readLogLine (utf8 bs @ cs) = None" and "readLogLine (CHR ''['' # utf8 bs @ cs) = None"
    and "readLogLine (utf8 bs) = None"
proof -
  have h: "128 \<le> (of_char (hd (utf8 bs)) :: nat)"
    using utf8_high [OF assms(1) list.set_sel(1)] assms(2) by simp
  then have "hd (utf8 bs @ cs) \<noteq> CHR ''[''" "\<not> isDigit (hd (utf8 bs))"
    using assms(2) by (auto simp: isDigit_def)
  moreover obtain c ds where "utf8 bs = c # ds" using assms(2) by (cases "utf8 bs") auto
  ultimately show "readLogLine (utf8 bs @ cs) = None" "readLogLine (CHR ''['' # utf8 bs @ cs) = None"
    "readLogLine (utf8 bs) = None"
    by (simp_all add: readLogLine_def)
qed

lemma readLogLine_message:
  "readLogLine (CHR ''['' # showU64 (msgId m) @ ''] '' @ showI64 (timestampMs m) @ '' '' @ source m @ '' | '' @ content m)
    = Some (shown m)"
proof -
  obtain neg ts where s: "scanNumber (showI64 (timestampMs m) @ CHR '' '' # source m @ '' | '' @ content m)
      = (neg, ts, CHR '' '' # source m @ '' | '' @ content m)"
    and v: "(if neg then - int (digitsValue ts) else int (digitsValue ts)) = sint (timestampMs m)"
    using scanNumber_showI64 by blast
  have "\<not> isDigit CHR '']''" by (simp add: isDigit_def)
  then show ?thesis
    using s v by (simp add: readLogLine_def showU64_def shown_def Let_def takeWhile_decimal_append)
qed

definition reads_as :: "string \<Rightarrow> (nat \<times> int \<times> string) option \<Rightarrow> bool" where
  "reads_as text r \<longleftrightarrow> (\<exists>l. text = l @ [newline] \<and> newline \<notin> set l \<and> dropCarriageReturn l = l \<and> readLogLine l = r)"

lemma reads_asI:
  assumes "newline \<notin> set l" and "l \<noteq> []" and "last l \<noteq> CHR 0x0D" and "readLogLine l = r" and "text = l @ [newline]"
  shows "reads_as text r"
  using assms no_carriage_return unfolding reads_as_def by blast

lemma consoleLine_shape:
  assumes "one_line e"
  shows "reads_as (consoleLine e) (case e of PrintedLog m \<Rightarrow> Some (shown m) | _ \<Rightarrow> None)"
proof (cases "\<exists>m. e = PrintedLog m")
  case True
  then obtain m where e: "e = PrintedLog m" ..
  with assms readLogLine_message [of m] show ?thesis
    by (intro reads_asI [where l = "butlast (consoleLine e)"]) (simp_all add: showU64_def butlast_append, blast)
next
  case False
  let ?l = "butlast (consoleLine e)"
  note line_simps = showU64_def printServerMetrics_def butlast_append
  have "newline \<notin> set ?l" using assms False by (cases e) (simp_all add: line_simps)
  moreover have "?l \<noteq> []" "last ?l \<noteq> CHR 0x0D" "consoleLine e = ?l @ [newline]"
    using False by (cases e; simp add: line_simps)+
  moreover have "readLogLine ?l = None"
    using False by (cases e) (simp_all add: line_simps readLogLine_other, simp_all add: readLogLine_def)
  ultimately have "reads_as (consoleLine e) None" by (intro reads_asI)
  with False show ?thesis by (cases e) simp_all
qed

lemma splitLines_console:
  assumes "\<forall>e \<in> set es. one_line e"
  shows "\<exists>ls. splitLines (consoleText es) = (ls, []) \<and> List.map_filter readLogLine ls = map shown (printed_logs es)"
  using assms
proof (induction es)
  case Nil
  show ?case by (simp add: consoleText_def splitLines_none List.map_filter_simps)
next
  case (Cons e es)
  then obtain ls where ls: "splitLines (consoleText es) = (ls, [])"
    "List.map_filter readLogLine ls = map shown (printed_logs es)" by auto
  have "reads_as (consoleLine e) (case e of PrintedLog m \<Rightarrow> Some (shown m) | _ \<Rightarrow> None)"
    by (rule consoleLine_shape) (use Cons.prems in simp)
  then obtain l where l: "consoleLine e = l @ [newline]" "newline \<notin> set l" "dropCarriageReturn l = l"
    "readLogLine l = (case e of PrintedLog m \<Rightarrow> Some (shown m) | _ \<Rightarrow> None)"
    unfolding reads_as_def by blast
  have "splitLines (consoleText (e # es)) = (l # ls, [])"
    using splitLines_line [OF l(2), of "consoleText es"] ls(1) l(1,3) by (simp add: consoleText_def)
  moreover have "List.map_filter readLogLine (l # ls) = map shown (printed_logs (e # es))"
    using l(4) ls(2) by (cases e) (simp_all add: List.map_filter_simps)
  ultimately show ?case by blast
qed

text \<open>The numbers of a metrics line.\<close>

function counters :: "string \<Rightarrow> nat list" where
  "counters cs =
     (let ds = dropWhile (\<lambda>c. \<not> isDigit c) cs
      in if ds = [] then [] else digitsValue (takeWhile isDigit ds) # counters (dropWhile isDigit ds))"
  by pat_completeness auto
termination
proof (relation "measure length", simp)
  fix cs ds :: string
  assume d: "ds = dropWhile (\<lambda>c. \<not> isDigit c) cs" "ds \<noteq> []"
  then have "isDigit (hd ds)" using hd_dropWhile by blast
  then have "length (dropWhile isDigit ds) < length ds" using d(2) by (cases ds) (simp_all add: length_dropWhile_le less_Suc_eq_le)
  also have "\<dots> \<le> length cs" unfolding d(1) by (rule length_dropWhile_le)
  finally show "(dropWhile isDigit ds, cs) \<in> measure length" by simp
qed

declare counters.simps [simp del]

lemma counters_Nil [simp]: "counters [] = []"
  by (subst counters.simps) simp

lemma counters_skip [simp]: "\<not> isDigit c \<Longrightarrow> counters (c # cs) = counters cs"
  by (subst (1 2) counters.simps) simp

lemma counters_skip_all: "\<forall>c \<in> set xs. \<not> isDigit c \<Longrightarrow> counters (xs @ cs) = counters cs"
  by (induction xs) simp_all

lemma counters_utf8 [simp]: "\<forall>b \<in> set bs. 128 \<le> b \<and> b < 256 \<Longrightarrow> counters (utf8 bs @ cs) = counters cs"
  by (rule counters_skip_all) simp

lemma counters_decimal:
  assumes "cs = [] \<or> \<not> isDigit (hd cs)"
  shows "counters (decimal n @ cs) = n # counters cs"
proof -
  have "takeWhile isDigit (decimal n @ cs) = decimal n" "dropWhile isDigit (decimal n @ cs) = cs"
    using assms by (cases cs; simp add: takeWhile_decimal_append)+
  moreover have "dropWhile (\<lambda>c. \<not> isDigit c) (decimal n @ cs) = decimal n @ cs"
    using decimal_hd [of n] by (cases "decimal n") simp_all
  ultimately show ?thesis by (subst counters.simps) (simp add: Let_def)
qed

lemma utf8_hd [simp]:
  assumes "\<forall>b \<in> set bs. 128 \<le> b \<and> b < 256" and "bs \<noteq> []"
  shows "\<not> isDigit (hd (utf8 bs))"
proof -
  have "hd (utf8 bs) \<in> set (utf8 bs)" using assms(2) by (cases "utf8 bs") auto
  then show ?thesis using utf8_plain(2) [OF assms(1)] by blast
qed

lemma not_isDigit_label [simp]:
  "\<not> isDigit CHR ''[''" "\<not> isDigit CHR '']''" "\<not> isDigit CHR ''=''"
  "\<not> isDigit CHR ''W''" "\<not> isDigit CHR ''A''" "\<not> isDigit CHR ''L''"
  by (simp_all add: isDigit_def)

lemma metrics_counters:
  "counters (printServerMetrics mt)
    = map unat [mtConnections mt, mtBatches mt, mtReceived mt, mtProcessed mt, mtDuplicates mt]"
  "counters (printClientMetrics ct backlog walPending)
    = map unat [mtRead ct, mtWal ct, mtConfirmed ct, mtConfirmedBatches ct, mtRetries ct] @ [backlog, walPending]"
  by (simp_all add: printServerMetrics_def printClientMetrics_def showU64_def counters_decimal)

text \<open>The two lines of the README, byte for byte.\<close>

lemma metrics_readme:
  "printServerMetrics \<lparr>mtConnections = 1, mtBatches = 9, mtReceived = 100, mtProcessed = 90, mtDuplicates = 10\<rparr>
    = utf8 [0x5B, 0xE6, 0x8C, 0x87, 0xE6, 0xA0, 0x87, 0x5D, 0x20, 0xE8, 0xBF, 0x9E, 0xE6, 0x8E, 0xA5, 0x3D, 0x31, 0xEF, 0xBC, 0x8C, 0xE6, 0x89, 0xB9, 0xE6, 0xAC, 0xA1, 0x3D, 0x39, 0xEF, 0xBC, 0x8C, 0xE6, 0x94, 0xB6, 0xE5, 0x88, 0xB0, 0x3D, 0x31, 0x30, 0x30, 0xEF, 0xBC, 0x8C, 0xE6, 0x9C, 0x89, 0xE6, 0x95, 0x88, 0x3D, 0x39, 0x30, 0xEF, 0xBC, 0x8C, 0xE9, 0x87, 0x8D, 0xE5, 0xA4, 0x8D, 0x3D, 0x31, 0x30, 0x0A]"
  "printClientMetrics \<lparr>mtRead = 100, mtWal = 100, mtConfirmed = 90, mtConfirmedBatches = 9, mtRetries = 1\<rparr> 10 10
    = utf8 [0x5B, 0xE6, 0x8C, 0x87, 0xE6, 0xA0, 0x87, 0x5D, 0x20, 0xE5, 0xB7, 0xB2, 0xE8, 0xAF, 0xBB, 0xE5, 0x8F, 0x96, 0x3D, 0x31, 0x30, 0x30, 0xEF, 0xBC, 0x8C, 0xE5, 0xB7, 0xB2, 0xE5, 0x86, 0x99, 0x20, 0x57, 0x41, 0x4C, 0x3D, 0x31, 0x30, 0x30, 0xEF, 0xBC, 0x8C, 0xE5, 0xB7, 0xB2, 0xE7, 0xA1, 0xAE, 0xE8, 0xAE, 0xA4, 0x3D, 0x39, 0x30, 0xEF, 0xBC, 0x8C, 0xE7, 0xA1, 0xAE, 0xE8, 0xAE, 0xA4, 0xE6, 0x89, 0xB9, 0xE6, 0xAC, 0xA1, 0x3D, 0x39, 0xEF, 0xBC, 0x8C, 0xE9, 0x87, 0x8D, 0xE8, 0xAF, 0x95, 0x3D, 0x31, 0xEF, 0xBC, 0x8C, 0xE9, 0x98, 0x9F, 0xE5, 0x88, 0x97, 0xE7, 0xA7, 0xAF, 0xE5, 0x8E, 0x8B, 0x3D, 0x31, 0x30, 0xEF, 0xBC, 0x8C, 0x57, 0x41, 0x4C, 0x20, 0xE5, 0xBE, 0x85, 0xE7, 0xA1, 0xAE, 0xE8, 0xAE, 0xA4, 0x3D, 0x31, 0x30, 0x0A]"
  by (simp_all add: printServerMetrics_def printClientMetrics_def showU64_def utf8_def decimal.simps digitChar_def,
      simp_all add: char_of_def bit_Suc_0_iff)


section \<open>Properties\<close>

lemma counted_sum:
  assumes "mtReceived mt = mtProcessed mt + mtDuplicates mt"
  shows "mtReceived (counted es mt) = mtProcessed (counted es mt) + mtDuplicates (counted es mt)"
  using assms
proof (induction es arbitrary: mt)
  case (Cons e es)
  have "mtReceived (count_entry e mt) = mtProcessed (count_entry e mt) + mtDuplicates (count_entry e mt)"
    using Cons.prems by (cases e) (simp_all add: algebra_simps)
  from Cons.IH [OF this] show ?case by simp
qed simp

text \<open>
  Property C25. Every metrics line of the server counts exactly the lines above it, on every path
  through the program and whatever fails: connections, confirmed batches, printed messages and
  skipped duplicates, and the received messages are the last two together. At the end the counters
  are those of the whole output, and the printed messages are the ones that the output shows; a run
  that does not get to serving writes nothing.
\<close>

theorem metrics_lines_count:
  assumes "serverMain portArg pathArg sigs made (map fst conns) w = (code, run, w')"
  shows "(\<forall>above mt below. serverMainConsole portArg pathArg sigs made conns w = above @ MetricsLine mt # below
      \<longrightarrow> mt = counted above noServerMetrics \<and> mtReceived mt = mtProcessed mt + mtDuplicates mt)
    \<and> (case run of None \<Rightarrow> serverMainConsole portArg pathArg sigs made conns w = []
       | Some sv \<Rightarrow> metrics sv = counted (serverMainConsole portArg pathArg sigs made conns w) noServerMetrics
           \<and> printed sv = printed_logs (serverMainConsole portArg pathArg sigs made conns w))"
proof (cases run)
  case None
  with serverMainConsole_accounts [OF assms] show ?thesis by simp
next
  case (Some sv)
  with serverMainConsole_accounts [OF assms] show ?thesis
    using counted_sum [of noServerMetrics] by (auto simp: accounts_def noServerMetrics_def)
qed


lemma groupConsole_one_line:
  assumes "ms \<noteq> []" and "\<forall>m \<in> set ms. newline \<notin> set (clientId m) \<and> one_line (PrintedLog m)"
  shows "\<forall>e \<in> set (groupConsole tcp ms sends sv w). one_line e"
proof -
  have c: "newline \<notin> set (clientId (hd ms))" using assms by simp
  have "\<forall>e \<in> set (processConsole (clientId (hd ms)) previous ms'). one_line e" if "set ms' \<subseteq> set ms" for previous ms'
    using that assms(2) c by (induction ms') auto
  note shown = this [OF subset_refl]
  let ?p = "highestConfirmed (dedup sv) (clientId (hd ms))"
  let ?mt = "(metrics sv)\<lparr>mtReceived := mtReceived (metrics sv) + of_nat (length ms)\<rparr>"
  obtain out latest mt2 where p: "processMessages ?p ms ?p ?mt = (out, latest, mt2)" by (metis prod_cases3)
  obtain r1 st w1 where k: "confirmMark (clientId (hd ms)) latest (dedup sv) w = (r1, st, w1)" by (metis prod_cases3)
  obtain r2 b2 s2 where a: "sendAck tcp (msgId (last ms)) sends = (r2, b2, s2)" by (metis prod_cases3)
  show ?thesis
    using p k a shown by (cases r1; cases r2) (auto simp: groupConsole_def Let_def)
qed

lemma sample_server_console:
  obtains conns w sv w' where "serverMain None (Some ''d'') None (\<lambda>port. Inr sample_tcp) (map fst conns) w = (Some 0, Some sv, w')"
    and "printed sv = [sample_message 3, sample_message 4]"
    and "\<forall>e \<in> set (serverMainConsole None (Some ''d'') None (\<lambda>port. Inr sample_tcp) conns w). one_line e"
proof -
  let ?ms = "[sample_message 3, sample_message 4]" and ?sv = "(sample_server [])\<lparr>metrics := noServerMetrics\<lparr>mtConnections := 1\<rparr>\<rparr>"
  let ?sends = "replicate (length (serializeAck 4)) (Inl (1::nat))"
  obtain f evs' k sends' sv w' where rc: "receiveLogBatch sample_tcp [Segment f] = (Returned (Some ?ms), evs')"
    and h: "handleGroup sample_tcp ?ms ?sends ?sv (sample_storage\<lparr>sched := replicate k (Ok 1)\<rparr>) = (Acked, serializeAck 4, sends', sv, w')"
    and run: "serverMain None (Some ''d'') None (\<lambda>port. Inr sample_tcp) [Inr (Client 1 [Segment f] ?sends), Inr NoClient]
          (sample_storage\<lparr>sched := replicate k (Ok 1)\<rparr>) = (Some 0, Some sv, w')"
    and p: "printed sv = ?ms"
    by (rule sample_server_run)
  let ?w = "sample_storage\<lparr>sched := replicate k (Ok 1)\<rparr>"
  let ?conns = "[(Inr (Client 1 [Segment f] ?sends), True), (Inr NoClient, True)]"
  have line: "\<forall>e \<in> set (groupConsole sample_tcp ?ms ?sends ?sv ?w). one_line e"
    by (rule groupConsole_one_line) (simp_all add: sample_message_def)
  have "\<forall>e \<in> set (serverMainConsole None (Some ''d'') None (\<lambda>port. Inr sample_tcp) ?conns ?w). one_line e"
    using rc h line sample_server_opens [of "replicate k (Ok 1)"] sample_port
    by (auto simp: serverMainConsole_def sample_server_def noServerMetrics_def Let_def)
  with that [of ?conns ?w sv w'] run p show thesis by simp
qed

lemma metrics_lines_count_witness:
  "\<exists>conns w sv w'. serverMain None (Some ''d'') None (\<lambda>port. Inr sample_tcp) (map fst conns) w = (Some 0, Some sv, w')
     \<and> metrics sv = counted (serverMainConsole None (Some ''d'') None (\<lambda>port. Inr sample_tcp) conns w) noServerMetrics
     \<and> printed_logs (serverMainConsole None (Some ''d'') None (\<lambda>port. Inr sample_tcp) conns w) = [sample_message 3, sample_message 4]"
proof -
  obtain conns w sv w' where run: "serverMain None (Some ''d'') None (\<lambda>port. Inr sample_tcp) (map fst conns) w = (Some 0, Some sv, w')"
    and p: "printed sv = [sample_message 3, sample_message 4]"
    and "\<forall>e \<in> set (serverMainConsole None (Some ''d'') None (\<lambda>port. Inr sample_tcp) conns w). one_line e"
    by (rule sample_server_console)
  from metrics_lines_count [OF run] p run show ?thesis by auto
qed


end
