(* ===== verification/Backlog.thy ===== *)
theory Backlog
  imports Console ClientBehaviour
begin

text \<open>
  The client's metrics against its log: what the two working threads of \<^verbatim>\<open>src/src/main.cpp\<close> do to
  the counters that the reporter prints, and what that says of the messages in the log; the client's
  standard output, whose lines on confirmed batches agree with the counters; and the clock, which
  stamps the messages with the millisecond they are logged in.
\<close>

section \<open>The producer counts what it logs\<close>

text \<open>From one state of the producer to the next: what was read, and what of it is in the log.\<close>

definition logged :: "nat \<Rightarrow> LogMessage list \<Rightarrow> producer \<Rightarrow> producer \<Rightarrow> bool" where
  "logged n new p p' \<longleftrightarrow> pendingMsgs (prWal p') = pendingMsgs (prWal p) @ new
     \<and> mtWal (prMetrics p') = mtWal (prMetrics p) + of_nat (length new)
     \<and> mtRead (prMetrics p') = mtRead (prMetrics p) + of_nat n \<and> length new \<le> n
     \<and> mtConfirmed (prMetrics p') = mtConfirmed (prMetrics p)"

lemma logged_trans: "logged n new p q \<Longrightarrow> logged k more_new q r \<Longrightarrow> logged (n + k) (new @ more_new) p r"
  by (simp add: logged_def)

lemma logged_nothing [simp]: "logged 0 [] p p"
  by (simp add: logged_def)

lemma logLines_counts:
  assumes "logLines lines p w = (r, p', w')"
  shows "\<exists>new. pendingMsgs (prWal p') = pendingMsgs (prWal p) @ new
    \<and> prMetrics p' = (prMetrics p)\<lparr>mtWal := mtWal (prMetrics p) + of_nat (length new)\<rparr> \<and> length new \<le> length lines
    \<and> (\<forall>ms. r = Done ms \<longrightarrow> new = ms \<and> length ms = length lines)"
  using assms
proof (induction lines p w arbitrary: r p' w' rule: logLines.induct)
  case (1 p w)
  then show ?case by (intro exI [of _ "[]"]) auto
next
  case (2 line now lines p w)
  obtain ri st w1 where n: "nextMessageId (prState p) w = (ri, st, w1)" by (metis prod_cases3)
  show ?case
  proof (cases "\<exists>i. ri = Done i")
    case False
    with 2(2) n show ?thesis by (cases ri) (auto intro!: exI [of _ "[]"])
  next
    case True
    then obtain i where ri: "ri = Done i" ..
    let ?m = "\<lparr>msgId = i, clientId = stClientId st, timestampMs = now, source = rdPath (tailReader p), content = line\<rparr>"
    obtain ra wl w2 where a: "appendLog ?m (prWal p) w1 = (ra, wl, w2)" by (metis prod_cases3)
    note wl = appendLog_memory [OF a]
    let ?p = "p\<lparr>prState := st, prWal := wl, prMetrics := (prMetrics p)\<lparr>mtWal := mtWal (prMetrics p) + 1\<rparr>\<rparr>"
    show ?thesis
    proof (cases "ra = Done ()")
      case False
      with 2(2) n ri a wl show ?thesis by (cases ra) (auto simp: Let_def intro!: exI [of _ "[]"])
    next
      case ra: True
      obtain rl p2 w3 where l: "logLines lines ?p w2 = (rl, p2, w3)" by (metis prod_cases3)
      have IH: "\<exists>new. pendingMsgs (prWal p2) = pendingMsgs (prWal ?p) @ new
        \<and> prMetrics p2 = (prMetrics ?p)\<lparr>mtWal := mtWal (prMetrics ?p) + of_nat (length new)\<rparr> \<and> length new \<le> length lines
        \<and> (\<forall>ms. rl = Done ms \<longrightarrow> new = ms \<and> length ms = length lines)"
        using 2(1) n ri a ra l by auto
      then obtain new where new: "pendingMsgs (prWal p2) = pendingMsgs (prWal ?p) @ new"
        "prMetrics p2 = (prMetrics ?p)\<lparr>mtWal := mtWal (prMetrics ?p) + of_nat (length new)\<rparr>" "length new \<le> length lines"
        "\<forall>ms. rl = Done ms \<longrightarrow> new = ms \<and> length ms = length lines" by blast
      have "p' = p2" "\<forall>ms. r = Done ms \<longrightarrow> (\<exists>ms'. rl = Done ms' \<and> ms = ?m # ms')"
        using 2(2) n ri a ra l by (cases rl; auto simp: Let_def)+
      with new wl ra show ?thesis by (intro exI [of _ "?m # new"]) (auto simp: algebra_simps)
    qed
  qed
qed

lemma producerRound_counts:
  assumes "producerRound env stamp p w = (r, p', w')"
  shows "\<exists>n new. logged n new p p' \<and> (\<forall>ms. r = Done ms \<longrightarrow> new = ms \<and> length ms = n)"
proof -
  obtain rr rd where rd: "readNewLines env (tailReader p) = (rr, rd)" by (rule prod.exhaust)
  show ?thesis
  proof (cases rr)
    case (Inl e)
    with assms rd show ?thesis by (auto simp: producerRound_def logged_def intro!: exI [of _ 0] exI [of _ "[]"])
  next
    case (Inr lines)
    let ?p1 = "p\<lparr>tailReader := rd, prMetrics := (prMetrics p)\<lparr>mtRead := mtRead (prMetrics p) + of_nat (length lines)\<rparr>\<rparr>"
    let ?lines = "zip lines (map stamp [0..<length lines])"
    obtain rl p2 w2 where l: "logLines ?lines ?p1 w = (rl, p2, w2)" by (metis prod_cases3)
    obtain rc st wc where u: "updateFileCheckpoint (of_nat (committedOffset rd)) (rdDeviceId rd) (rdInode rd) (prState p2) w2 = (rc, st, wc)"
      by (metis prod_cases3)
    have same: "prWal p' = prWal p2 \<and> prMetrics p' = prMetrics p2 \<and> (\<forall>ms. r = Done ms \<longrightarrow> rl = Done ms)"
      using assms rd Inr l u by (cases rl; cases rc) (auto simp: producerRound_def Let_def)
    obtain new where new: "pendingMsgs (prWal p2) = pendingMsgs (prWal ?p1) @ new"
      "prMetrics p2 = (prMetrics ?p1)\<lparr>mtWal := mtWal (prMetrics ?p1) + of_nat (length new)\<rparr>" "length new \<le> length ?lines"
      "\<forall>ms. rl = Done ms \<longrightarrow> new = ms \<and> length ms = length ?lines"
      using logLines_counts [OF l] by blast
    then have "logged (length lines) new p p'" using same by (simp add: logged_def)
    with new(4) same show ?thesis by (intro exI [of _ "length lines"] exI [of _ new]) simp
  qed
qed

lemma producerLoop_counts:
  assumes "producerLoop rounds p w = (r, qs, p', w')"
  shows "\<exists>n new. logged n new p p' \<and> prefix qs new \<and> (r = StoppedReading \<longrightarrow> qs = new \<and> length new = n)"
  using assms
proof (induction rounds p w arbitrary: r qs p' w' rule: producerLoop.induct)
  case (1 p w)
  then show ?case by (intro exI [of _ 0] exI [of _ "[]"]) auto
next
  case (2 running env stamp pushes rounds p w)
  show ?case
  proof (cases running)
    case False
    with 2(2) show ?thesis by (intro exI [of _ 0] exI [of _ "[]"]) auto
  next
    case True
    obtain rr p1 w1 where rnd: "producerRound env stamp p w = (rr, p1, w1)" by (metis prod_cases3)
    obtain n new where N: "logged n new p p1" "\<forall>ms. rr = Done ms \<longrightarrow> new = ms \<and> length ms = n"
      using producerRound_counts [OF rnd] by blast
    show ?thesis
    proof (cases "\<exists>ms. rr = Done ms")
      case False
      with 2(2) True rnd N show ?thesis by (cases rr) (auto intro!: exI [of _ n] exI [of _ new])
    next
      case done_round: True
      then obtain ms where ms: "rr = Done ms" ..
      obtain ps ok where push: "pushAll ms pushes = (ps, ok)" by (rule prod.exhaust)
      have pre: "prefix ps ms \<and> (ok = Some True \<longrightarrow> ps = ms)"
        using push by (induction ms pushes arbitrary: ps ok rule: pushAll.induct) (auto split: if_splits prod.splits)
      show ?thesis
      proof (cases "ok = Some True")
        case False
        then have "qs = ps" "p' = p1" "r \<noteq> StoppedReading"
          using 2(2) True rnd ms push by (cases ok; auto split: bool.splits)+
        with N ms pre show ?thesis by (intro exI [of _ n] exI [of _ new]) auto
      next
        case ok: True
        obtain qs2 where rest: "producerLoop rounds p1 w1 = (r, qs2, p', w')" and qs: "qs = ps @ qs2"
          using 2(2) True rnd ms push ok by (auto split: prod.splits)
        have "\<exists>n new. logged n new p1 p' \<and> prefix qs2 new \<and> (r = StoppedReading \<longrightarrow> qs2 = new \<and> length new = n)"
          using 2(1) True rnd ms push ok rest by auto
        then obtain n2 new2 where N2: "logged n2 new2 p1 p'" "prefix qs2 new2" "r = StoppedReading \<longrightarrow> qs2 = new2 \<and> length new2 = n2"
          by blast
        from logged_trans [OF N(1) N2(1)] N(2) N2(2,3) ms pre ok qs show ?thesis
          by (intro exI [of _ "n + n2"] exI [of _ "new @ new2"]) simp
      qed
    qed
  qed
qed


section \<open>The consumer counts what it takes out\<close>

definition counted_as :: "LogMessage list \<Rightarrow> delivery \<Rightarrow> ClientMetrics \<Rightarrow> ClientMetrics \<Rightarrow> bool" where
  "counted_as batch r mt mt' \<longleftrightarrow> mtRead mt' = mtRead mt \<and> mtWal mt' = mtWal mt
     \<and> mtConfirmed mt' = mtConfirmed mt + (if r = Delivered then of_nat (length batch) else 0)
     \<and> mtConfirmedBatches mt' = mtConfirmedBatches mt + (if r = Delivered then 1 else 0)"

lemma tryDeliver_counts:
  assumes "tryDeliver a batch s w = (r, s', w')"
  shows "counted_as batch (case r of Inl e \<Rightarrow> Undecided | Inr d \<Rightarrow> d) (senderMetrics s) (senderMetrics s')"
proof -
  obtain x out sends' evs' where "sendLogBatchAndWaitAck batch (atSends a) (atEvents a) = (x, out, sends', evs')"
    by (metis prod_cases4)
  moreover obtain k where "x = Returned k \<or> (\<nexists>j. x = Returned j)" by blast
  moreover obtain rc wl wc where "confirmLog k (senderWal s) w = (rc, wl, wc)" by (metis prod_cases3)
  ultimately show ?thesis
    using assms by (cases x; cases rc) (auto simp: tryDeliver_def counted_as_def Let_def split: if_splits)
qed

lemma deliverLoop_counts:
  assumes "deliverLoop attempts d batch s w = (r, s', w', as')"
  shows "counted_as batch r (senderMetrics s) (senderMetrics s')"
  using assms
proof (induction attempts d batch s w rule: deliverLoop.induct)
  case (2 a as d batch s w)
  show ?case
  proof (cases "atRunning a")
    case True
    obtain x s1 w1 where t: "tryDeliver a batch s w = (x, s1, w1)" by (metis prod_cases3)
    note T = tryDeliver_counts [OF t]
    show ?thesis
    proof (cases x)
      case (Inl e)
      with 2 True t T show ?thesis by (cases "atWaited a") (auto simp: counted_as_def Let_def)
    qed (use 2(2) True t T in simp)
  qed (use 2(2) in \<open>simp add: counted_as_def\<close>)
qed (simp add: counted_as_def)

lemma ids_after_oldest:
  assumes "pendingMsgs wl = batch @ later" and "batch \<noteq> []" and "sorted_wrt (<) (map msgId (batch @ later))"
  shows "pendingMsgs (ids_after (msgId (last batch)) wl) = later"
proof -
  have "msgId m \<le> msgId (last batch)" if "m \<in> set batch" for m
    using assms(2,3) that by (cases batch rule: rev_cases) (auto simp: sorted_wrt_append less_imp_le)
  moreover have "\<not> msgId m \<le> msgId (last batch)" if "m \<in> set later" for m
    using assms(2,3) that by (auto simp: sorted_wrt_append not_le)
  ultimately show ?thesis using assms(1) by (auto simp: ids_after_def filter_empty_conv intro!: filter_True)
qed

lemma sendMessages_counts:
  assumes "sendMessages offset attempts messages s w = (Delivered, s', w', as')"
    and "pendingMsgs (senderWal s) = drop offset messages @ later" and "sorted_wrt (<) (map msgId (drop offset messages @ later))"
  shows "pendingMsgs (senderWal s') = later
    \<and> mtConfirmed (senderMetrics s') = mtConfirmed (senderMetrics s) + of_nat (length messages - offset)
    \<and> mtConfirmedBatches (senderMetrics s') = mtConfirmedBatches (senderMetrics s) + of_nat ((length messages - offset + 9) div 10)
    \<and> mtWal (senderMetrics s') = mtWal (senderMetrics s)"
  using assms
proof (induction offset attempts messages s w rule: sendMessages.induct)
  case (1 offset attempts messages s w)
  show ?case
  proof (cases "offset < length messages")
    case False
    with 1(2,3) show ?thesis by (subst (asm) sendMessages.simps) simp
  next
    case True
    let ?count = "min SendBatchSize (length messages - offset)"
    let ?batch = "take ?count (drop offset messages)"
    obtain r s1 w1 as1 where b: "deliverWithRetry attempts ?batch s w = (r, s1, w1, as1)" by (metis prod_cases4)
    have r: "r = Delivered" using 1(2) True b by (subst (asm) sendMessages.simps) (cases r; simp add: Let_def)
    have nxt: "sendMessages (offset + ?count) as1 messages s1 w1 = (Delivered, s', w', as')"
      using 1(2) True b r by (subst (asm) sendMessages.simps) (simp add: Let_def)
    have C: "counted_as ?batch Delivered (senderMetrics s) (senderMetrics s1)"
      using deliverLoop_counts b r unfolding deliverWithRetry_def by blast
    have split: "drop offset messages = ?batch @ drop (offset + ?count) messages"
      by (metis append_take_drop_id drop_drop add.commute)
    have ne: "?batch \<noteq> []" using True by (simp add: SendBatchSize_def)
    have pend: "pendingMsgs (senderWal s) = ?batch @ (drop (offset + ?count) messages @ later)"
      and sorted: "sorted_wrt (<) (map msgId (?batch @ (drop (offset + ?count) messages @ later)))"
      using 1(3,4) split by (metis append.assoc)+
    have "senderWal s1 = ids_after (msgId (last ?batch)) (senderWal s)"
      using deliverLoop_result [OF b [unfolded deliverWithRetry_def]] r by blast
    then have p1: "pendingMsgs (senderWal s1) = drop (offset + ?count) messages @ later"
      using ids_after_oldest [OF pend ne sorted] by simp
    have s1: "sorted_wrt (<) (map msgId (drop (offset + ?count) messages @ later))"
      using sorted by (simp add: sorted_wrt_append)
    note IH = 1(1) [OF True HOL.refl b [symmetric] r HOL.refl HOL.refl nxt p1 s1]
    have len: "length ?batch = ?count" by simp
    define k j where "k = length messages - offset" and "j = length messages - (offset + ?count)"
    have k: "k = ?count + j" "0 < k" "?count = min 10 k" using True by (auto simp: k_def j_def SendBatchSize_def)
    have "(k + 9) div 10 = 1 + (j + 9) div 10"
    proof (cases "k \<le> 10")
      case True
      with k have "j = 0" by simp
      with True k(2) show ?thesis by (simp add: div_nat_eqI)
    next
      case False
      with k have "k = 10 + j" by simp
      then show ?thesis by simp
    qed
    moreover have "(of_nat k :: u64) = of_nat ?count + of_nat j" by (metis k(1) of_nat_add)
    ultimately show ?thesis
      using IH [folded j_def] C len unfolding counted_as_def k_def [symmetric] by (simp add: add.assoc)
  qed
qed


section \<open>The clock\<close>

text \<open>Times after 1970 that fit are stamped with the millisecond they lie in.\<close>

lemma currentTimestampMs_exact:
  assumes "0 \<le> now" and "now < 2 ^ 63"
  shows "sint (currentTimestampMs now) = now div 1000000"
proof -
  have "now sdiv 1000000 = now div 1000000" using assms(1) by (simp add: signed_divide_int_def sgn_if)
  moreover have "now div 1000000 \<le> now" using assms(1) by linarith
  then have "0 \<le> now div 1000000" "now div 1000000 < 2 ^ 63" using assms by simp_all
  moreover have "sint (word_of_int x :: u64) = signed_take_bit 63 x" for x by transfer simp
  ultimately show ?thesis by (simp add: currentTimestampMs_def signed_take_bit_int_eq_self)
qed

lemma currentTimestampMs_mono:
  "0 \<le> earlier \<Longrightarrow> earlier \<le> now \<Longrightarrow> now < 2 ^ 63 \<Longrightarrow> sint (currentTimestampMs earlier) \<le> sint (currentTimestampMs now)"
  by (simp add: currentTimestampMs_exact zdiv_mono1)


section \<open>The client's standard output\<close>

text \<open>
  The statements of \<^verbatim>\<open>main.cpp\<close> that write to \<^verbatim>\<open>std::cout\<close>, with the values they write: the
  consumer's, the reporter's and the main thread's. The producer writes nothing.
\<close>

datatype client_console =
    ConnectedTo string u16
  | BatchDone nat u64
  | Recovered nat
  | Started string string string
  | SignalReceived
  | Counters ClientMetrics nat nat
  | ClientStopped

text \<open>\<^verbatim>\<open>operator<<\<close> of a path writes it in quotes, with a backslash before quotes and backslashes.\<close>

definition quoted :: "string \<Rightarrow> string" where
  "quoted p = CHR 0x22 # concat (map (\<lambda>c. if c = CHR 0x22 \<or> c = CHR 0x5C then [CHR 0x5C, c] else [c]) p) @ [CHR 0x22]"

fun clientLines :: "client_console \<Rightarrow> string" where
  "clientLines (ConnectedTo host port) = utf8 [0xE5, 0xB7, 0xB2, 0xE8, 0xBF, 0x9E, 0xE6, 0x8E, 0xA5, 0xE6, 0x9C, 0x8D, 0xE5, 0x8A, 0xA1, 0xE7, 0xAB, 0xAF, 0xEF, 0xBC, 0x9A] @ host @ '':'' @ decimal (unat port) @ [newline]"
| "clientLines (BatchDone n k) =
     utf8 [0xE6, 0x89, 0xB9, 0xE6, 0xAC, 0xA1, 0xE5, 0xB7, 0xB2, 0xE7, 0xA1, 0xAE, 0xE8, 0xAE, 0xA4, 0xEF, 0xBC, 0x9A] @ decimal n
     @ '' '' @ utf8 [0xE6, 0x9D, 0xA1, 0xEF, 0xBC, 0x8C, 0xE6, 0x9C, 0x80, 0xE5, 0xA4, 0xA7, 0xE6, 0xB6, 0x88, 0xE6, 0x81, 0xAF] @ '' ID='' @ showU64 k @ [newline]"
| "clientLines (Recovered n) = utf8 [0xE4, 0xBB, 0x8E] @ '' WAL '' @ utf8 [0xE6, 0x81, 0xA2, 0xE5, 0xA4, 0x8D] @ '' '' @ decimal n @ '' '' @ utf8 [0xE6, 0x9D, 0xA1, 0xE6, 0x9C, 0xAA, 0xE7, 0xA1, 0xAE, 0xE8, 0xAE, 0xA4, 0xE6, 0x97, 0xA5, 0xE5, 0xBF, 0x97] @ [newline]"
| "clientLines (Started client logPath dataDirectory) =
     utf8 [0xE5, 0xAE, 0xA2, 0xE6, 0x88, 0xB7, 0xE7, 0xAB, 0xAF] @ '' ID'' @ utf8 [0xEF, 0xBC, 0x9A] @ client @ [newline]
     @ utf8 [0xE6, 0xAD, 0xA3, 0xE5, 0x9C, 0xA8, 0xE7, 0x9B, 0x91, 0xE5, 0x90, 0xAC, 0xE6, 0x97, 0xA5, 0xE5, 0xBF, 0x97, 0xE6, 0x96, 0x87, 0xE4, 0xBB, 0xB6, 0xEF, 0xBC, 0x9A] @ logPath @ [newline]
     @ utf8 [0xE6, 0x8C, 0x81, 0xE4, 0xB9, 0x85, 0xE5, 0x8C, 0x96, 0xE7, 0x9B, 0xAE, 0xE5, 0xBD, 0x95, 0xEF, 0xBC, 0x9A] @ quoted dataDirectory @ [newline]
     @ utf8 [0xE6, 0x8C, 0x89] @ '' Ctrl+C '' @ utf8 [0xE5, 0x81, 0x9C, 0xE6, 0xAD, 0xA2] @ '' LogBridge'' @ [newline]"
| "clientLines SignalReceived = utf8 [0xE6, 0x94, 0xB6, 0xE5, 0x88, 0xB0, 0xE9, 0x80, 0x80, 0xE5, 0x87, 0xBA, 0xE4, 0xBF, 0xA1, 0xE5, 0x8F, 0xB7, 0xEF, 0xBC, 0x8C, 0xE6, 0xAD, 0xA3, 0xE5, 0x9C, 0xA8, 0xE5, 0xAE, 0x89, 0xE5, 0x85, 0xA8, 0xE5, 0x81, 0x9C, 0xE6, 0xAD, 0xA2] @ ''...'' @ [newline]"
| "clientLines (Counters mt backlog walPending) = printClientMetrics mt backlog walPending"
| "clientLines ClientStopped =
     ''LogBridge '' @ utf8 [0xE5, 0xB7, 0xB2, 0xE5, 0x81, 0x9C, 0xE6, 0xAD, 0xA2, 0xEF, 0xBC, 0x8C, 0xE6, 0x9C, 0xAA, 0xE7, 0xA1, 0xAE, 0xE8, 0xAE, 0xA4, 0xE6, 0x97, 0xA5, 0xE5, 0xBF, 0x97, 0xE4, 0xBC, 0x9A, 0xE5, 0x9C, 0xA8, 0xE4, 0xB8, 0x8B, 0xE6, 0xAC, 0xA1, 0xE5, 0x90, 0xAF, 0xE5, 0x8A, 0xA8, 0xE6, 0x97, 0xB6, 0xE6, 0x81, 0xA2, 0xE5, 0xA4, 0x8D] @ [newline]"

fun deliverConsole :: "string \<Rightarrow> u16 \<Rightarrow> attempt list \<Rightarrow> int \<Rightarrow> LogMessage list \<Rightarrow> sender \<Rightarrow> world \<Rightarrow> client_console list" where
  "deliverConsole host port [] retryDelay batch s w = []"
| "deliverConsole host port (a # as) retryDelay batch s w =
     (if \<not> atRunning a then []
      else (if \<not> connected s \<and> atConnect a = None then [ConnectedTo host port] else [])
        @ (case tryDeliver a batch s w of
             (Inr Delivered, s', w') \<Rightarrow>
               (case fst (sendLogBatchAndWaitAck batch (atSends a) (atEvents a)) of
                  Returned k \<Rightarrow> [BatchDone (length batch) k]
                | _ \<Rightarrow> [])
           | (Inr d, s', w') \<Rightarrow> []
           | (Inl e, s', w') \<Rightarrow>
               (let s'' = s'\<lparr>connected := False, waits := waits s' @ [retryDelay],
                      senderMetrics := (senderMetrics s')\<lparr>mtRetries := mtRetries (senderMetrics s') + 1\<rparr>\<rparr>
                in if \<not> atWaited a then []
                   else deliverConsole host port as (min (retryDelay * 2) MaxRetryDelay) batch s'' w')))"

function sendConsole :: "string \<Rightarrow> u16 \<Rightarrow> nat \<Rightarrow> attempt list \<Rightarrow> LogMessage list \<Rightarrow> sender \<Rightarrow> world \<Rightarrow> client_console list" where
  "sendConsole host port offset attempts messages s w =
     (if offset < length messages then
        (let count = min SendBatchSize (length messages - offset); batch = take count (drop offset messages)
         in deliverConsole host port attempts InitialRetryDelay batch s w
            @ (case deliverWithRetry attempts batch s w of
                 (Delivered, s', w', attempts') \<Rightarrow> sendConsole host port (offset + count) attempts' messages s' w'
               | _ \<Rightarrow> []))
      else [])"
  by pat_completeness auto
termination
  by (relation "measure (\<lambda>(_, _, offset, _, messages, _). length messages - offset)") (auto simp: SendBatchSize_def)

declare sendConsole.simps [simp del]

fun consumerLoopConsole ::
  "string \<Rightarrow> u16 \<Rightarrow> (bool \<times> LogMessage list) list \<Rightarrow> attempt list \<Rightarrow> sender \<Rightarrow> world \<Rightarrow> client_console list" where
  "consumerLoopConsole host port [] attempts s w = []"
| "consumerLoopConsole host port ((running, batch) # bs) attempts s w =
     (if \<not> running \<or> batch = [] then []
      else sendConsole host port 0 attempts batch s w
        @ (case sendMessages 0 attempts batch s w of
             (Delivered, s', w', attempts') \<Rightarrow> consumerLoopConsole host port bs attempts' s' w'
           | _ \<Rightarrow> []))"

definition consumerConsole ::
  "string \<Rightarrow> u16 \<Rightarrow> LogMessage list \<Rightarrow> (bool \<times> LogMessage list) list \<Rightarrow> attempt list \<Rightarrow> sender \<Rightarrow> world \<Rightarrow> client_console list" where
  "consumerConsole host port recovered batches attempts s w =
     (if recovered \<noteq> [] then
        Recovered (length recovered) # sendConsole host port 0 attempts recovered s w
        @ (case sendMessages 0 attempts recovered s w of
             (Delivered, s', w', attempts') \<Rightarrow> consumerLoopConsole host port batches attempts' s' w'
           | _ \<Rightarrow> [])
      else consumerLoopConsole host port batches attempts s w)"

text \<open>The main thread, from the start of the threads to the end; the counters are those after the joins.\<close>

fun awaitConsole :: "(bool \<times> (exn + bool)) list \<Rightarrow> client_console list" where
  "awaitConsole [] = []"
| "awaitConsole ((running, waited) # rs) =
     (if \<not> running then [] else if waited = Inr True then [SignalReceived]
      else case waited of Inl e \<Rightarrow> [] | Inr b \<Rightarrow> awaitConsole rs)"

definition mainConsole ::
  "string \<Rightarrow> string \<Rightarrow> string \<Rightarrow> (bool \<times> (exn + bool)) list \<Rightarrow> ClientMetrics \<Rightarrow> nat \<Rightarrow> nat \<Rightarrow> client_console list" where
  "mainConsole client logPath dataDirectory rs mt backlog walPending =
     Started client logPath dataDirectory # awaitConsole rs
     @ (if finishClient rs = Some (Exits 0) then [Counters mt backlog walPending, ClientStopped] else [])"

text \<open>The lines on confirmed batches, and the counters that go with them.\<close>

fun batches_done :: "client_console list \<Rightarrow> nat list" where
  "batches_done [] = []"
| "batches_done (BatchDone n k # es) = n # batches_done es"
| "batches_done (_ # es) = batches_done es"

lemma batches_done_append [simp]: "batches_done (es @ fs) = batches_done es @ batches_done fs"
  by (induction es rule: batches_done.induct) simp_all

definition shows_done :: "client_console list \<Rightarrow> ClientMetrics \<Rightarrow> ClientMetrics \<Rightarrow> bool" where
  "shows_done es mt mt' \<longleftrightarrow> mtConfirmed mt' = mtConfirmed mt + of_nat (sum_list (batches_done es))
     \<and> mtConfirmedBatches mt' = mtConfirmedBatches mt + of_nat (length (batches_done es))"

lemma shows_done_trans: "shows_done es a b \<Longrightarrow> shows_done fs b c \<Longrightarrow> shows_done (es @ fs) a c"
  by (simp add: shows_done_def)

lemma shows_done_Nil [simp]: "shows_done [] mt mt"
  by (simp add: shows_done_def)

lemma deliverConsole_shows:
  assumes "deliverLoop attempts d batch s w = (r, s', w', as')"
  shows "shows_done (deliverConsole host port attempts d batch s w) (senderMetrics s) (senderMetrics s')"
  using assms
proof (induction attempts d batch s w rule: deliverLoop.induct)
  case (2 a as d batch s w)
  show ?case
  proof (cases "atRunning a")
    case True
    obtain x s1 w1 where t: "tryDeliver a batch s w = (x, s1, w1)" by (metis prod_cases3)
    note T = tryDeliver_counts [OF t]
    show ?thesis
    proof (cases x)
      case (Inl e)
      with 2 True t T show ?thesis by (cases "atWaited a") (auto simp: counted_as_def shows_done_def Let_def)
    next
      case (Inr y)
      have "\<exists>k. fst (sendLogBatchAndWaitAck batch (atSends a) (atEvents a)) = Returned k" if "y = Delivered"
        using tryDeliver_result(4) [OF t] Inr that unfolding acknowledged_def by auto
      then show ?thesis
        using 2(2) True t T Inr by (cases y) (auto simp: counted_as_def shows_done_def)
    qed
  qed (use 2(2) in simp)
qed simp

lemma sendConsole_shows:
  assumes "sendMessages offset attempts messages s w = (r, s', w', as')"
  shows "shows_done (sendConsole host port offset attempts messages s w) (senderMetrics s) (senderMetrics s')"
  using assms
proof (induction offset attempts messages s w rule: sendMessages.induct)
  case (1 offset attempts messages s w)
  show ?case
  proof (cases "offset < length messages")
    case False
    with 1(2) show ?thesis by (simp add: sendMessages.simps [of offset] sendConsole.simps [of _ _ offset])
  next
    case True
    let ?count = "min SendBatchSize (length messages - offset)"
    let ?batch = "take ?count (drop offset messages)"
    obtain d s1 w1 as1 where b: "deliverWithRetry attempts ?batch s w = (d, s1, w1, as1)" by (metis prod_cases4)
    note D = deliverConsole_shows [OF b [unfolded deliverWithRetry_def], of host port]
    show ?thesis
    proof (cases "d = Delivered")
      case False
      with 1(2) True b have "s' = s1" by (subst (asm) sendMessages.simps) (cases d; simp add: Let_def)
      with D True b False show ?thesis by (subst sendConsole.simps) (cases d; simp add: Let_def)
    next
      case done_batch: True
      have nxt: "sendMessages (offset + ?count) as1 messages s1 w1 = (r, s', w', as')"
        using 1(2) True b done_batch by (subst (asm) sendMessages.simps) (simp add: Let_def)
      note IH = 1(1) [OF True HOL.refl b [symmetric] done_batch HOL.refl HOL.refl nxt]
      from shows_done_trans [OF D IH] True b done_batch show ?thesis
        by (subst sendConsole.simps) (simp add: Let_def)
    qed
  qed
qed

lemma consumerLoopConsole_shows:
  assumes "consumerLoop batches attempts s w = (r, s', w')"
  shows "shows_done (consumerLoopConsole host port batches attempts s w) (senderMetrics s) (senderMetrics s')"
  using assms
proof (induction batches attempts s w rule: consumerLoop.induct)
  case (2 running batch bs attempts s w)
  show ?case
  proof (cases "\<not> running \<or> batch = []")
    case False
    obtain d s1 w1 as1 where b: "sendMessages 0 attempts batch s w = (d, s1, w1, as1)" by (metis prod_cases4)
    note D = sendConsole_shows [OF b, of host port]
    show ?thesis
    proof (cases "d = Delivered")
      case False
      with 2(2) \<open>\<not> (\<not> running \<or> batch = [])\<close> b have "s' = s1" by (cases d) auto
      with D b False \<open>\<not> (\<not> running \<or> batch = [])\<close> show ?thesis by (cases d) auto
    next
      case True
      with 2 False b have "shows_done (consumerLoopConsole host port bs as1 s1 w1) (senderMetrics s1) (senderMetrics s')" by auto
      from shows_done_trans [OF D this] False b True show ?thesis by simp
    qed
  qed (use 2(2) in auto)
qed simp

text \<open>On every path of the consumer: its lines on confirmed batches are what the counters count.\<close>

lemma consumerConsole_shows:
  assumes "consumer recovered batches attempts s w = (r, s', w')"
  shows "shows_done (consumerConsole host port recovered batches attempts s w) (senderMetrics s) (senderMetrics s')"
proof (cases "recovered = []")
  case True
  with assms consumerLoopConsole_shows show ?thesis by (simp add: consumer_def consumerConsole_def)
next
  case False
  obtain d s1 w1 as1 where b: "sendMessages 0 attempts recovered s w = (d, s1, w1, as1)" by (metis prod_cases4)
  have D: "shows_done (Recovered (length recovered) # sendConsole host port 0 attempts recovered s w) (senderMetrics s) (senderMetrics s1)"
    using sendConsole_shows [OF b, of host port] by (simp add: shows_done_def)
  show ?thesis
  proof (cases "d = Delivered")
    case False
    with assms \<open>recovered \<noteq> []\<close> b have "s' = s1" by (cases d) (auto simp: consumer_def)
    with D b False \<open>recovered \<noteq> []\<close> show ?thesis by (cases d) (auto simp: consumerConsole_def)
  next
    case True
    then have "consumerLoop batches as1 s1 w1 = (r, s', w')" using assms False b by (simp add: consumer_def)
    from shows_done_trans [OF D consumerLoopConsole_shows [OF this, of host port]] False b True show ?thesis
      by (simp add: consumerConsole_def)
  qed
qed


section \<open>Properties\<close>

text \<open>The reporter's lines say what is in the log: every message written or recovered and not yet confirmed.\<close>

definition backlog_exact :: "nat \<Rightarrow> ClientMetrics \<Rightarrow> WriteAheadLog \<Rightarrow> bool" where
  "backlog_exact recovered mt wl \<longleftrightarrow> of_nat (length (pendingMsgs wl)) = of_nat recovered + mtWal mt - mtConfirmed mt"

text \<open>
  Property C27. The line that the client's reporter prints adds up: the messages that wait in the
  log are those recovered at the start and those written since, less the confirmed ones. The
  producer keeps it so, whatever fails and wherever it stops, and hands on no more than it wrote;
  and so does the consumer with every slice of the oldest messages that it has delivered, which are
  then the ones that left the log, in a tenth as many batches, rounded up.
\<close>

theorem client_backlog_exact:
  assumes "producerLoop rounds p w = (r, qs, p', w')" and "backlog_exact recovered (prMetrics p) (prWal p)"
    and "sendMessages 0 attempts messages s v = (Delivered, s', v', as')" and "backlog_exact k (senderMetrics s) (senderWal s)"
    and "pendingMsgs (senderWal s) = messages @ later" and "sorted_wrt (<) (map msgId (pendingMsgs (senderWal s)))"
  shows "backlog_exact recovered (prMetrics p') (prWal p')
    \<and> length qs + length (pendingMsgs (prWal p)) \<le> length (pendingMsgs (prWal p'))
    \<and> backlog_exact k (senderMetrics s') (senderWal s') \<and> pendingMsgs (senderWal s') = later
    \<and> mtConfirmedBatches (senderMetrics s') = mtConfirmedBatches (senderMetrics s) + of_nat ((length messages + 9) div 10)"
proof -
  obtain n new where "logged n new p p'" "prefix qs new" using producerLoop_counts [OF assms(1)] by blast
  then have "backlog_exact recovered (prMetrics p') (prWal p')
      \<and> length qs + length (pendingMsgs (prWal p)) \<le> length (pendingMsgs (prWal p'))"
    using assms(2) prefix_length_le by (auto simp: backlog_exact_def logged_def algebra_simps)
  moreover have "pendingMsgs (senderWal s') = later
    \<and> mtConfirmed (senderMetrics s') = mtConfirmed (senderMetrics s) + of_nat (length messages)
    \<and> mtConfirmedBatches (senderMetrics s') = mtConfirmedBatches (senderMetrics s) + of_nat ((length messages + 9) div 10)
    \<and> mtWal (senderMetrics s') = mtWal (senderMetrics s)"
    using sendMessages_counts [OF assms(3), of later] assms(5,6) by simp
  ultimately show ?thesis using assms(4,5) by (auto simp: backlog_exact_def algebra_simps)
qed

text \<open>A line is read and logged; two recovered messages are delivered in one batch.\<close>

lemma sample_producer_run:
  obtains rounds w qs p' w' where "producerLoop rounds sample_producer w = (StillReading, qs, p', w')" and "qs \<noteq> []"
proof -
  let ?env = "sample_env (sample_stat 7 4) (''a'' @ [lf] @ ''bc'') [Inl 1, Inr EINTR, Inl 2, Inl 0]"
  have "\<exists>n p' ms. \<forall>w. all_good (sched w) \<longrightarrow> n \<le> length (sched w) \<longrightarrow> (\<exists>w'. producerRound ?env (\<lambda>k. 5) sample_producer w = (Done ms, p', w'))"
    using sample_loggable [of "''a''"]
    by (intro producerRound_completes [OF sample_env_read]) (simp_all add: sample_producer_def sample_reader_def MaxContentLength_def)
  then obtain n p' ms where n: "\<And>w. all_good (sched w) \<Longrightarrow> n \<le> length (sched w) \<Longrightarrow>
      \<exists>w'. producerRound ?env (\<lambda>k. 5) sample_producer w = (Done ms, p', w')" by blast
  let ?w = "sample_log_disk\<lparr>sched := replicate n (Ok (Suc 0))\<rparr>"
  obtain w' where run: "producerRound ?env (\<lambda>k. 5) sample_producer ?w = (Done ms, p', w')" using n [of ?w] by auto
  have "length ms = 1"
    using producerRound_result(1) [OF run sample_env_read] by auto
  then obtain m where "ms = [m]" by (auto simp: length_Suc_conv)
  with run have "producerLoop [(True, ?env, \<lambda>k. 5, [True])] sample_producer ?w = (StillReading, [m], p', w')" by simp
  then show thesis by (rule that) simp
qed

definition sample_recovery :: sender where
  "sample_recovery = sample_sender\<lparr>senderWal := \<lparr>walPath = ''w'', pendingMsgs = [sample_message 3, sample_message 4]\<rparr>\<rparr>"

lemma sample_consumer_run:
  obtains attempts v s' v' where "sendMessages 0 attempts [sample_message 3, sample_message 4] sample_recovery v = (Delivered, s', v', [])"
proof -
  let ?ms = "[sample_message 3, sample_message 4]"
  have ids: "msgId (sample_message i) = i" for i by (simp add: sample_message_def)
  obtain f where f: "serializeLogBatch ?ms = Inr f" using sample_log_batch by blast
  have "bytes_of [Segment (serializeAck 4)] = serializeAck (msgId (last ?ms)) @ []" by (simp add: ids)
  from sendLogBatchAndWaitAck_completes [OF f this] obtain sends' evs' where
    x: "sendLogBatchAndWaitAck ?ms (replicate (length f) (Inl 1)) [Segment (serializeAck 4)] = (Returned 4, f, sends', evs')"
    by (auto simp: ids)
  let ?a = "\<lparr>atRunning = True, atConnect = None, atSends = replicate (length f) (Inl 1), atEvents = [Segment (serializeAck 4)], atWaited = True\<rparr>"
  let ?n = "1 + (1 + (0 + (2 + (1 + 3))))" and ?wl = "\<lparr>walPath = ''w'', pendingMsgs = []\<rparr>"
  let ?v = "sample_log_disk\<lparr>sched := replicate ?n (Ok (Suc 0))\<rparr>"
  have "\<exists>u v'. writeAtomically ''w'' [] ?v = (Done u, v')"
    by (rule completesD [OF completes_writeAtomically]) simp_all
  then obtain v' where "rewriteLocked ?wl ?v = (Done (), v')"
    by (auto simp: rewriteLocked_def bindW_def liftR_def doneW_def)
  then have "confirmLog 4 (senderWal sample_recovery) ?v = (Done (), ?wl, v')"
    by (simp add: confirmLog_def sample_recovery_def ids)
  then have "\<exists>s'. deliverWithRetry [?a] ?ms sample_recovery ?v = (Delivered, s', v', [])"
    using x by (simp add: deliverWithRetry_def tryDeliver_def Let_def)
  then obtain s' where "deliverWithRetry [?a] ?ms sample_recovery ?v = (Delivered, s', v', [])" ..
  then have "sendMessages 0 [?a] ?ms sample_recovery ?v = (Delivered, s', v', [])"
    by (subst sendMessages.simps) (simp add: SendBatchSize_def sendMessages.simps [of "Suc (Suc 0)"])
  then show thesis by (rule that)
qed

lemma client_backlog_exact_witness:
  "\<exists>rounds w qs p' w' attempts v s' v'. producerLoop rounds sample_producer w = (StillReading, qs, p', w') \<and> qs \<noteq> []
     \<and> backlog_exact 0 (prMetrics p') (prWal p')
     \<and> sendMessages 0 attempts [sample_message 3, sample_message 4] sample_recovery v = (Delivered, s', v', [])
     \<and> backlog_exact 2 (senderMetrics s') (senderWal s') \<and> pendingMsgs (senderWal s') = []
     \<and> mtConfirmedBatches (senderMetrics s') = 1"
proof -
  obtain rounds w qs p' w' where p: "producerLoop rounds sample_producer w = (StillReading, qs, p', w')" "qs \<noteq> []"
    by (rule sample_producer_run)
  obtain attempts v s' v' where c: "sendMessages 0 attempts [sample_message 3, sample_message 4] sample_recovery v = (Delivered, s', v', [])"
    by (rule sample_consumer_run)
  have "backlog_exact 0 (prMetrics sample_producer) (prWal sample_producer)"
    by (simp add: backlog_exact_def sample_producer_def)
  moreover have "backlog_exact 2 (senderMetrics sample_recovery) (senderWal sample_recovery)"
    "pendingMsgs (senderWal sample_recovery) = [sample_message 3, sample_message 4] @ []"
    "sorted_wrt (<) (map msgId (pendingMsgs (senderWal sample_recovery)))"
    "mtConfirmedBatches (senderMetrics sample_recovery) = 0"
    by (simp_all add: backlog_exact_def sample_recovery_def sample_sender_def sample_message_def)
  ultimately have "backlog_exact 0 (prMetrics p') (prWal p') \<and> backlog_exact 2 (senderMetrics s') (senderWal s')
      \<and> pendingMsgs (senderWal s') = [] \<and> mtConfirmedBatches (senderMetrics s') = 1"
    using client_backlog_exact [OF p(1) _ c, of 0 2 "[]"] by auto
  with p c show ?thesis by blast
qed

end
