(* ===== verification/Spec2Isabelle.thy ===== *)
theory Spec2Isabelle
  imports ClientSessions DedupSessions WalSessions TcpClient BoundedQueue FileTailReader
    TcpServer ServerMain ShutdownSignal ClientMain ClientBehaviour ClientThreads SharedDisk System SystemClient EndToEnd Guarantees
    ExactlyOnce SystemPrograms Console Backlog
begin

text \<open>
  \<^bold>\<open>LogBridge\<close> ships the lines of a log file from a client to a server, at least once and with
  deduplication. The client (\<^verbatim>\<open>src/src/main.cpp\<close>) follows the file, writes every line as a message into
  a write-ahead log, and sends the messages in batches until the server acknowledges them; the server
  (\<^verbatim>\<open>src/src/ServerMain.cpp\<close>) prints the messages it has not seen, stores the highest id of each client,
  and acknowledges. This development models both programs and proves what they promise, for every
  outcome of every system call, every crash of a process and every power loss.

  \<^bold>\<open>The theories and the code.\<close> Definitions have the names of the code where Isabelle allows it.

  \<^item> \<^verbatim>\<open>Prelude\<close>: integers as words, exceptions as a datatype, \<open>result\<close> (a sum) for what may throw; the locale
    \<open>state_machine\<close>, a step relation with an invariant, which every machine below interprets: the queue,
    the three files, the tail reader, the server's two threads, the client's four, and the whole system.
  \<^item> \<^verbatim>\<open>Wire\<close>, \<^verbatim>\<open>Protocol\<close>, \<^verbatim>\<open>Codec\<close>, \<^verbatim>\<open>Frames\<close>: \<^verbatim>\<open>src/src/Protocol.cpp\<close>, \<^verbatim>\<open>src/include/Protocol.h\<close> and
    \<^verbatim>\<open>LogMessage.h\<close>, function by function. \<open>Codec\<close> gives the bytes each value stands for; \<open>Frames\<close> states
    the contract of a codec as the locale \<open>frame_codec\<close> and interprets it for the three kinds of frame.
  \<^item> \<^verbatim>\<open>TextIO\<close>: the parts of the C++ library that the state files are read and written with.
  \<^item> \<^verbatim>\<open>World\<close>, \<^verbatim>\<open>Persistence\<close>, \<^verbatim>\<open>Durability\<close>: a file system with power loss, \<^verbatim>\<open>src/src/Persistence.cpp\<close> over it,
    and what it promises. A computation is a function of the world, whose schedule holds the results of
    the coming system calls; a process dies where its schedule ends. The locale \<open>snapshot_file\<close> is a file
    that is only ever replaced as a whole; the two state files below interpret it.
  \<^item> \<^verbatim>\<open>ClientState\<close>, \<^verbatim>\<open>ClientSessions\<close>: \<^verbatim>\<open>src/src/ClientState.cpp\<close>, and its file over many runs.
  \<^item> \<^verbatim>\<open>DedupStore\<close>, \<^verbatim>\<open>DedupSessions\<close>: \<^verbatim>\<open>src/src/DedupStore.cpp\<close>, and its file over many runs.
  \<^item> \<^verbatim>\<open>WriteAheadLog\<close>, \<^verbatim>\<open>WalSessions\<close>: \<^verbatim>\<open>src/src/WriteAheadLog.cpp\<close>, and its file over many runs.
  \<^item> \<^verbatim>\<open>SocketIO\<close>: \<^verbatim>\<open>src/src/SocketIO.cpp\<close>; \<^verbatim>\<open>TcpClient\<close>: \<^verbatim>\<open>src/src/TcpClient.cpp\<close>; \<^verbatim>\<open>TcpServer\<close>:
    \<^verbatim>\<open>src/src/TcpServer.cpp\<close>, with \<^verbatim>\<open>acceptClient\<close> and \<^verbatim>\<open>stop\<close> as the steps of two threads.
  \<^item> \<^verbatim>\<open>BoundedQueue\<close>: \<^verbatim>\<open>src/include/BoundedBlockingQueue.h\<close>, with the locale \<open>fifo_channel\<close> interpreted for
    \<^verbatim>\<open>pop\<close> and for \<^verbatim>\<open>popBatch\<close>.
  \<^item> \<^verbatim>\<open>FileTailReader\<close>: \<^verbatim>\<open>src/src/FileTailReader.cpp\<close>; \<^verbatim>\<open>ShutdownSignal\<close>: \<^verbatim>\<open>src/src/ShutdownSignal.cpp\<close>.
  \<^item> \<^verbatim>\<open>ServerMain\<close>: \<^verbatim>\<open>src/src/ServerMain.cpp\<close>; \<^verbatim>\<open>ClientMain\<close>, \<^verbatim>\<open>ClientBehaviour\<close>: \<^verbatim>\<open>src/src/main.cpp\<close>.
  \<^item> \<^verbatim>\<open>ClientThreads\<close>: the four threads of \<^verbatim>\<open>src/src/main.cpp\<close> around the queue and \<^verbatim>\<open>running\<close>, each call on
    the queue as in \<open>BoundedQueue\<close> and every other call with any result, and how they stop.
  \<^item> \<^verbatim>\<open>Console\<close>, \<^verbatim>\<open>Backlog\<close>: what the two programs write to \<^verbatim>\<open>std::cout\<close>, as lists of entries that follow
    the control flow of the models above and as bytes, both functions \<^verbatim>\<open>printMetrics\<close>, and the clock.
  \<^item> \<^verbatim>\<open>SharedDisk\<close>: the client's two files on one disk; \<^verbatim>\<open>System\<close>: both programs as one machine, whose
    steps are the operations above; \<^verbatim>\<open>SystemClient\<close>, \<^verbatim>\<open>EndToEnd\<close>: its invariants; \<^verbatim>\<open>Guarantees\<close>: the
    refinement of an at-least-once channel (locale \<open>simulation\<close>, which extends \<open>state_machine\<close>) and the end-to-end properties;
    \<^verbatim>\<open>ExactlyOnce\<close>: how often a message is printed;
    \<^verbatim>\<open>SystemPrograms\<close>: whole runs of \<open>serverMain\<close>, of the client's start and producer,
    and of \<open>deliverWithRetry\<close> are runs of it.

  \<^bold>\<open>What is shown.\<close> The codecs accept exactly what they produce, and their readers stay within the input.
  \<^verbatim>\<open>writeAtomically\<close> leaves the old or the new contents at every failure, and a normal return is durable;
  on it rest the three files: ids are never given out twice, a stored watermark is never forgotten, a
  logged message is pending until it is confirmed. The socket layer transfers frames as if the stream
  were not cut; an acknowledgement is sent only after the watermark is durable and received only for
  the batch that was sent. The queue delivers in order and closes; the tail reader hands out every
  line; descriptors are closed once. Together: what left the client's log was printed, and every logged
  message is printed or recovered at the next start, and printed again only when the server failed
  between printing and storing. The threads of a client that is told to stop end. The metrics lines of
  the server count the lines above them, those of the client agree with its log, and the printed
  messages can be read back from the output.

  \<^bold>\<open>Loops, lists and bounds.\<close> Loops over data are structural or have a measure (\<open>loadRecords\<close>, \<open>readLoop\<close>,
  \<open>batchLoop\<close>, \<open>sendMessages\<close>). A loop that waits for its environment is a function of the list of what
  it meets (results of \<^verbatim>\<open>send\<close> and \<^verbatim>\<open>recv\<close>, attempts, values of \<^verbatim>\<open>running\<close>); an exhausted list is a call that
  does not return, a value of its own (\<open>Waiting\<close>, \<open>Undecided\<close>, \<open>None\<close>), and that the loops do return is
  shown separately (\<open>completes\<close> and the properties on termination). In \<open>serveConnection\<close> the number
  counts the tests of \<^verbatim>\<open>running\<close> that are true. Ids, lengths and ports are words of the code's width; file
  offsets in \<open>FileTailReader\<close> and times are unbounded numbers, since files are shorter than 2 to the 63.

  \<^bold>\<open>Assumptions.\<close> A power loss leaves of each file a state between its last \<^verbatim>\<open>fsync\<close> and now, and of the
  directory one of the states since its last \<^verbatim>\<open>fsync\<close>; \<^verbatim>\<open>rename\<close> is atomic. No other program writes to
  the files. Client ids are distinct and free of whitespace, as \<^verbatim>\<open>generateClientId\<close> makes them; what
  other ids do to the server is the lemma \<open>forged_watermark\<close>. In \<open>System\<close> a message may be sent as soon as
  it is logged, not only after the checkpoint, which allows more runs than the code has.

  \<^bold>\<open>Not modelled.\<close> The texts on \<^verbatim>\<open>std::cerr\<close>, which only report an exception that the models have as a
  value, and how the lines of the client's threads interleave on the terminal. The tests and
  the benchmark. Declarations in headers have no behaviour of their own, and getters are record
  fields. Bodies of system and library calls are parameters, with their documented results.
\<close>

section \<open>The port argument\<close>

lemma parsePort_decimal: "parsePort (decimal n) = (if 2 ^ 64 \<le> n then Inl (OutOfRange ''stoull'')
        else if 1 \<le> n \<and> n \<le> 65535 then Inr (of_nat n)
        else Inl (InvalidArgument ''port must be between 1 and 65535''))"
proof (cases "n < 2 ^ 64")
    case True
    let ?v = "of_nat n :: u64"
    have u: "unat ?v = n" using True by (simp add: unsigned_of_nat take_bit_nat_eq_self)
    have "unat ?v = 0 \<longleftrightarrow> ?v = 0" by (rule unsigned_eq_0_iff)
    then have "?v = 0 \<longleftrightarrow> n = 0" by (simp only: u)
    moreover have "65535 < ?v \<longleftrightarrow> 65535 < n" unfolding word_less_nat_alt u by simp
    moreover have "ucast ?v = (of_nat n :: u16)"
      using of_nat_unat [of ?v, where ?'a = "16 word"] by (simp only: u)
    moreover have "\<not> 2 ^ 64 \<le> n" using True by (simp only: not_le)
    ultimately show ?thesis using stoull_decimal [OF True] by (simp add: parsePort_def bindR_def del: of_nat_less_iff)
  next
    case False
    then have "2 ^ 64 \<le> n" by (simp only: not_le)
    moreover have "stoull (decimal n) = Inl (OutOfRange ''stoull'')"
      using dropWhile_space_decimal [of n "[]"] \<open>2 ^ 64 \<le> n\<close> by (simp add: stoull_def)
    ultimately show ?thesis by (simp add: parsePort_def bindR_def)
qed

lemma parsePort_nonzero: "parsePort text \<noteq> Inr 0"
  proof
    assume "parsePort text = Inr 0"
    then obtain v :: u64 where v: "v \<noteq> 0" "v \<le> 65535" "ucast v = (0 :: u16)"
      by (auto simp: parsePort_def bindR_eq_Inr_iff not_less split: if_splits)
    have "unat v < 2 ^ 16" using v(2) by (simp add: word_le_nat_alt)
    then have "unat (ucast v :: u16) = unat v" by (simp add: unsigned_ucast_eq take_bit_nat_eq_self)
    with v(3) have "unat v = 0" by simp
    with v(1) show False by (metis unsigned_0 unsigned_word_eqI)
  qed
lemma parsePort_negative: "parsePort ''-18446744073709551615'' = Inr 1"
    by (simp add: parsePort_def stoull_def scanNumber_def isSpace_def isDigit_def digitsValue_def
        signedValue_def bindR_def)


end
